(* ===== verification/Loom_Prelude.thy ===== *)
theory Loom_Prelude
  imports Main "HOL-Library.Word" "HOL-Library.Multiset"
begin

unbundle bit_operations_syntax

text \<open>
  The shared layer of the loomworks development: the fixed-width integers the C code
  uses, the result codes of the public API, and the generic facts on lists, options
  and words that several components rely on.
\<close>

type_synonym u8 = "8 word"
type_synonym u32 = "32 word"
type_synonym u64 = "64 word"

text \<open>Addresses of heap objects.  \<open>None\<close> is the null pointer.\<close>

type_synonym addr = nat
type_synonym ptr = "nat option"

datatype loom_result =
    LOOMWORKS_OK | LOOMWORKS_ERR_ALLOC | LOOMWORKS_ERR_THREAD | LOOMWORKS_ERR_INVALID
  | LOOMWORKS_ERR_SHUTDOWN | LOOMWORKS_ERR_TIMEOUT | LOOMWORKS_ERR_CANCELLED
  | LOOMWORKS_ERR_FAILED

text \<open>Collections the component theories fill and their proofs draw on.\<close>

named_theorems index_arith \<open>arithmetic of array indices\<close>
named_theorems frame_simps \<open>fields an operation leaves unchanged\<close>

subsection \<open>Lists as C arrays\<close>

lemma take_update_below [simp]: "n \<le> i \<Longrightarrow> take n (xs[i := v]) = take n xs"
  by (rule take_update_cancel)

lemma take_Suc_update:
  "n < length xs \<Longrightarrow> take (Suc n) (xs[n := v]) = take n xs @ [v]"
  by (simp add: take_Suc_conv_app_nth)

lemma mset_exchange:
  assumes "i < length xs" and "j < length xs"
  shows "mset (xs[i := xs ! j, j := xs ! i]) = mset xs"
  using mset_swap [OF assms(2) assms(1)] by simp

lemma mset_list_update:
  assumes "i < length xs"
  shows "mset (xs[i := v]) = add_mset v (mset xs - {#xs ! i#})"
  using assms by (simp add: mset_update)

lemma mset_drop_last:
  assumes "n < length xs"
  shows "mset (take n xs) = mset (take (Suc n) xs) - {#xs ! n#}"
  using assms by (simp add: take_Suc_conv_app_nth)

lemma mset_butlast: "xs \<noteq> [] \<Longrightarrow> mset (butlast xs) = mset xs - {#last xs#}"
  by (induction xs rule: rev_induct) auto

lemma takeWhile_stops: "x \<in> set xs \<Longrightarrow> \<not> P x \<Longrightarrow> length (takeWhile P xs) < length xs"
  by (induction xs) auto

lemma last_update_last: "xs \<noteq> [] \<Longrightarrow> last (xs[i := last xs]) = last xs"
  by (cases "i = length xs - 1") (auto simp: last_conv_nth nth_list_update)

subsection \<open>64-bit counters used as array positions\<close>

text \<open>
  The rings of the library have a power-of-two capacity and find the cell of a position by
  masking; positions are monotone 64-bit counters.
\<close>

lemma unat_pow2: "k < 64 \<Longrightarrow> unat ((2::u64) ^ k) = 2 ^ k"
proof -
  assume "k < 64"
  then have "(2::nat) ^ k < 2 ^ 64" by (rule power_strict_increasing) simp
  then show ?thesis using unat_of_nat [of "2 ^ k", where 'a = 64] by simp
qed

lemma pow2_mask:
  assumes "k < 64" shows "unat (x AND ((2::u64) ^ k - 1)) = unat x mod 2 ^ k"
proof -
  have "x AND ((2::u64) ^ k - 1) = take_bit k x"
    by (simp only: take_bit_eq_mask mask_eq_exp_minus_1)
  moreover have "unat (take_bit k x) = take_bit k (unat x)" by (rule unsigned_take_bit_eq)
  ultimately show ?thesis by (metis take_bit_eq_mod)
qed

lemma of_nat_mask:
  assumes "k < 64" shows "unat ((of_nat i :: u64) AND (2 ^ k - 1)) = i mod 2 ^ k"
proof -
  have "(2::nat) ^ k dvd 2 ^ 64" using assms by (intro le_imp_power_dvd) simp
  then have "i mod 2 ^ 64 mod 2 ^ k = i mod 2 ^ k" by (rule mod_mod_cancel)
  with assms show ?thesis by (simp add: pow2_mask unat_of_nat)
qed

lemma of_nat_u64_inj:
  assumes "(of_nat i :: u64) = of_nat j" "i \<le> j" "j - i < 2 ^ 64" shows "i = j"
proof -
  have "unat (of_nat i :: u64) = unat (of_nat j :: u64)" using assms(1) by simp
  then have "j mod 2 ^ 64 = i mod 2 ^ 64" by (simp add: unat_of_nat)
  then have "2 ^ 64 dvd (j - i)" using assms(2) mod_eq_dvd_iff_nat by blast
  with assms(2,3) show ?thesis by (auto dest: dvd_imp_le)
qed

lemma mod_window:
  fixes i j n :: nat
  assumes "i < j" "j < i + n"
  shows "i mod n \<noteq> j mod n"
proof
  assume "i mod n = j mod n"
  then have "n dvd j - i" using assms(1) by (metis mod_eq_dvd_iff_nat less_imp_le)
  with assms show False by (auto dest: dvd_imp_le)
qed

lemma unat_u64_Suc: "(x::u64) \<noteq> - 1 \<Longrightarrow> unat (x + 1) = Suc (unat x)"
  by (metis Suc_eq_plus1 add.commute unatSuc add_eq_0_iff)

lemma unat_u64_pred: "(x::u64) \<noteq> 0 \<Longrightarrow> unat (x - 1) = unat x - 1"
  by (rule unat_minus_one)

lemma unat_u64_less: "unat (x::u64) < 2 ^ 64"
  using unsigned_less [of x] by simp

lemma unat_u32_less: "unat (x::u32) < 2 ^ 32"
  using unsigned_less [of x] by simp

lemma unat_u32_of_nat: "n < 2 ^ 32 \<Longrightarrow> unat (of_nat n :: u32) = n"
  by (simp add: unat_of_nat)

lemma unat_u32_max: "unat (- 1 :: u32) = 2 ^ 32 - 1"
  by (simp add: unsigned_minus_1_eq_mask mask_eq_exp_minus_1)

lemma unat_u64_max: "unat (- 1 :: u64) = 2 ^ 64 - 1"
  by (simp add: unsigned_minus_1_eq_mask mask_eq_exp_minus_1)

lemma unat_u64_eq: "(x::u64) = y \<longleftrightarrow> unat x = unat y"
  by (rule word_unat_eq_iff)

subsection \<open>A source of tasks\<close>

text \<open>
  What the worker loop relies on of a container it takes tasks from: taking fails exactly on
  an empty container, and otherwise removes the first task of the container's order.
\<close>

locale task_source =
  fixes inv :: "'s \<Rightarrow> bool"
    and contents :: "'s \<Rightarrow> addr list"
    and take_task :: "'s \<Rightarrow> addr option \<times> 's"
  assumes take_inv: "inv s \<Longrightarrow> inv (snd (take_task s))"
    and take_empty: "inv s \<Longrightarrow> contents s = [] \<Longrightarrow> fst (take_task s) = None \<and> contents (snd (take_task s)) = []"
    and take_first: "inv s \<Longrightarrow> contents s = x # xs \<Longrightarrow>
                       fst (take_task s) = Some x \<and> contents (snd (take_task s)) = xs"
begin

lemma take_None: "inv s \<Longrightarrow> fst (take_task s) = None \<longleftrightarrow> contents s = []"
  using take_empty take_first by (cases "contents s") auto

lemma take_Some:
  "inv s \<Longrightarrow> fst (take_task s) = Some x \<Longrightarrow> contents s = x # contents (snd (take_task s))"
  using take_empty take_first by (cases "contents s") auto

end

end
