(* ===== verification/Timer_Heap.thy ===== *)
theory Timer_Heap
  imports Loom_Prelude
begin

text \<open>
  The timer heap of \<^verbatim>\<open>src/src/timer.c\<close>: an array-backed binary min-heap of sleeping
  coroutine tasks, ordered by deadline.  The array is a list whose length is the
  allocated capacity; only the first \<open>timer_len\<close> cells are live.  Deadlines are
  compared and never computed here, so \<open>int64_t\<close> is \<open>int\<close>.
\<close>

record timer_entry =
  deadline_ns :: int
  te_task_id :: u64
  te_worker_idx :: u32
  te_coro_ctx :: addr
  te_task :: addr

record timer =
  timer_heap :: "timer_entry list"
  timer_len :: nat
  timer_cap :: nat

abbreviation dl :: "timer_entry list \<Rightarrow> nat \<Rightarrow> int" where
  "dl h i \<equiv> deadline_ns (h ! i)"

fun sift_up :: "timer_entry list \<Rightarrow> nat \<Rightarrow> timer_entry list" where
  "sift_up h i =
     (if i > 0 then
        (let p = (i - 1) div 2 in
         if dl h p \<le> dl h i then h
         else sift_up (h[p := h ! i, i := h ! p]) p)
      else h)"

definition smallest_child :: "timer_entry list \<Rightarrow> nat \<Rightarrow> nat \<Rightarrow> nat" where
  "smallest_child h n i =
     (let l = 2 * i + 1; r = 2 * i + 2;
          m = (if l < n \<and> dl h l < dl h i then l else i)
      in if r < n \<and> dl h r < dl h m then r else m)"

lemma smallest_child_cases:
  "smallest_child h n i = i \<or>
   (smallest_child h n i = 2 * i + 1 \<or> smallest_child h n i = 2 * i + 2) \<and>
   i < smallest_child h n i \<and> smallest_child h n i < n"
  by (auto simp: smallest_child_def Let_def)

function sift_down :: "timer_entry list \<Rightarrow> nat \<Rightarrow> nat \<Rightarrow> timer_entry list" where
  "sift_down h n i =
     (let m = smallest_child h n i in
      if m = i then h
      else sift_down (h[i := h ! m, m := h ! i]) n m)"
  by pat_completeness auto
termination
proof (relation "measure (\<lambda>(h, n, i). n - i)")
  fix h :: "timer_entry list" and n i x
  assume "x = smallest_child h n i" "x \<noteq> i"
  then show "((h[i := h ! x, x := h ! i], n, x), (h, n, i)) \<in> measure (\<lambda>(h, n, i). n - i)"
    using smallest_child_cases [of h n i] by auto
qed simp

declare sift_up.simps [simp del] sift_down.simps [simp del]

text \<open>
  \<open>loom_timer_push\<close>: the last argument is what \<open>realloc\<close> does if it is called:
  \<open>None\<close> is a failed call, \<open>Some junk\<close> a grown array whose new cells hold \<open>junk\<close>.
\<close>

definition loom_timer_push :: "timer \<Rightarrow> timer_entry \<Rightarrow> timer_entry option \<Rightarrow> bool \<times> timer" where
  "loom_timer_push p e mem =
     (let grown =
        (if timer_len p = timer_cap p then
           (let new_cap = (if timer_cap p = 0 then 64 else timer_cap p * 2) in
            case mem of
              None \<Rightarrow> None
            | Some junk \<Rightarrow>
                Some (p\<lparr>timer_heap := timer_heap p @ replicate (new_cap - timer_cap p) junk,
                        timer_cap := new_cap\<rparr>))
         else Some p)
      in case grown of
           None \<Rightarrow> (False, p)
         | Some p1 \<Rightarrow>
             (True,
              p1\<lparr>timer_heap := sift_up ((timer_heap p1)[timer_len p1 := e]) (timer_len p1),
                 timer_len := timer_len p1 + 1\<rparr>))"

definition loom_timer_peek :: "timer \<Rightarrow> int option" where
  "loom_timer_peek p = (if timer_len p = 0 then None else Some (dl (timer_heap p) 0))"

definition loom_timer_pop_due :: "timer \<Rightarrow> (timer_entry \<times> timer) option" where
  "loom_timer_pop_due p =
     (if timer_len p = 0 then None
      else
        (let out = timer_heap p ! 0;
             h = (timer_heap p)[0 := timer_heap p ! (timer_len p - 1)];
             n = timer_len p - 1;
             h' = (if n > 0 then sift_down h n 0 else h)
         in Some (out, p\<lparr>timer_heap := h', timer_len := n\<rparr>)))"

text \<open>The scan \<open>for (i = 0; i < timer_len; i++)\<close> for the first entry with the id.\<close>

function find_task :: "timer_entry list \<Rightarrow> nat \<Rightarrow> u64 \<Rightarrow> nat \<Rightarrow> nat option" where
  "find_task h n task_id i =
     (if i < n then
        (if te_task_id (h ! i) = task_id then Some i else find_task h n task_id (i + 1))
      else None)"
  by pat_completeness auto
termination by (relation "measure (\<lambda>(h, n, task_id, i). n - i)") auto

declare find_task.simps [simp del]

definition loom_timer_remove_by_task :: "timer \<Rightarrow> u64 \<Rightarrow> (timer_entry \<times> timer) option" where
  "loom_timer_remove_by_task p task_id =
     (case find_task (timer_heap p) (timer_len p) task_id 0 of
        None \<Rightarrow> None
      | Some i \<Rightarrow>
          (let e = timer_heap p ! i;
               h = (timer_heap p)[i := timer_heap p ! (timer_len p - 1)];
               n = timer_len p - 1;
               h' = (if n > 0 then sift_up (sift_down h n i) i else h)
           in Some (e, p\<lparr>timer_heap := h', timer_len := n\<rparr>)))"

subsection \<open>The heap invariant\<close>

definition hparent :: "nat \<Rightarrow> nat" where
  "hparent i = (i - 1) div 2"

definition heap_on :: "timer_entry list \<Rightarrow> nat \<Rightarrow> bool" where
  "heap_on h n \<longleftrightarrow> (\<forall>j<n. 0 < j \<longrightarrow> dl h (hparent j) \<le> dl h j)"

definition live :: "timer \<Rightarrow> timer_entry list" where
  "live p = take (timer_len p) (timer_heap p)"

definition timer_wf :: "timer \<Rightarrow> bool" where
  "timer_wf p \<longleftrightarrow>
     length (timer_heap p) = timer_cap p \<and> timer_len p \<le> timer_cap p \<and>
     heap_on (timer_heap p) (timer_len p)"

definition timer_empty :: timer where
  "timer_empty = \<lparr>timer_heap = [], timer_len = 0, timer_cap = 0\<rparr>"

lemma hparent_less [index_arith]: "0 < i \<Longrightarrow> hparent i < i"
  by (auto simp: hparent_def)

lemma hparent_child [simp]: "hparent (2 * i + 1) = i" "hparent (2 * i + 2) = i"
  "hparent (Suc (2 * i)) = i" "hparent (Suc (Suc (2 * i))) = i"
  by (auto simp: hparent_def)

lemma hparent_eq_iff:
  "0 < j \<Longrightarrow> hparent j = i \<longleftrightarrow> j = 2 * i + 1 \<or> j = 2 * i + 2"
  by (auto simp: hparent_def)

lemma sift_up_length [simp]: "length (sift_up h i) = length h"
  by (induction h i rule: sift_up.induct) (subst sift_up.simps, auto simp: Let_def)

lemma sift_down_length [simp]: "length (sift_down h n i) = length h"
  by (induction h n i rule: sift_down.induct) (subst sift_down.simps, auto simp: Let_def)

lemma sift_up_mset: "i < length h \<Longrightarrow> mset (sift_up h i) = mset h"
proof (induction h i rule: sift_up.induct)
  case (1 h i)
  let ?p = "(i - 1) div 2"
  have "?p < length h" using 1(2) by linarith
  then show ?case
    using 1 by (subst sift_up.simps) (auto simp: Let_def mset_exchange)
qed

lemma sift_down_mset:
  "i < n \<Longrightarrow> n \<le> length h \<Longrightarrow> mset (sift_down h n i) = mset h"
proof (induction h n i rule: sift_down.induct)
  case (1 h n i)
  show ?case
  proof (cases "smallest_child h n i = i")
    case True
    then show ?thesis by (simp add: sift_down.simps [of h n i])
  next
    case False
    with smallest_child_cases [of h n i] have m: "smallest_child h n i < n" by auto
    with False 1 show ?thesis
      by (simp add: sift_down.simps [of h n i] Let_def mset_exchange)
  qed
qed

text \<open>Both sifts read and write below the live bound only, so they commute with \<open>take\<close>.\<close>

lemma sift_up_take: "i < n \<Longrightarrow> take n (sift_up h i) = sift_up (take n h) i"
proof (induction h i rule: sift_up.induct)
  case (1 h i)
  let ?p = "(i - 1) div 2"
  have p: "?p < n" using 1(2) by linarith
  show ?case
  proof (cases "0 < i \<and> \<not> dl h ?p \<le> dl h i")
    case True
    with 1 p show ?thesis
      by (simp add: sift_up.simps [of h i] sift_up.simps [of "take n h" i] Let_def take_update_swap)
  next
    case False
    with 1(2) p show ?thesis
      by (auto simp add: sift_up.simps [of h i] sift_up.simps [of "take n h" i] Let_def)
  qed
qed

lemma smallest_child_take [simp]:
  "i < n \<Longrightarrow> n \<le> length h \<Longrightarrow> smallest_child (take n h) n i = smallest_child h n i"
  by (auto simp: smallest_child_def Let_def)

lemma sift_down_take:
  "i < n \<Longrightarrow> n \<le> length h \<Longrightarrow> take n (sift_down h n i) = sift_down (take n h) n i"
proof (induction h n i rule: sift_down.induct)
  case (1 h n i)
  show ?case
  proof (cases "smallest_child h n i = i")
    case True
    with 1(2,3) show ?thesis
      by (simp add: sift_down.simps [of h n i] sift_down.simps [of "take n h" n i])
  next
    case False
    with smallest_child_cases [of h n i] have m: "smallest_child h n i < n" by auto
    with False 1 show ?thesis
      by (simp add: sift_down.simps [of h n i] sift_down.simps [of "take n h" n i] Let_def
            take_update_swap)
  qed
qed

lemma heap_on_take [simp]: "heap_on (take n h) n = heap_on h n"
proof -
  have "dl (take n h) (hparent j) = dl h (hparent j)" if "j < n" "0 < j" for j
    using hparent_less [OF that(2)] that(1) by simp
  then show ?thesis by (simp add: heap_on_def)
qed

subsection \<open>Restoring the heap\<close>

text \<open>The state of the array while an element moves up (resp. down) through position \<open>i\<close>.\<close>

definition heap_but_up :: "timer_entry list \<Rightarrow> nat \<Rightarrow> nat \<Rightarrow> bool" where
  "heap_but_up h n i \<longleftrightarrow>
     (\<forall>j<n. 0 < j \<longrightarrow> j \<noteq> i \<longrightarrow> dl h (hparent j) \<le> dl h j) \<and>
     (0 < i \<longrightarrow> (\<forall>j<n. 0 < j \<longrightarrow> hparent j = i \<longrightarrow> dl h (hparent i) \<le> dl h j))"

definition heap_but_down :: "timer_entry list \<Rightarrow> nat \<Rightarrow> nat \<Rightarrow> bool" where
  "heap_but_down h n i \<longleftrightarrow>
     (\<forall>j<n. 0 < j \<longrightarrow> hparent j \<noteq> i \<longrightarrow> dl h (hparent j) \<le> dl h j) \<and>
     (0 < i \<longrightarrow> (\<forall>j<n. 0 < j \<longrightarrow> hparent j = i \<longrightarrow> dl h (hparent i) \<le> dl h j))"

lemma heap_but_up_swap:
  assumes "heap_but_up h n i" "0 < i" "i < n" "n \<le> length h" "dl h i < dl h (hparent i)"
  shows "heap_but_up (h[hparent i := h ! i, i := h ! hparent i]) n (hparent i)"
proof -
  let ?p = "hparent i" and ?h = "h[hparent i := h ! i, i := h ! hparent i]"
  have p: "?p < i" using assms(2) by (rule hparent_less)
  have edge: "dl h (hparent j) \<le> dl h j" if "j < n" "0 < j" "j \<noteq> i" for j
    using assms(1) that by (simp add: heap_but_up_def)
  have skip: "dl h ?p \<le> dl h j" if "j < n" "0 < j" "hparent j = i" for j
    using assms(1,2) that by (simp add: heap_but_up_def)
  have rd: "dl ?h i = dl h ?p" "dl ?h ?p = dl h i" "k \<noteq> i \<Longrightarrow> k \<noteq> ?p \<Longrightarrow> dl ?h k = dl h k" for k
    using p assms(3,4) by auto
  have "dl ?h (hparent j) \<le> dl ?h j" if j: "j < n" "0 < j" "j \<noteq> ?p" for j
  proof (cases "j = i")
    case True
    with assms(5) rd show ?thesis by simp
  next
    case False
    have "hparent j < j" using j by (simp add: hparent_less)
    then show ?thesis
      using edge [OF j(1,2) False] skip [OF j(1,2)] rd j False assms(5) p
      by (cases "hparent j = i"; cases "hparent j = ?p") auto
  qed
  moreover have "dl ?h (hparent ?p) \<le> dl ?h j"
    if j: "0 < ?p" "j < n" "0 < j" "hparent j = ?p" for j
  proof -
    have pp: "hparent ?p < ?p" using j(1) by (rule hparent_less)
    have up: "dl h (hparent ?p) \<le> dl h ?p" using edge [of ?p] j(1) p assms(3) by simp
    have "?p < j" using hparent_less [OF j(3)] j(4) by simp
    with up edge [OF j(2,3)] j(4) rd pp p show ?thesis by (cases "j = i") auto
  qed
  ultimately show ?thesis by (simp add: heap_but_up_def)
qed

lemma sift_up_heap:
  "heap_but_up h n i \<Longrightarrow> i < n \<Longrightarrow> n \<le> length h \<Longrightarrow> heap_on (sift_up h i) n"
proof (induction h i rule: sift_up.induct)
  case (1 h i)
  show ?case
  proof (cases "0 < i \<and> \<not> dl h (hparent i) \<le> dl h i")
    case True
    then have "heap_but_up (h[hparent i := h ! i, i := h ! hparent i]) n (hparent i)"
      using 1 by (intro heap_but_up_swap) auto
    moreover have "hparent i < n" using True hparent_less [of i] 1(3) by simp
    ultimately show ?thesis
      using 1 True by (simp add: sift_up.simps [of h i] hparent_def Let_def)
  next
    case False
    then have "sift_up h i = h"
      by (auto simp: sift_up.simps [of h i] hparent_def Let_def)
    moreover have "dl h (hparent j) \<le> dl h j" if "j < n" "0 < j" for j
      using 1(2) False that by (cases "j = i") (auto simp: heap_but_up_def)
    ultimately show ?thesis by (simp add: heap_on_def)
  qed
qed

lemma smallest_child_le:
  assumes "j < n" "0 < j" "hparent j = i"
  shows "dl h (smallest_child h n i) \<le> dl h j"
  using assms by (auto simp: hparent_eq_iff smallest_child_def Let_def)

lemma smallest_child_less:
  "smallest_child h n i \<noteq> i \<Longrightarrow> dl h (smallest_child h n i) < dl h i"
  by (auto simp: smallest_child_def Let_def split: if_splits)

lemma heap_but_down_swap:
  assumes "heap_but_down h n i" "i < n" "n \<le> length h" "m = smallest_child h n i" "m \<noteq> i"
  shows "heap_but_down (h[i := h ! m, m := h ! i]) n m"
proof -
  let ?h = "h[i := h ! m, m := h ! i]"
  have m: "i < m" "m < n" "hparent m = i" "0 < m"
    using smallest_child_cases [of h n i] assms(4,5) by auto
  have less: "dl h m < dl h i" using smallest_child_less [of h n i] assms(4,5) by simp
  have kids: "dl h m \<le> dl h j" if "j < n" "0 < j" "hparent j = i" for j
    using smallest_child_le [OF that] assms(4) by simp
  have edge: "dl h (hparent j) \<le> dl h j" if "j < n" "0 < j" "hparent j \<noteq> i" for j
    using assms(1) that by (simp add: heap_but_down_def)
  have skip: "dl h (hparent i) \<le> dl h j" if "0 < i" "j < n" "0 < j" "hparent j = i" for j
    using assms(1) that by (simp add: heap_but_down_def)
  have rd: "dl ?h m = dl h i" "dl ?h i = dl h m" "k \<noteq> i \<Longrightarrow> k \<noteq> m \<Longrightarrow> dl ?h k = dl h k" for k
    using m assms(2,3) by auto
  have "dl ?h (hparent j) \<le> dl ?h j" if j: "j < n" "0 < j" "hparent j \<noteq> m" for j
  proof (cases "hparent j = i")
    case True
    have "i < j" using True hparent_less [OF j(2)] by simp
    with True kids [OF j(1,2)] less rd show ?thesis by (cases "j = m") auto
  next
    case False
    have "hparent j < j" using j by (simp add: hparent_less)
    moreover have "j \<noteq> m" using False m(3) by auto
    moreover have "dl h (hparent i) \<le> dl h m" if "0 < i" using skip that m by blast
    ultimately show ?thesis
      using edge [OF j(1,2) False] rd False j hparent_less [of i] m by (cases "j = i") auto
  qed
  moreover have "dl ?h (hparent m) \<le> dl ?h j" if j: "j < n" "0 < j" "hparent j = m" for j
  proof -
    have "m < j" using hparent_less [OF j(2)] j(3) by simp
    moreover have "dl h m \<le> dl h j" using edge [OF j(1,2)] j(3) m(1) by simp
    ultimately show ?thesis using rd m by auto
  qed
  ultimately show ?thesis by (simp add: heap_but_down_def)
qed

lemma sift_down_heap:
  "heap_but_down h n i \<Longrightarrow> i < n \<Longrightarrow> n \<le> length h \<Longrightarrow> heap_on (sift_down h n i) n"
proof (induction h n i rule: sift_down.induct)
  case (1 h n i)
  let ?m = "smallest_child h n i"
  show ?case
  proof (cases "?m = i")
    case True
    have "dl h (hparent j) \<le> dl h j" if "j < n" "0 < j" for j
      using 1(2) that smallest_child_le [of j n i h] True
      by (cases "hparent j = i") (auto simp: heap_but_down_def)
    with True show ?thesis by (simp add: sift_down.simps [of h n i] heap_on_def)
  next
    case False
    have "?m < n" using smallest_child_cases [of h n i] False by auto
    moreover have "heap_but_down (h[i := h ! ?m, ?m := h ! i]) n ?m"
      using 1(2-4) False by (intro heap_but_down_swap) auto
    ultimately show ?thesis
      using 1 False by (simp add: sift_down.simps [of h n i] Let_def)
  qed
qed

lemma heap_on_root: "heap_on h n \<Longrightarrow> j < n \<Longrightarrow> dl h 0 \<le> dl h j"
proof (induction j rule: less_induct)
  case (less j)
  show ?case
  proof (cases "j = 0")
    case False
    then have "hparent j < j" "dl h (hparent j) \<le> dl h j"
      using less.prems by (auto simp: heap_on_def hparent_less)
    with less show ?thesis by (meson less_trans order_trans)
  qed simp
qed

subsection \<open>Replacing an element\<close>

lemma sift_up_done:
  assumes "0 < i \<Longrightarrow> dl h (hparent i) \<le> dl h i"
  shows "sift_up h i = h"
  using assms by (auto simp: sift_up.simps [of h i] hparent_def Let_def)

lemma sift_down_done:
  assumes "\<And>j. j < n \<Longrightarrow> 0 < j \<Longrightarrow> hparent j = i \<Longrightarrow> dl h i \<le> dl h j"
  shows "sift_down h n i = h"
proof -
  have "smallest_child h n i = i"
    using assms [of "2 * i + 1"] assms [of "2 * i + 2"]
    by (auto simp: smallest_child_def Let_def hparent_eq_iff)
  then show ?thesis by (simp add: sift_down.simps [of h n i])
qed

lemma heap_replace_up:
  assumes "heap_on h n" "i < n" "n \<le> length h" "0 < i" "deadline_ns v < dl h (hparent i)"
  shows "heap_but_up (h[i := v]) n i \<and> sift_down (h[i := v]) n i = h[i := v]"
proof -
  have edge: "dl h (hparent j) \<le> dl h j" if "j < n" "0 < j" for j
    using assms(1) that by (simp add: heap_on_def)
  have kid: "deadline_ns v < dl h j \<and> dl h (hparent i) \<le> dl h j" if "j < n" "0 < j" "hparent j = i" for j
    using edge [OF that(1,2)] edge [of i] assms(2,4,5) that(3) by simp
  have neq: "hparent j \<noteq> j" if "0 < j" for j using hparent_less [OF that] by simp
  have "heap_but_up (h[i := v]) n i"
    using kid edge neq assms unfolding heap_but_up_def
    by (auto simp: nth_list_update intro: less_imp_le)
  moreover have "sift_down (h[i := v]) n i = h[i := v]"
    by (rule sift_down_done) (use kid neq assms in \<open>auto simp: nth_list_update intro: less_imp_le\<close>)
  ultimately show ?thesis ..
qed

lemma heap_replace_down:
  assumes "heap_on h n" "i < n" "n \<le> length h" "0 < i \<Longrightarrow> dl h (hparent i) \<le> deadline_ns v"
  shows "heap_but_down (h[i := v]) n i"
proof -
  have edge: "dl h (hparent j) \<le> dl h j" if "j < n" "0 < j" for j
    using assms(1) that by (simp add: heap_on_def)
  have kid: "dl h (hparent i) \<le> dl h j" if "0 < i" "j < n" "0 < j" "hparent j = i" for j
    using edge [OF that(2,3)] edge [of i] assms(2) that by simp
  have neq: "hparent j \<noteq> j" "j \<noteq> hparent j" if "0 < j" for j using hparent_less [OF that] by simp_all
  show ?thesis
    using kid edge neq assms unfolding heap_but_down_def by (auto simp: nth_list_update)
qed

lemma heap_replace:
  assumes "heap_on h n" "i < n" "n \<le> length h"
  shows "heap_on (sift_up (sift_down (h[i := v]) n i) i) n"
proof (cases "0 < i \<and> deadline_ns v < dl h (hparent i)")
  case True
  with heap_replace_up [OF assms, of v] assms sift_up_heap [of "h[i := v]" n i] show ?thesis by simp
next
  case False
  let ?h = "sift_down (h[i := v]) n i"
  have "heap_on ?h n"
    using heap_replace_down [OF assms, of v] assms False by (intro sift_down_heap) auto
  moreover from this have "sift_up ?h i = ?h"
    using assms(2) by (intro sift_up_done) (simp add: heap_on_def)
  ultimately show ?thesis by simp
qed

lemma heap_replace_mset:
  assumes "i < n" "n \<le> length h"
  shows "mset (take n (sift_up (sift_down (h[i := v]) n i) i)) = add_mset v (mset (take n h) - {#h ! i#})"
  using assms
  by (simp add: sift_up_take sift_down_take sift_up_mset sift_down_mset sift_down_length mset_list_update
      take_update_swap)

subsection \<open>The operations on the heap\<close>

definition timer_entries :: "timer \<Rightarrow> timer_entry multiset" where
  "timer_entries p = mset (live p)"

lemma timer_wf_empty: "timer_wf timer_empty" "timer_entries timer_empty = {#}"
  by (simp_all add: timer_wf_def timer_empty_def heap_on_def timer_entries_def live_def)

text \<open>An array whose first free cell receives an entry that is then moved up.\<close>

lemma heap_append:
  assumes "heap_on h n" "n < length h"
  shows "heap_on (sift_up (h[n := e]) n) (Suc n)"
    and "mset (take (Suc n) (sift_up (h[n := e]) n)) = add_mset e (mset (take n h))"
proof -
  have par: "hparent j < n \<and> hparent j \<noteq> n" if "j < Suc n" "0 < j" for j
    using hparent_less [OF that(2)] that(1) by simp
  then have "heap_but_up (h[n := e]) (Suc n) n"
    using assms unfolding heap_but_up_def heap_on_def
    by (auto simp: less_Suc_eq nth_list_update)
  then show "heap_on (sift_up (h[n := e]) n) (Suc n)"
    using assms by (intro sift_up_heap) auto
  show "mset (take (Suc n) (sift_up (h[n := e]) n)) = add_mset e (mset (take n h))"
    using assms by (simp add: sift_up_take sift_up_mset take_Suc_update)
qed

lemma heap_on_append [simp]: "n \<le> length h \<Longrightarrow> heap_on (h @ xs) n = heap_on h n"
  using heap_on_take [of n "h @ xs"] heap_on_take [of n h] by simp

lemma timer_push_ok:
  assumes "timer_wf p" "loom_timer_push p e mem = (True, p')"
  shows "timer_wf p' \<and> timer_entries p' = add_mset e (timer_entries p)"
proof (cases "timer_len p = timer_cap p")
  case False
  then have p': "p' = p\<lparr>timer_heap := sift_up ((timer_heap p)[timer_len p := e]) (timer_len p),
                        timer_len := timer_len p + 1\<rparr>"
    using assms(2) by (simp add: loom_timer_push_def)
  show ?thesis
    using heap_append [of "timer_heap p" "timer_len p" e] assms(1) False
    by (auto simp: p' timer_wf_def timer_entries_def live_def)
next
  case True
  define cap where "cap = (if timer_cap p = 0 then 64 else timer_cap p * 2)"
  obtain junk where "mem = Some junk"
    using assms(2) True by (cases mem) (auto simp: loom_timer_push_def Let_def)
  then have p': "p' = p\<lparr>timer_heap :=
        sift_up ((timer_heap p @ replicate (cap - timer_cap p) junk)[timer_len p := e]) (timer_len p),
        timer_cap := cap, timer_len := timer_len p + 1\<rparr>"
    using assms(2) True by (auto simp: loom_timer_push_def cap_def Let_def)
  have "timer_cap p < cap" by (simp add: cap_def)
  then show ?thesis
    using heap_append [of "timer_heap p @ replicate (cap - timer_cap p) junk" "timer_len p" e] assms(1) True
    by (auto simp: p' timer_wf_def timer_entries_def live_def)
qed

lemma timer_push_result:
  "fst (loom_timer_push p e mem) = (timer_len p \<noteq> timer_cap p \<or> mem \<noteq> None)"
  "\<not> fst (loom_timer_push p e mem) \<Longrightarrow> snd (loom_timer_push p e mem) = p"
  by (auto simp: loom_timer_push_def Let_def split: option.splits)

lemma timer_pop_replace:
  "0 < timer_len p \<Longrightarrow> loom_timer_pop_due p =
     (let n = timer_len p - 1; h = timer_heap p
      in Some (h ! 0, p\<lparr>timer_heap := (if n > 0 then sift_up (sift_down (h[0 := h ! n]) n 0) 0
                                      else h[0 := h ! n]), timer_len := n\<rparr>))"
  by (simp add: loom_timer_pop_due_def Let_def sift_up_done)

text \<open>Both removals overwrite cell \<open>i\<close> with the last live cell, drop that cell, and repair.\<close>

lemma heap_delete:
  assumes "heap_on h (Suc n)" "Suc n \<le> length h" "i \<le> n"
    and "h' = (if 0 < n then sift_up (sift_down (h[i := h ! n]) n i) i else h[i := h ! n])"
  shows "heap_on h' n" and "length h' = length h"
    and "mset (take (Suc n) h) = add_mset (h ! i) (mset (take n h'))"
proof -
  have hn: "heap_on h n" using assms(1) by (simp add: heap_on_def)
  have all: "heap_on h' n \<and> length h' = length h \<and>
      mset (take (Suc n) h) = add_mset (h ! i) (mset (take n h'))"
  proof (cases "i = n")
    case True
    have "sift_down h n n = h" by (rule sift_down_done) (auto simp: hparent_eq_iff)
    moreover have "sift_up h n = h"
      using assms(1) by (intro sift_up_done) (simp add: heap_on_def)
    ultimately have "h' = h" using True assms(4) by simp
    with True hn assms(2) show ?thesis by (simp add: take_Suc_conv_app_nth)
  next
    case False
    then have i: "i < n" using assms(3) by simp
    then have "h ! i \<in># mset (take n h)"
      using assms(2) by (auto simp: in_set_conv_nth)
    then show ?thesis
      using heap_replace [OF hn i, of "h ! n"] heap_replace_mset [OF i, of h "h ! n"] i assms(2,4)
      by (auto simp: take_Suc_conv_app_nth)
  qed
  from all show "heap_on h' n" "length h' = length h"
    "mset (take (Suc n) h) = add_mset (h ! i) (mset (take n h'))" by auto
qed

lemma timer_pop_ok:
  assumes "timer_wf p" "loom_timer_pop_due p = Some (e, p')"
  shows "timer_wf p' \<and> timer_entries p = add_mset e (timer_entries p') \<and>
         (\<forall>x. x \<in># timer_entries p \<longrightarrow> deadline_ns e \<le> deadline_ns x)"
proof -
  have pos: "0 < timer_len p"
    using assms(2) by (auto simp: loom_timer_pop_due_def split: if_splits)
  then obtain n where n: "timer_len p = Suc n" by (cases "timer_len p") auto
  have e: "e = timer_heap p ! 0"
    using assms(2) pos by (simp add: timer_pop_replace Let_def)
  have "deadline_ns e \<le> deadline_ns x" if "x \<in># timer_entries p" for x
    using that assms(1) heap_on_root [of "timer_heap p" "timer_len p"]
    by (auto simp: e timer_entries_def live_def timer_wf_def in_set_conv_nth)
  moreover have "timer_wf p' \<and> timer_entries p = add_mset e (timer_entries p')"
    using heap_delete [of "timer_heap p" n 0, OF _ _ _ refl] assms pos n
    by (auto simp: timer_pop_replace Let_def timer_wf_def timer_entries_def live_def)
  ultimately show ?thesis by blast
qed

lemma find_task_Some:
  "find_task h n k i = Some j \<Longrightarrow> i \<le> j \<and> j < n \<and> te_task_id (h ! j) = k \<and>
     (\<forall>l. i \<le> l \<longrightarrow> l < j \<longrightarrow> te_task_id (h ! l) \<noteq> k)"
proof (induction h n k i rule: find_task.induct)
  case (1 h n k i)
  show ?case
  proof (cases "i < n \<and> te_task_id (h ! i) \<noteq> k")
    case True
    then have "find_task h n k (i + 1) = Some j"
      using 1(2) by (simp add: find_task.simps [of h n k i])
    with 1(1) True show ?thesis by (metis Suc_eq_plus1 Suc_leD le_antisym not_less_eq_eq)
  next
    case False
    with 1(2) have "i < n \<and> j = i" by (simp add: find_task.simps [of h n k i] split: if_splits)
    with False show ?thesis by simp
  qed
qed

lemma find_task_None:
  "find_task h n k i = None \<Longrightarrow> i \<le> l \<Longrightarrow> l < n \<Longrightarrow> te_task_id (h ! l) \<noteq> k"
proof (induction h n k i rule: find_task.induct)
  case (1 h n k i)
  have i: "i < n" "te_task_id (h ! i) \<noteq> k" "find_task h n k (i + 1) = None"
    using 1(2-4) find_task.simps [of h n k i] by (auto split: if_splits)
  with 1 show ?case by (cases "l = i") auto
qed

lemma timer_remove_Some:
  assumes "timer_wf p" "loom_timer_remove_by_task p k = Some (e, p')"
  shows "timer_wf p' \<and> timer_entries p = add_mset e (timer_entries p') \<and> te_task_id e = k"
proof -
  obtain i where i: "find_task (timer_heap p) (timer_len p) k 0 = Some i"
    using assms(2) by (auto simp: loom_timer_remove_by_task_def split: option.splits)
  from find_task_Some [OF i] obtain n where n: "timer_len p = Suc n" "i \<le> n"
    by (cases "timer_len p") auto
  have "te_task_id e = k"
    using assms(2) i find_task_Some [OF i] by (auto simp: loom_timer_remove_by_task_def Let_def)
  moreover have "timer_wf p' \<and> timer_entries p = add_mset e (timer_entries p')"
    using heap_delete [of "timer_heap p" n i, OF _ _ _ refl] assms i n
    by (auto simp: loom_timer_remove_by_task_def Let_def timer_wf_def timer_entries_def live_def)
  ultimately show ?thesis by blast
qed

lemma timer_remove_None:
  assumes "timer_wf p"
  shows "loom_timer_remove_by_task p k = None \<longleftrightarrow> (\<forall>x. x \<in># timer_entries p \<longrightarrow> te_task_id x \<noteq> k)"
proof (cases "find_task (timer_heap p) (timer_len p) k 0")
  case None
  then have "te_task_id x \<noteq> k" if "x \<in># timer_entries p" for x
    using that find_task_None [OF None, simplified]
    by (metis (no_types, lifting) in_set_conv_nth length_take live_def min_less_iff_conj nth_take
        set_mset_mset timer_entries_def)
  with None show ?thesis by (auto simp: loom_timer_remove_by_task_def)
next
  case (Some i)
  have "timer_heap p ! i \<in># timer_entries p"
    using find_task_Some [OF Some] assms
    by (auto simp: timer_entries_def live_def in_set_conv_nth timer_wf_def)
  with Some find_task_Some [OF Some] show ?thesis
    by (auto simp: loom_timer_remove_by_task_def Let_def)
qed

lemma timer_remove_exact:
  "timer_wf p \<Longrightarrow>
   (case loom_timer_remove_by_task p k of
      None \<Rightarrow> \<forall>x. x \<in># timer_entries p \<longrightarrow> te_task_id x \<noteq> k
    | Some (e, p') \<Rightarrow> timer_wf p' \<and> te_task_id e = k \<and>
        timer_entries p = add_mset e (timer_entries p'))"
  using timer_remove_Some [of p k] timer_remove_None [of p k]
  by (auto split: option.splits)

lemma timer_len_entries: "timer_wf p \<Longrightarrow> size (timer_entries p) = timer_len p"
  by (simp add: timer_entries_def live_def timer_wf_def)

subsection \<open>The interface the timer thread relies on\<close>

locale deadline_queue =
  fixes inv :: "'q \<Rightarrow> bool"
    and entries :: "'q \<Rightarrow> 'e multiset"
    and key :: "'e \<Rightarrow> int"
    and peek :: "'q \<Rightarrow> int option"
    and pop :: "'q \<Rightarrow> ('e \<times> 'q) option"
  assumes peek_None: "inv q \<Longrightarrow> peek q = None \<longleftrightarrow> entries q = {#}"
    and peek_least: "inv q \<Longrightarrow> peek q = Some d \<Longrightarrow> x \<in># entries q \<Longrightarrow> d \<le> key x"
    and pop_peek: "inv q \<Longrightarrow> peek q = map_option (key \<circ> fst) (pop q)"
    and pop_inv: "inv q \<Longrightarrow> pop q = Some (e, q') \<Longrightarrow> inv q'"
    and pop_entries: "inv q \<Longrightarrow> pop q = Some (e, q') \<Longrightarrow> entries q = add_mset e (entries q')"
begin

definition due :: "int \<Rightarrow> 'q \<Rightarrow> 'e multiset" where
  "due now q = filter_mset (\<lambda>e. key e \<le> now) (entries q)"

lemma due_none:
  assumes "inv q" "case peek q of None \<Rightarrow> True | Some d \<Rightarrow> now < d"
  shows "due now q = {#}"
proof -
  have "\<not> key x \<le> now" if "x \<in># entries q" for x
    using assms peek_None [OF assms(1)] peek_least [OF assms(1) _ that] that
    by (cases "peek q") auto
  then show ?thesis
    by (simp add: due_def multiset_eq_iff count_eq_zero_iff) blast
qed

lemma due_pop:
  assumes "inv q" "peek q = Some d" "d \<le> now" "pop q = Some (e, q')"
  shows "due now q = add_mset e (due now q')" and "key e = d"
  using pop_entries [OF assms(1,4)] pop_peek [OF assms(1)] assms by (auto simp: due_def)

lemma pop_ready:
  assumes "inv q" "peek q = Some d"
  obtains e q' where "pop q = Some (e, q')" "inv q'" "key e = d"
  using pop_peek [OF assms(1)] pop_inv [OF assms(1)] assms(2) by (cases "pop q") auto

end

interpretation tq: deadline_queue timer_wf timer_entries deadline_ns loom_timer_peek loom_timer_pop_due
proof unfold_locales
  fix p :: timer and d x
  assume wf: "timer_wf p"
  show "loom_timer_peek p = None \<longleftrightarrow> timer_entries p = {#}"
    using timer_len_entries [OF wf] by (auto simp: loom_timer_peek_def)
  show "d \<le> deadline_ns x" if "loom_timer_peek p = Some d" "x \<in># timer_entries p"
    using that wf heap_on_root [of "timer_heap p" "timer_len p"]
    by (auto simp: loom_timer_peek_def timer_wf_def timer_entries_def live_def in_set_conv_nth
             split: if_splits)
  show "loom_timer_peek p = map_option (deadline_ns \<circ> fst) (loom_timer_pop_due p)"
    by (simp add: loom_timer_peek_def loom_timer_pop_due_def Let_def)
next
  fix p p' :: timer and e
  assume "timer_wf p" "loom_timer_pop_due p = Some (e, p')"
  from timer_pop_ok [OF this]
  show "timer_wf p'" "timer_entries p = add_mset e (timer_entries p')" by auto
qed

subsection \<open>Properties\<close>

definition timer_sample :: "timer_entry list \<Rightarrow> timer" where
  "timer_sample es = foldl (\<lambda>p e. snd (loom_timer_push p e (Some e))) timer_empty es"

definition entry_at :: "int \<Rightarrow> u64 \<Rightarrow> u32 \<Rightarrow> timer_entry" where
  "entry_at d k w = \<lparr>deadline_ns = d, te_task_id = k, te_worker_idx = w, te_coro_ctx = 0, te_task = 0\<rparr>"

text \<open>
  C1.  \<open>loom_timer_push\<close> keeps the heap invariant; it returns true exactly when
  there was room or \<open>realloc\<close> gave room, and then the heap holds the old entries and the
  new one; when it returns false the timer is unchanged.
\<close>

theorem timer_push_correct:
  assumes "timer_wf p" and "loom_timer_push p e mem = (ok, p')"
  shows "timer_wf p' \<and> (ok \<longleftrightarrow> timer_len p < timer_cap p \<or> mem \<noteq> None) \<and>
         (if ok then timer_entries p' = add_mset e (timer_entries p) else p' = p)"
  using timer_push_ok [of p e mem p'] timer_push_result [of p e mem] assms
  by (auto simp: timer_wf_def)

theorem timer_push_correct_witness:
  "timer_wf (timer_sample [entry_at 5 1 0, entry_at 3 2 0, entry_at 4 3 0])"
proof -
  have "timer_wf (timer_sample [entry_at 5 1 0, entry_at 3 2 0])" by code_simp
  moreover have "loom_timer_push (timer_sample [entry_at 5 1 0, entry_at 3 2 0]) (entry_at 4 3 0)
      (Some (entry_at 4 3 0)) =
      (True, timer_sample [entry_at 5 1 0, entry_at 3 2 0, entry_at 4 3 0])"
    by code_simp
  ultimately show ?thesis using timer_push_correct by blast
qed

text \<open>
  C2.  \<open>loom_timer_pop_due\<close> on a non-empty heap returns an entry with the earliest
  deadline of all, removes exactly that entry, and keeps the heap invariant; on an empty
  heap it returns false.  \<open>loom_timer_peek\<close> announces the deadline of the entry it returns.
\<close>

theorem timer_pop_correct:
  assumes "timer_wf p"
  shows "case loom_timer_pop_due p of
           None \<Rightarrow> timer_entries p = {#} \<and> loom_timer_peek p = None
         | Some (e, p') \<Rightarrow>
             timer_wf p' \<and> timer_entries p = add_mset e (timer_entries p') \<and>
             loom_timer_peek p = Some (deadline_ns e) \<and>
             (\<forall>x. x \<in># timer_entries p \<longrightarrow> deadline_ns e \<le> deadline_ns x)"
  using assms timer_pop_ok [OF assms] tq.pop_peek [OF assms] tq.peek_None [OF assms]
  by (auto split: option.splits)

theorem timer_pop_correct_witness:
  "case loom_timer_pop_due (timer_sample [entry_at 5 1 0, entry_at 3 2 0]) of
     None \<Rightarrow> False
   | Some (e, p') \<Rightarrow> timer_wf p' \<and> loom_timer_peek p' = Some 5 \<and> te_task_id e = 2"
proof -
  have "timer_wf (timer_sample [entry_at 5 1 0, entry_at 3 2 0])" by code_simp
  from timer_pop_correct [OF this]
  have "case loom_timer_pop_due (timer_sample [entry_at 5 1 0, entry_at 3 2 0]) of
     None \<Rightarrow> True | Some (e, p') \<Rightarrow> timer_wf p'" by (auto split: option.splits)
  moreover have "case loom_timer_pop_due (timer_sample [entry_at 5 1 0, entry_at 3 2 0]) of
     None \<Rightarrow> False | Some (e, p') \<Rightarrow> loom_timer_peek p' = Some 5 \<and> te_task_id e = 2" by code_simp
  ultimately show ?thesis by (auto split: option.splits)
qed

text \<open>
  C3.  \<open>loom_timer_remove_by_task\<close> returns false exactly when no entry has the
  task id; otherwise it removes one entry with that id, keeps every other entry and keeps
  the heap invariant, whichever direction the replacement has to move.
\<close>

theorem timer_remove_correct:
  assumes "timer_wf p"
  shows "(loom_timer_remove_by_task p k = None \<longleftrightarrow> (\<forall>x. x \<in># timer_entries p \<longrightarrow> te_task_id x \<noteq> k)) \<and>
         (\<forall>e p'. loom_timer_remove_by_task p k = Some (e, p') \<longrightarrow>
            timer_wf p' \<and> te_task_id e = k \<and> timer_entries p = add_mset e (timer_entries p'))"
  using timer_remove_Some [OF assms] timer_remove_None [OF assms] by blast

theorem timer_remove_correct_witness:
  "\<exists>e p'. loom_timer_remove_by_task (timer_sample [entry_at 5 1 0, entry_at 3 2 0]) 1 = Some (e, p') \<and>
          timer_wf p' \<and> te_task_id e = 1"
proof -
  have wf: "timer_wf (timer_sample [entry_at 5 1 0, entry_at 3 2 0])" by code_simp
  have "loom_timer_remove_by_task (timer_sample [entry_at 5 1 0, entry_at 3 2 0]) 1 \<noteq> None"
    by code_simp
  with timer_remove_correct [OF wf, of 1] show ?thesis by auto
qed

end
