(* ===== verification/Timer_Thread.thy ===== *)
theory Timer_Thread
  imports Timer_Heap
begin

text \<open>
  The timer thread of \<^verbatim>\<open>src/src/thread_pool.c\<close>: the loop that moves due entries from the
  timer heap into the ready queue of the worker that owns the coroutine, the registration
  hook of a sleeping coroutine, and the lazy start of the thread.  Each definition is one
  critical section of \<open>timer_lock\<close>; the heap is used through the interface
  \<open>deadline_queue\<close> of \<open>Timer_Heap\<close>.
\<close>

record coro_ready =
  rn_coro :: addr
  rn_task_id :: u64
  rn_task :: addr

record timer_side =
  ts_timer :: timer
  ts_ready :: "coro_ready list list"
  ts_work_sem :: nat
  ts_timer_sem :: nat
  ts_alive :: bool
  ts_created :: bool







definition ensure_timer_thread :: "bool \<Rightarrow> timer_side \<Rightarrow> loom_result \<times> timer_side" where
  "ensure_timer_thread pthread_ok s =
     (if ts_created s then (LOOMWORKS_OK, s)
      else if \<not> pthread_ok then (LOOMWORKS_ERR_ALLOC, s\<lparr>ts_alive := False\<rparr>)
      else (LOOMWORKS_OK, s\<lparr>ts_alive := True, ts_created := True\<rparr>))"

text \<open>
  \<open>coro_sleep_reg_hook\<close> after its null check; \<open>True\<close> is \<open>LOOMWORKS_CORO_OK\<close>, \<open>False\<close> is
  \<open>LOOMWORKS_CORO_ERR_TIMER\<close>.
\<close>

definition coro_sleep_reg_hook ::
    "timer_side \<Rightarrow> addr \<Rightarrow> u32 \<Rightarrow> addr \<Rightarrow> u64 \<Rightarrow> int \<Rightarrow> timer_entry option \<Rightarrow> bool \<times> timer_side" where
  "coro_sleep_reg_hook s coro worker_idx task_node task_id deadline mem =
     (let e = \<lparr>deadline_ns = deadline, te_task_id = task_id, te_worker_idx = worker_idx,
               te_coro_ctx = coro, te_task = task_node\<rparr>
      in case loom_timer_push (ts_timer s) e mem of
           (inserted, t) \<Rightarrow>
             if \<not> inserted then (False, s\<lparr>ts_timer := t\<rparr>)
             else (True, s\<lparr>ts_timer := t, ts_timer_sem := ts_timer_sem s + 1\<rparr>))"

text \<open>How long the thread blocks before the next pass.\<close>

definition timer_wait_ns :: "timer \<Rightarrow> int \<Rightarrow> int" where
  "timer_wait_ns p now =
     (case loom_timer_peek p of
        Some deadline \<Rightarrow> if deadline > now then deadline - now else 1000000000
      | None \<Rightarrow> 1000000000)"

definition timer_should_exit :: "timer_side \<Rightarrow> bool" where
  "timer_should_exit s \<longleftrightarrow> \<not> ts_alive s \<and> timer_len (ts_timer s) = 0"

subsection \<open>One turn of the loop\<close>

definition side_wf :: "timer_side \<Rightarrow> bool" where
  "side_wf s \<longleftrightarrow> timer_wf (ts_timer s) \<and>
     (\<forall>e. e \<in># timer_entries (ts_timer s) \<longrightarrow> unat (te_worker_idx e) < length (ts_ready s))"




subsection \<open>The whole pass\<close>







lemma side_wf_code [code]:
  "side_wf s \<longleftrightarrow> timer_wf (ts_timer s) \<and>
     list_all (\<lambda>e. unat (te_worker_idx e) < length (ts_ready s)) (live (ts_timer s))"
  by (auto simp: side_wf_def timer_entries_def list_all_iff)


lemma sleep_hook_ok:
  assumes "side_wf s" "unat w < length (ts_ready s)"
    "coro_sleep_reg_hook s coro w node tid d mem = (ok, s')"
  shows "side_wf s' \<and> (ok \<longleftrightarrow> timer_len (ts_timer s) < timer_cap (ts_timer s) \<or> mem \<noteq> None) \<and>
    timer_entries (ts_timer s') = (if ok then add_mset
       \<lparr>deadline_ns = d, te_task_id = tid, te_worker_idx = w, te_coro_ctx = coro, te_task = node\<rparr>
       (timer_entries (ts_timer s)) else timer_entries (ts_timer s))"
proof -
  let ?e = "\<lparr>deadline_ns = d, te_task_id = tid, te_worker_idx = w, te_coro_ctx = coro, te_task = node\<rparr>"
  obtain ins t where t: "loom_timer_push (ts_timer s) ?e mem = (ins, t)"
    by (cases "loom_timer_push (ts_timer s) ?e mem")
  have wf: "timer_wf (ts_timer s)" using assms(1) by (simp add: side_wf_def)
  have "ins \<longleftrightarrow> timer_len (ts_timer s) < timer_cap (ts_timer s) \<or> mem \<noteq> None"
    using timer_push_result(1) [of "ts_timer s" ?e mem] t wf by (auto simp: timer_wf_def)
  then show ?thesis
    using assms t wf timer_push_ok [OF wf, of ?e mem t] timer_push_result(2) [of "ts_timer s" ?e mem]
    by (cases ins) (auto simp: coro_sleep_reg_hook_def Let_def side_wf_def)
qed

lemma timer_wait_positive:
  "timer_wf p \<Longrightarrow> 0 < timer_wait_ns p now \<and>
   (\<forall>e. e \<in># timer_entries p \<longrightarrow> now < deadline_ns e \<longrightarrow>
      tq.due now p = {#} \<longrightarrow> timer_wait_ns p now \<le> deadline_ns e - now)"
proof -
  assume wf: "timer_wf p"
  show ?thesis
  proof (cases "loom_timer_peek p")
    case None
    with tq.peek_None [OF wf] show ?thesis by (simp add: timer_wait_ns_def)
  next
    case (Some d)
    from tq.pop_ready [OF wf Some] obtain e t
      where "loom_timer_pop_due p = Some (e, t)" "deadline_ns e = d" by blast
    then have "tq.due now p \<noteq> {#}" if "d \<le> now" using tq.due_pop [OF wf Some that] by auto
    with Some tq.peek_least [OF wf Some] show ?thesis by (auto simp: timer_wait_ns_def)
  qed
qed

end
