(* ===== verification/Work_Deque.thy ===== *)
theory Work_Deque
  imports Loom_Prelude
begin

text \<open>
  The per-worker work-stealing deque of \<^verbatim>\<open>src/src/thread_pool.c\<close>.  The owner pushes and pops
  at the bottom, thieves take from the top.  Every call site of the pool holds \<open>pool->lock\<close>,
  so the compare-and-swap on \<open>top\<close> meets no interference and each operation is one step.
  \<open>size_t\<close> indices stay 64-bit words; \<open>deque_total\<close> is the pool's counter of resident tasks.
\<close>

record work_deque =
  dq_bottom :: u64
  dq_top :: u64
  dq_slots :: "addr list"
  dq_capacity :: u64
  dq_mask :: u64
  dq_len :: u64

definition deque_push :: "u64 \<Rightarrow> work_deque \<Rightarrow> addr \<Rightarrow> bool \<times> u64 \<times> work_deque" where
  "deque_push deque_total d task =
     (let b = dq_bottom d; t = dq_top d in
      if b - t \<ge> dq_capacity d then (False, deque_total, d)
      else
        (True, deque_total + 1,
         d\<lparr>dq_slots := (dq_slots d)[unat (b AND dq_mask d) := task],
           dq_bottom := b + 1, dq_len := dq_len d + 1\<rparr>))"

definition deque_pop :: "u64 \<Rightarrow> work_deque \<Rightarrow> addr option \<times> u64 \<times> work_deque" where
  "deque_pop deque_total d =
     (let b = dq_bottom d in
      if b = 0 then (None, deque_total, d)
      else
        (let t = dq_top d in
         if b - 1 > t then
           (let b = b - 1; d = d\<lparr>dq_bottom := b\<rparr>;
                task = dq_slots d ! unat (b AND dq_mask d)
            in (Some task, deque_total - 1, d\<lparr>dq_len := dq_len d - 1\<rparr>))
         else
           (let b = b - 1; d = d\<lparr>dq_bottom := b\<rparr>; t = dq_top d in
            if b < t then (None, deque_total, d\<lparr>dq_bottom := t\<rparr>)
            else
              (let task = dq_slots d ! unat (b AND dq_mask d) in
               if b > t then (Some task, deque_total - 1, d\<lparr>dq_len := dq_len d - 1\<rparr>)
               else if dq_top d = t then
                 (Some task, deque_total - 1,
                  d\<lparr>dq_top := t + 1, dq_bottom := t + 1, dq_len := dq_len d - 1\<rparr>)
               else (None, deque_total, d\<lparr>dq_bottom := dq_top d\<rparr>)))))"

definition deque_steal :: "u64 \<Rightarrow> work_deque \<Rightarrow> addr option \<times> u64 \<times> work_deque" where
  "deque_steal deque_total d =
     (let t = dq_top d; b = dq_bottom d in
      if t \<ge> b then (None, deque_total, d)
      else
        (let task = dq_slots d ! unat (t AND dq_mask d) in
         if dq_top d = t then (Some task, deque_total - 1, d\<lparr>dq_top := t + 1, dq_len := dq_len d - 1\<rparr>)
         else (None, deque_total, d)))"

subsection \<open>Representation\<close>

text \<open>The tasks of the deque, oldest first.\<close>

definition deque_list :: "work_deque \<Rightarrow> addr list" where
  "deque_list d =
     map (\<lambda>i. dq_slots d ! (i mod length (dq_slots d))) [unat (dq_top d)..<unat (dq_bottom d)]"

definition deque_wf :: "work_deque \<Rightarrow> bool" where
  "deque_wf d \<longleftrightarrow>
     (\<exists>k<64. dq_capacity d = 2 ^ k \<and> length (dq_slots d) = 2 ^ k) \<and>
     dq_mask d = dq_capacity d - 1 \<and>
     unat (dq_top d) \<le> unat (dq_bottom d) \<and>
     unat (dq_bottom d) - unat (dq_top d) \<le> length (dq_slots d) \<and>
     unat (dq_len d) = unat (dq_bottom d) - unat (dq_top d)"

definition deque_new :: "nat \<Rightarrow> work_deque" where
  "deque_new k = \<lparr>dq_bottom = 0, dq_top = 0, dq_slots = replicate (2 ^ k) 0,
                  dq_capacity = 2 ^ k, dq_mask = 2 ^ k - 1, dq_len = 0\<rparr>"

lemma deque_new_wf: "k < 64 \<Longrightarrow> deque_wf (deque_new k) \<and> deque_list (deque_new k) = []"
  by (auto simp: deque_wf_def deque_new_def deque_list_def)

lemma deque_wf_cap: "deque_wf d \<Longrightarrow> unat (dq_capacity d) = length (dq_slots d)"
  by (auto simp: deque_wf_def unat_pow2)

lemma deque_wf_index:
  "deque_wf d \<Longrightarrow> unat (x AND dq_mask d) = unat x mod length (dq_slots d)"
  by (auto simp: deque_wf_def pow2_mask)

lemma deque_list_length: "deque_wf d \<Longrightarrow> length (deque_list d) = unat (dq_len d)"
  by (simp add: deque_wf_def deque_list_def)

lemma deque_wf_count: "deque_wf d \<Longrightarrow> length (deque_list d) \<le> unat (dq_capacity d)"
  using deque_wf_cap [of d] by (simp add: deque_wf_def deque_list_def)

lemma deque_list_push:
  assumes "t \<le> b" "b - t < length s"
  shows "map (\<lambda>i. s[b mod length s := x] ! (i mod length s)) [t..<Suc b] =
         map (\<lambda>i. s ! (i mod length s)) [t..<b] @ [x]"
proof -
  have "s[b mod length s := x] ! (i mod length s) = s ! (i mod length s)" if "t \<le> i" "i < b" for i
  proof -
    have "b < i + length s" using that assms(2) by linarith
    then show ?thesis using mod_window [of i b "length s"] that by auto
  qed
  moreover have "b mod length s < length s" using assms by (intro mod_less_divisor) linarith
  ultimately show ?thesis using assms(1) by simp
qed

lemma deque_push_spec:
  assumes "deque_wf d" "dq_bottom d \<noteq> - 1"
  shows "if length (deque_list d) = unat (dq_capacity d) then deque_push n d x = (False, n, d)
         else \<exists>d'. deque_push n d x = (True, n + 1, d') \<and> deque_wf d' \<and>
                deque_list d' = deque_list d @ [x] \<and> dq_capacity d' = dq_capacity d"
proof -
  let ?b = "unat (dq_bottom d)" and ?t = "unat (dq_top d)" and ?n = "length (dq_slots d)"
  have wf: "?t \<le> ?b" "?b - ?t \<le> ?n" "unat (dq_len d) = ?b - ?t" "unat (dq_capacity d) = ?n"
    using assms(1) deque_wf_cap [OF assms(1)] by (auto simp: deque_wf_def)
  have full: "dq_capacity d \<le> dq_bottom d - dq_top d \<longleftrightarrow> ?n \<le> ?b - ?t"
    using wf by (simp add: word_le_nat_alt unat_sub)
  have len: "length (deque_list d) = ?b - ?t" by (simp add: deque_list_def)
  show ?thesis
  proof (cases "?b - ?t = ?n")
    case True
    with full len wf show ?thesis by (simp add: deque_push_def)
  next
    case False
    have "?b - ?t < 2 ^ 64 - 1"
      using False wf unat_u64_less [of "dq_capacity d"] by simp
    then have l: "unat (dq_len d + 1) = Suc (?b - ?t)"
      using wf by (subst unat_u64_Suc) (auto simp: unat_u64_max)
    show ?thesis
      using False full len wf assms deque_wf_index [OF assms(1), of "dq_bottom d"]
        deque_list_push [of ?t ?b "dq_slots d" x] l
      by (auto simp: deque_push_def deque_wf_def deque_list_def unat_u64_Suc Let_def simp del: upt_Suc)
  qed
qed

lemma deque_pop_spec:
  assumes "deque_wf d"
  shows "if deque_list d = [] then deque_pop n d = (None, n, d)
         else \<exists>d'. deque_pop n d = (Some (last (deque_list d)), n - 1, d') \<and> deque_wf d' \<and>
                deque_list d' = butlast (deque_list d) \<and> dq_capacity d' = dq_capacity d"
proof -
  let ?b = "unat (dq_bottom d)" and ?t = "unat (dq_top d)"
  have wf: "?t \<le> ?b" "unat (dq_len d) = ?b - ?t" using assms by (auto simp: deque_wf_def)
  show ?thesis
  proof (cases "?b = ?t")
    case True
    then have "dq_bottom d = dq_top d" by (simp add: unat_u64_eq)
    moreover from this have "dq_bottom d - 1 < dq_top d" if "dq_bottom d \<noteq> 0"
      using that unat_u64_pred [of "dq_bottom d"] by (simp add: word_less_nat_alt unat_gt_0)
    ultimately show ?thesis
      by (auto simp: deque_pop_def deque_list_def Let_def dest: less_asym)
  next
    case False
    then have ne: "dq_bottom d \<noteq> 0" "dq_len d \<noteq> 0" and lt: "?t < ?b" using wf by auto
    have p: "unat (dq_bottom d - 1) = ?b - 1" "unat (dq_len d - 1) = ?b - ?t - 1"
      using ne wf by (simp_all add: unat_u64_pred)
    have ls: "deque_list d = map (\<lambda>i. dq_slots d ! (i mod length (dq_slots d))) [?t..<?b - 1]
        @ [dq_slots d ! ((?b - 1) mod length (dq_slots d))]"
      using lt by (cases ?b) (simp_all add: deque_list_def)
    have last: "dq_slots d ! unat ((dq_bottom d - 1) AND dq_mask d) = last (deque_list d)"
      by (simp add: deque_wf_index [OF assms] p ls)
    show ?thesis
    proof (cases "dq_top d < dq_bottom d - 1")
      case True
      with ne p last ls wf assms show ?thesis
        by (auto simp: deque_pop_def deque_wf_def deque_list_def Let_def word_less_nat_alt)
    next
      case False
      then have eq: "dq_bottom d - 1 = dq_top d"
        using lt p by (simp add: word_less_nat_alt unat_u64_eq)
      then have "dq_bottom d = dq_top d + 1" by (simp add: diff_eq_eq)
      with ne eq p last ls wf assms show ?thesis
        by (auto simp: deque_pop_def deque_wf_def deque_list_def Let_def)
    qed
  qed
qed

lemma deque_steal_spec:
  assumes "deque_wf d"
  shows "if deque_list d = [] then deque_steal n d = (None, n, d)
         else \<exists>d'. deque_steal n d = (Some (hd (deque_list d)), n - 1, d') \<and> deque_wf d' \<and>
                deque_list d' = tl (deque_list d) \<and> dq_capacity d' = dq_capacity d"
proof -
  let ?b = "unat (dq_bottom d)" and ?t = "unat (dq_top d)"
  have wf: "?t \<le> ?b" "unat (dq_len d) = ?b - ?t" using assms by (auto simp: deque_wf_def)
  show ?thesis
  proof (cases "?b = ?t")
    case True
    then show ?thesis by (simp add: deque_steal_def deque_list_def word_le_nat_alt)
  next
    case False
    then have lt: "?t < ?b" and ne: "dq_len d \<noteq> 0" using wf by auto
    then have "dq_top d \<noteq> - 1"
      using unat_u64_less [of "dq_bottom d"] by (auto simp: unat_u64_max)
    then have p: "unat (dq_top d + 1) = Suc ?t" "unat (dq_len d - 1) = ?b - ?t - 1"
      using ne wf by (simp_all add: unat_u64_Suc unat_u64_pred)
    have ls: "deque_list d = dq_slots d ! (?t mod length (dq_slots d)) #
        map (\<lambda>i. dq_slots d ! (i mod length (dq_slots d))) [Suc ?t..<?b]"
      using lt by (simp add: deque_list_def upt_conv_Cons)
    then have hd: "dq_slots d ! unat (dq_top d AND dq_mask d) = hd (deque_list d)"
      by (simp add: deque_wf_index [OF assms])
    show ?thesis
      using lt p hd ls wf assms
      by (auto simp: deque_steal_def deque_wf_def deque_list_def Let_def word_le_nat_alt)
  qed
qed

interpretation pop_src: task_source "\<lambda>(n, d). deque_wf d" "\<lambda>(n, d). rev (deque_list d)"
  "\<lambda>(n, d). deque_pop n d"
proof unfold_locales
  fix s :: "u64 \<times> work_deque" and x xs
  assume wf: "case s of (n, d) \<Rightarrow> deque_wf d"
  obtain n d where s: "s = (n, d)" by (cases s)
  note spec = deque_pop_spec [of d n]
  show "case snd (case s of (n, d) \<Rightarrow> deque_pop n d) of (n, d) \<Rightarrow> deque_wf d"
    using spec wf by (auto simp: s split: if_splits)
  show "fst (case s of (n, d) \<Rightarrow> deque_pop n d) = None \<and>
      (case snd (case s of (n, d) \<Rightarrow> deque_pop n d) of (n, d) \<Rightarrow> rev (deque_list d)) = []"
    if "(case s of (n, d) \<Rightarrow> rev (deque_list d)) = []"
    using spec wf that by (auto simp: s)
  show "fst (case s of (n, d) \<Rightarrow> deque_pop n d) = Some x \<and>
      (case snd (case s of (n, d) \<Rightarrow> deque_pop n d) of (n, d) \<Rightarrow> rev (deque_list d)) = xs"
    if "(case s of (n, d) \<Rightarrow> rev (deque_list d)) = x # xs"
    using spec wf that by (auto simp: s rev_eq_Cons_iff)
qed

interpretation steal_src: task_source "\<lambda>(n, d). deque_wf d" "\<lambda>(n, d). deque_list d"
  "\<lambda>(n, d). deque_steal n d"
proof unfold_locales
  fix s :: "u64 \<times> work_deque" and x xs
  assume wf: "case s of (n, d) \<Rightarrow> deque_wf d"
  obtain n d where s: "s = (n, d)" by (cases s)
  note spec = deque_steal_spec [of d n]
  show "case snd (case s of (n, d) \<Rightarrow> deque_steal n d) of (n, d) \<Rightarrow> deque_wf d"
    using spec wf by (auto simp: s split: if_splits)
  show "fst (case s of (n, d) \<Rightarrow> deque_steal n d) = None \<and>
      (case snd (case s of (n, d) \<Rightarrow> deque_steal n d) of (n, d) \<Rightarrow> deque_list d) = []"
    if "(case s of (n, d) \<Rightarrow> deque_list d) = []"
    using spec wf that by (auto simp: s)
  show "fst (case s of (n, d) \<Rightarrow> deque_steal n d) = Some x \<and>
      (case snd (case s of (n, d) \<Rightarrow> deque_steal n d) of (n, d) \<Rightarrow> deque_list d) = xs"
    if "(case s of (n, d) \<Rightarrow> deque_list d) = x # xs"
    using spec wf that by (auto simp: s)
qed

subsection \<open>Refinement of a bounded list\<close>

datatype deque_op = Push addr | Pop | Steal
datatype deque_res = Pushed bool | Took "addr option"

fun deque_step :: "u64 \<times> work_deque \<Rightarrow> deque_op \<Rightarrow> deque_res \<times> u64 \<times> work_deque" where
  "deque_step (n, d) (Push x) = apfst Pushed (deque_push n d x)"
| "deque_step (n, d) Pop = apfst Took (deque_pop n d)"
| "deque_step (n, d) Steal = apfst Took (deque_steal n d)"

fun run_deque :: "u64 \<times> work_deque \<Rightarrow> deque_op list \<Rightarrow> deque_res list \<times> u64 \<times> work_deque" where
  "run_deque s [] = ([], s)"
| "run_deque s (op # ops) = (case deque_step s op of (r, s') \<Rightarrow> apfst (Cons r) (run_deque s' ops))"

text \<open>The specification: a list of at most \<open>cap\<close> tasks, oldest first.\<close>

fun list_step :: "nat \<Rightarrow> addr list \<Rightarrow> deque_op \<Rightarrow> deque_res \<times> addr list" where
  "list_step cap xs (Push x) = (if length xs = cap then (Pushed False, xs) else (Pushed True, xs @ [x]))"
| "list_step cap xs Pop = (if xs = [] then (Took None, xs) else (Took (Some (last xs)), butlast xs))"
| "list_step cap xs Steal = (if xs = [] then (Took None, xs) else (Took (Some (hd xs)), tl xs))"

fun run_list :: "nat \<Rightarrow> addr list \<Rightarrow> deque_op list \<Rightarrow> deque_res list \<times> addr list" where
  "run_list cap xs [] = ([], xs)"
| "run_list cap xs (op # ops) =
     (case list_step cap xs op of (r, xs') \<Rightarrow> apfst (Cons r) (run_list cap xs' ops))"

lemma deque_bottom_bound:
  "unat (dq_bottom (snd (snd (deque_push n d x)))) \<le> Suc (unat (dq_bottom d))"
  "deque_wf d \<Longrightarrow> unat (dq_bottom (snd (snd (deque_pop n d)))) \<le> unat (dq_bottom d)"
  "unat (dq_bottom (snd (snd (deque_steal n d)))) \<le> unat (dq_bottom d)"
proof -
  show "unat (dq_bottom (snd (snd (deque_push n d x)))) \<le> Suc (unat (dq_bottom d))"
    by (cases "dq_bottom d = - 1") (auto simp: deque_push_def Let_def unat_u64_Suc)
  show "unat (dq_bottom (snd (snd (deque_steal n d)))) \<le> unat (dq_bottom d)"
    by (auto simp: deque_steal_def Let_def)
  assume wf: "deque_wf d"
  have le: "unat (dq_top d) \<le> unat (dq_bottom d)" using wf by (simp add: deque_wf_def)
  have "unat (dq_top d + 1) \<le> unat (dq_bottom d)"
    if "dq_bottom d \<noteq> 0" "\<not> dq_bottom d - 1 < dq_top d"
  proof -
    have "0 < unat (dq_bottom d)" using that(1) by (simp add: unat_gt_0)
    then show ?thesis using that le unat_u64_pred [of "dq_bottom d"] unat_u64_less [of "dq_bottom d"]
    by (cases "dq_top d = - 1") (auto simp: word_less_nat_alt unat_u64_Suc unat_u64_max)
  qed
  then show "unat (dq_bottom (snd (snd (deque_pop n d)))) \<le> unat (dq_bottom d)"
    using le by (auto simp: deque_pop_def Let_def unat_u64_pred)
qed

lemma len_pred: "xs \<noteq> [] \<Longrightarrow> (of_nat (length xs - Suc 0) :: u64) = of_nat (length xs) - 1"
  by (cases xs) auto

lemma deque_step_sim:
  assumes "deque_wf d" "dq_bottom d \<noteq> - 1"
  shows "\<exists>n' d'.
    deque_step (n, d) op = (fst (list_step (unat (dq_capacity d)) (deque_list d) op), n', d') \<and>
    deque_wf d' \<and> deque_list d' = snd (list_step (unat (dq_capacity d)) (deque_list d) op) \<and>
    dq_capacity d' = dq_capacity d \<and> unat (dq_bottom d') \<le> Suc (unat (dq_bottom d)) \<and>
    n' - of_nat (length (deque_list d')) = n - of_nat (length (deque_list d))"
proof (cases op)
  case (Push x)
  note spec = deque_push_spec [OF assms, of n x] deque_bottom_bound(1) [of n d x]
  show ?thesis
  proof (cases "length (deque_list d) = unat (dq_capacity d)")
    case False
    with spec obtain d' where "deque_push n d x = (True, n + 1, d')" "deque_wf d'"
      "deque_list d' = deque_list d @ [x]" "dq_capacity d' = dq_capacity d" by auto
    with Push False spec(2) show ?thesis by simp
  qed (use Push spec(1) assms(1) in simp)
next
  case Pop
  note spec = deque_pop_spec [OF assms(1), of n] deque_bottom_bound(2) [OF assms(1), of n]
  show ?thesis
  proof (cases "deque_list d = []")
    case False
    with spec obtain d' where "deque_pop n d = (Some (last (deque_list d)), n - 1, d')" "deque_wf d'"
      "deque_list d' = butlast (deque_list d)" "dq_capacity d' = dq_capacity d" by auto
    with Pop False spec(2) show ?thesis by (simp add: len_pred)
  qed (use Pop spec(1) assms(1) in simp)
next
  case Steal
  note spec = deque_steal_spec [OF assms(1), of n] deque_bottom_bound(3) [of n d]
  show ?thesis
  proof (cases "deque_list d = []")
    case False
    with spec obtain d' where "deque_steal n d = (Some (hd (deque_list d)), n - 1, d')" "deque_wf d'"
      "deque_list d' = tl (deque_list d)" "dq_capacity d' = dq_capacity d" by auto
    with Steal False spec(2) show ?thesis by (simp add: len_pred)
  qed (use Steal spec(1) assms(1) in simp)
qed

lemma run_deque_refines:
  assumes "deque_wf d" "unat (dq_bottom d) + length ops < 2 ^ 64 - 1"
    "run_list (unat (dq_capacity d)) (deque_list d) ops = (rs, xs)"
  shows "\<exists>n' d'. run_deque (n, d) ops = (rs, n', d') \<and> deque_wf d' \<and> deque_list d' = xs \<and>
           n' - of_nat (length xs) = n - of_nat (length (deque_list d))"
  using assms
proof (induction ops arbitrary: n d rs)
  case (Cons op ops)
  have room: "dq_bottom d \<noteq> - 1" using Cons.prems(2) by (auto simp: unat_u64_max)
  obtain n1 d1 where step:
    "deque_step (n, d) op = (fst (list_step (unat (dq_capacity d)) (deque_list d) op), n1, d1)"
    "deque_wf d1" "deque_list d1 = snd (list_step (unat (dq_capacity d)) (deque_list d) op)"
    "dq_capacity d1 = dq_capacity d" "unat (dq_bottom d1) \<le> Suc (unat (dq_bottom d))"
    "n1 - of_nat (length (deque_list d1)) = n - of_nat (length (deque_list d))"
    using deque_step_sim [OF Cons.prems(1) room] by blast
  obtain rs1 where rs1: "run_list (unat (dq_capacity d1)) (deque_list d1) ops = (rs1, xs)"
    "rs = fst (list_step (unat (dq_capacity d)) (deque_list d) op) # rs1"
    using Cons.prems(3) step(3,4) by (auto simp: split_beta prod_eq_iff)
  have "unat (dq_bottom d1) + length ops < 2 ^ 64 - 1" using Cons.prems(2) step(5) by simp
  from Cons.IH [OF step(2) this rs1(1), of n1] step(1,6) rs1(2) show ?case by auto
qed simp

text \<open>
  C5.  From an empty deque of capacity \<open>2\<^sup>k\<close>, any sequence of pushes, pops and steals
  (short of \<open>2\<^sup>6\<^sup>4\<close> of them) returns exactly what a bounded list gives: pushes append and fail
  only when full, pops take the newest task, steals the oldest, no task is lost or
  returned twice, and \<open>deque_total\<close> moves with the number of resident tasks.
\<close>

theorem deque_refines_list:
  assumes "k < 64" and "length ops < 2 ^ 64 - 1"
  shows "\<exists>n' d'. run_deque (n, deque_new k) ops = (fst (run_list (2 ^ k) [] ops), n', d') \<and>
           deque_wf d' \<and> deque_list d' = snd (run_list (2 ^ k) [] ops) \<and>
           n' = n + of_nat (length (snd (run_list (2 ^ k) [] ops)))"
  using run_deque_refines [of "deque_new k" ops "fst (run_list (2 ^ k) [] ops)"
      "snd (run_list (2 ^ k) [] ops)" n] deque_new_wf [OF assms(1)] assms
  by (auto simp: deque_new_def unat_pow2 algebra_simps)

theorem deque_refines_list_witness:
  "fst (run_deque (0, deque_new 1) [Push 7, Push 8, Push 9, Steal, Push 9, Pop, Pop, Pop]) =
     [Pushed True, Pushed True, Pushed False, Took (Some 7), Pushed True, Took (Some 9),
      Took (Some 8), Took None]"
  using deque_refines_list [of 1 "[Push 7, Push 8, Push 9, Steal, Push 9, Pop, Pop, Pop]" 0]
  by auto

end
