(* ===== verification/Task_Node.thy ===== *)
theory Task_Node
  imports Loom_Prelude
begin

text \<open>
  The task node \<open>loom_task_t\<close> of \<^verbatim>\<open>src/src/thread_pool_internal.h\<close>, the store that holds the
  nodes by address, and the two bit tricks of \<^verbatim>\<open>src/src/thread_pool.c\<close> that size and key
  the tables of the pool: \<open>next_pow2_u64\<close> and \<open>hash_ptr\<close>.  Opaque pointers the library only
  passes on or compares are 64-bit words, \<open>0\<close> being the null pointer.
\<close>

record loom_task =
  tk_fn :: u64
  tk_user_data :: u64
  tk_cancelled :: bool
  tk_task_id :: u64
  tk_priority :: u8
  tk_next :: ptr
  tk_free_data :: bool
  tk_is_future :: bool
  tk_is_coro :: bool
  tk_coro_fn :: u64
  tk_stack_size :: u64
  tk_completion :: ptr

type_synonym store = "addr \<Rightarrow> loom_task"

text \<open>The code address of \<open>future_task_wrapper\<close>, the only one task creation compares with.\<close>

definition future_task_wrapper_fn :: u64 where
  "future_task_wrapper_fn = 1"

text \<open>A node as \<open>task_create\<close> fills it.\<close>

definition task_init :: "u64 \<Rightarrow> u64 \<Rightarrow> u64 \<Rightarrow> u8 \<Rightarrow> loom_task" where
  "task_init tid fn data priority =
     \<lparr>tk_fn = fn, tk_user_data = data, tk_cancelled = False, tk_task_id = tid, tk_priority = priority,
      tk_next = None, tk_free_data = False, tk_is_future = (fn = future_task_wrapper_fn), tk_is_coro = False,
      tk_coro_fn = 0, tk_stack_size = 0, tk_completion = None\<rparr>"

definition hash_ptr :: "u64 \<Rightarrow> u64" where
  "hash_ptr p =
     (let x = p;
          x = x XOR drop_bit 16 x;
          x = x * 0x85ebca6b;
          x = x XOR drop_bit 13 x;
          x = x * 0xc2b2ae35;
          x = x XOR drop_bit 16 x
      in x)"

definition next_pow2_u64 :: "u32 \<Rightarrow> u64" where
  "next_pow2_u64 v =
     (let n = ucast v :: u64;
          n = n OR drop_bit 1 n;
          n = n OR drop_bit 2 n;
          n = n OR drop_bit 4 n;
          n = n OR drop_bit 8 n;
          n = n OR drop_bit 16 n;
          n = n OR drop_bit 32 n
      in n + 1)"

subsection \<open>Smearing the highest bit\<close>

definition smeared :: "u64 \<Rightarrow> nat \<Rightarrow> u64 \<Rightarrow> bool" where
  "smeared x w n \<longleftrightarrow> (\<forall>i. bit n i \<longleftrightarrow> (\<exists>j. i \<le> j \<and> j < i + w \<and> bit x j))"

lemma smeared_self: "smeared x 1 x"
proof -
  have "(i \<le> j \<and> j < i + 1 \<and> bit x j) = (j = i \<and> bit x i)" for i j :: nat
    by (cases "j = i") auto
  then show ?thesis unfolding smeared_def by simp
qed

lemma smeared_double:
  assumes "smeared x w n"
  shows "smeared x (2 * w) (n OR drop_bit w n)"
proof -
  have "bit (n OR drop_bit w n) i \<longleftrightarrow> (\<exists>j. i \<le> j \<and> j < i + 2 * w \<and> bit x j)" for i
  proof -
    have "bit (n OR drop_bit w n) i \<longleftrightarrow> bit n i \<or> bit n (w + i)"
      by (simp add: bit_or_iff bit_drop_bit_eq)
    also have "\<dots> \<longleftrightarrow> (\<exists>j. i \<le> j \<and> j < i + w \<and> bit x j) \<or> (\<exists>j. w + i \<le> j \<and> j < w + i + w \<and> bit x j)"
      using assms by (simp add: smeared_def)
    also have "\<dots> \<longleftrightarrow> (\<exists>j. (i \<le> j \<and> j < i + w \<or> w + i \<le> j \<and> j < w + i + w) \<and> bit x j)"
      by blast
    also have "\<dots> \<longleftrightarrow> (\<exists>j. i \<le> j \<and> j < i + 2 * w \<and> bit x j)"
    proof -
      have "(i \<le> j \<and> j < i + w \<or> w + i \<le> j \<and> j < w + i + w) = (i \<le> j \<and> j < i + 2 * w)" for j
        by linarith
      then show ?thesis by (simp add: conj_assoc [symmetric] del: conj_assoc)
    qed
    finally show ?thesis .
  qed
  then show ?thesis by (simp add: smeared_def)
qed

lemma smeared_all:
  assumes "smeared x 64 n" "x \<noteq> 0"
  shows "\<exists>m<64. bit x m \<and> (\<forall>j>m. \<not> bit x j) \<and> n = mask (Suc m)"
proof -
  let ?B = "{j. bit x j}"
  have sub: "?B \<subseteq> {..<64}" using bit_imp_le_length [of x] by auto
  then have fin: "finite ?B" by (rule finite_subset) simp
  have "?B \<noteq> {}" using assms(2) by (auto simp: bit_eq_iff)
  define m where "m = Max ?B"
  have m: "bit x m" "m < 64"
    using Max_in [OF fin \<open>?B \<noteq> {}\<close>] sub by (auto simp: m_def)
  have above: "\<not> bit x j" if "m < j" for j
  proof
    assume "bit x j"
    then have "j \<le> m" unfolding m_def using fin by (intro Max_ge) simp_all
    with that show False by simp
  qed
  have "bit n i \<longleftrightarrow> i < Suc m" for i
  proof -
    have "bit n i \<longleftrightarrow> (\<exists>j. i \<le> j \<and> j < i + 64 \<and> bit x j)" using assms(1) by (simp add: smeared_def)
    also have "\<dots> \<longleftrightarrow> i \<le> m"
    proof
      assume "\<exists>j. i \<le> j \<and> j < i + 64 \<and> bit x j"
      then obtain j where j: "i \<le> j" "bit x j" by blast
      with above [of j] show "i \<le> m" by (meson le_trans not_le)
    next
      assume "i \<le> m"
      with m show "\<exists>j. i \<le> j \<and> j < i + 64 \<and> bit x j" by (intro exI [of _ m]) simp
    qed
    finally show ?thesis by (simp add: less_Suc_eq_le)
  qed
  then have "n = mask (Suc m)"
    using m(2) by (auto simp: bit_eq_iff bit_mask_iff)
  with m above show ?thesis by blast
qed

lemma u64_top_bit:
  fixes x :: u64
  assumes "bit x m" "\<And>j. m < j \<Longrightarrow> \<not> bit x j" "m < 64"
  shows "2 ^ m \<le> unat x \<and> unat x < 2 ^ Suc m"
proof -
  have "take_bit (Suc m) x = x"
    using assms(2) by (auto simp: bit_eq_iff bit_take_bit_iff less_Suc_eq_le) (meson not_le)
  then have "unat x = take_bit (Suc m) (unat x)" by (metis unsigned_take_bit_eq)
  then have "unat x < 2 ^ Suc m" by (metis take_bit_nat_less_exp)
  moreover have "2 ^ m \<le> unat x"
  proof -
    have "bit (unat x) m" using assms(1,3) by (simp add: bit_unsigned_iff)
    then have "\<not> take_bit m (unat x) = unat x" by (metis bit_take_bit_iff less_irrefl)
    then show ?thesis by (simp add: take_bit_nat_eq_self_iff not_less)
  qed
  ultimately show ?thesis by blast
qed

lemma next_pow2_smeared:
  "\<exists>n. smeared (ucast v) 64 n \<and> next_pow2_u64 v = n + 1"
proof -
  define x :: u64 where "x = ucast v"
  define n1 where "n1 = x OR drop_bit 1 x"
  define n2 where "n2 = n1 OR drop_bit 2 n1"
  define n3 where "n3 = n2 OR drop_bit 4 n2"
  define n4 where "n4 = n3 OR drop_bit 8 n3"
  define n5 where "n5 = n4 OR drop_bit 16 n4"
  define n6 where "n6 = n5 OR drop_bit 32 n5"
  have "smeared x (2 * 1) n1" unfolding n1_def by (intro smeared_double smeared_self)
  then have "smeared x (2 * 2) n2" unfolding n2_def by (intro smeared_double) simp
  then have "smeared x (2 * 4) n3" unfolding n3_def by (intro smeared_double) simp
  then have "smeared x (2 * 8) n4" unfolding n4_def by (intro smeared_double) simp
  then have "smeared x (2 * 16) n5" unfolding n5_def by (intro smeared_double) simp
  then have "smeared x (2 * 32) n6" unfolding n6_def by (intro smeared_double) simp
  moreover have "next_pow2_u64 v = n6 + 1"
    unfolding next_pow2_u64_def Let_def n6_def n5_def n4_def n3_def n2_def n1_def x_def ..
  ultimately show ?thesis unfolding x_def by auto
qed

lemma next_pow2_bounds:
  "\<exists>k\<le>32. next_pow2_u64 v = 2 ^ k \<and> unat v < 2 ^ k \<and> 2 ^ k \<le> max 1 (2 * unat v)"
proof (cases "v = 0")
  case True
  then show ?thesis by (intro exI [of _ 0]) (simp add: next_pow2_u64_def)
next
  case False
  let ?x = "ucast v :: u64"
  have v32: "unat v < 2 ^ 32" by (rule unat_u32_less)
  then have "unat v < 2 ^ 64" by simp
  then have ux: "unat ?x = unat v"
    by (simp add: unsigned_ucast_eq take_bit_nat_eq_self)
  have nz: "?x \<noteq> 0" using False ux by (metis unat_0 word_unat_eq_iff)
  obtain n where n: "smeared ?x 64 n" "next_pow2_u64 v = n + 1" using next_pow2_smeared by blast
  obtain m where m: "m < 64" "bit ?x m" "\<And>j. m < j \<Longrightarrow> \<not> bit ?x j" "n = mask (Suc m)"
    using smeared_all [OF n(1) nz] by blast
  have b: "2 ^ m \<le> unat v" "unat v < 2 ^ Suc m"
    using u64_top_bit [OF m(2,3,1)] ux by simp_all
  have "(2::nat) ^ m < 2 ^ 32" using b(1) v32 by (rule le_less_trans)
  then have "m < 32" by (simp only: power_strict_increasing_iff)
  moreover have "next_pow2_u64 v = 2 ^ Suc m"
    using n(2) m(4) by (simp add: mask_eq_exp_minus_1)
  ultimately show ?thesis using b by (intro exI [of _ "Suc m"]) auto
qed

text \<open>
  C6.  \<open>next_pow2_u64 v\<close> is a power of two, strictly greater than \<open>v\<close> and at most
  twice \<open>v\<close> (one for \<open>v = 0\<close>): for a \<open>v\<close> that is already a power of two it is \<open>2 v\<close>, not
  the smallest power of two that is at least \<open>v\<close>.
\<close>

theorem next_pow2_correct:
  "\<exists>k\<le>32. next_pow2_u64 v = 2 ^ k \<and> unat v < 2 ^ k \<and> 2 ^ k \<le> max 1 (2 * unat v)"
  by (rule next_pow2_bounds)

end
