(* ===== verification/Cancel_Index.thy ===== *)
theory Cancel_Index
  imports Task_Node
begin

text \<open>
  The cancel index of \<^verbatim>\<open>src/src/thread_pool.c\<close>: an open-addressing table from task ids to task
  nodes, probed linearly, with tombstones.  A key of \<open>0\<close> is an empty slot, \<open>1\<close> a tombstone,
  \<open>id + 1\<close> an occupied slot.  The four operations share one bounded probe loop and differ
  in the key they stop at, which is the first argument of \<open>cancel_probe\<close>.  A missing
  table is the empty list with capacity \<open>0\<close>.
\<close>

record cancel_slot =
  cs_task_id :: u64
  cs_task :: ptr
  cs_data :: u64
  cs_user_data_hash :: u64

record cancel_index =
  cancel_slots :: "cancel_slot list"
  cancel_cap :: u64

definition cancel_index_hash :: "u64 \<Rightarrow> u64 \<Rightarrow> u64" where
  "cancel_index_hash key cap = key AND (cap - 1)"

abbreviation slot_key :: "cancel_index \<Rightarrow> nat \<Rightarrow> u64" where
  "slot_key idx j \<equiv> cs_task_id (cancel_slots idx ! j)"

lemma u64_succ_below: "(i::u64) < n \<Longrightarrow> unat (i + 1) = Suc (unat i)"
  using unat_u64_less [of n] by (intro unat_u64_Suc) (auto simp: word_less_nat_alt unat_u64_max)

function cancel_probe :: "(u64 \<Rightarrow> bool) \<Rightarrow> cancel_index \<Rightarrow> u64 \<Rightarrow> u64 \<Rightarrow> nat option" where
  "cancel_probe stop idx h i =
     (if i < cancel_cap idx then
        (if stop (slot_key idx (unat h)) then Some (unat h)
         else cancel_probe stop idx ((h + 1) AND (cancel_cap idx - 1)) (i + 1))
      else None)"
  by pat_completeness auto
termination
  by (relation "measure (\<lambda>(stop, idx, h, i). unat (cancel_cap idx) - unat i)")
     (auto simp: u64_succ_below word_less_nat_alt)

declare cancel_probe.simps [simp del]

definition no_index :: "cancel_index \<Rightarrow> bool" where
  "no_index idx \<longleftrightarrow> cancel_cap idx = 0 \<or> cancel_slots idx = []"

definition cancel_index_insert :: "cancel_index \<Rightarrow> addr \<Rightarrow> loom_task \<Rightarrow> cancel_index" where
  "cancel_index_insert idx a t =
     (if no_index idx then idx
      else
        (let want = tk_task_id t + 1; h = cancel_index_hash want (cancel_cap idx) in
         case cancel_probe (\<lambda>cur. cur = 0 \<or> cur = 1) idx h 0 of
           None \<Rightarrow> idx
         | Some j \<Rightarrow>
             idx\<lparr>cancel_slots := (cancel_slots idx)[j :=
                    \<lparr>cs_task_id = want, cs_task = Some a, cs_data = tk_user_data t,
                     cs_user_data_hash = hash_ptr (tk_user_data t)\<rparr>]\<rparr>))"

definition cancel_index_remove :: "cancel_index \<Rightarrow> u64 \<Rightarrow> cancel_index" where
  "cancel_index_remove idx task_id =
     (if no_index idx then idx
      else
        (let want = task_id + 1; h = cancel_index_hash want (cancel_cap idx) in
         case cancel_probe (\<lambda>cur. cur = want \<or> cur = 0) idx h 0 of
           None \<Rightarrow> idx
         | Some j \<Rightarrow>
             if slot_key idx j = want then
               idx\<lparr>cancel_slots := (cancel_slots idx)[j := (cancel_slots idx ! j)\<lparr>cs_task_id := 1\<rparr>]\<rparr>
             else idx))"

definition cancel_index_find :: "cancel_index \<Rightarrow> u64 \<Rightarrow> ptr" where
  "cancel_index_find idx task_id =
     (if no_index idx then None
      else
        (let want = task_id + 1; h = cancel_index_hash want (cancel_cap idx) in
         case cancel_probe (\<lambda>cur. cur = want \<or> cur = 0) idx h 0 of
           None \<Rightarrow> None
         | Some j \<Rightarrow> if slot_key idx j = want then cs_task (cancel_slots idx ! j) else None))"

definition cancel_index_claim :: "cancel_index \<Rightarrow> u64 \<Rightarrow> bool \<times> cancel_index" where
  "cancel_index_claim idx task_id =
     (if no_index idx then (False, idx)
      else
        (let want = task_id + 1; h = cancel_index_hash want (cancel_cap idx) in
         case cancel_probe (\<lambda>cur. cur = want \<or> cur = 0) idx h 0 of
           None \<Rightarrow> (False, idx)
         | Some j \<Rightarrow>
             if slot_key idx j = want then
               (True, idx\<lparr>cancel_slots := (cancel_slots idx)[j :=
                             (cancel_slots idx ! j)\<lparr>cs_task_id := 1, cs_task := None\<rparr>]\<rparr>)
             else (False, idx)))"

text \<open>The table of a fresh pool: \<open>calloc\<close> zeroes every slot.\<close>

definition cancel_index_new :: "nat \<Rightarrow> cancel_index" where
  "cancel_index_new k =
     \<lparr>cancel_slots = replicate (2 ^ k) \<lparr>cs_task_id = 0, cs_task = None, cs_data = 0, cs_user_data_hash = 0\<rparr>,
      cancel_cap = 2 ^ k\<rparr>"

subsection \<open>The map the table stands for\<close>

definition valid_id :: "u64 \<Rightarrow> bool" where
  "valid_id tid \<longleftrightarrow> tid \<noteq> 0 \<and> tid \<noteq> - 1"

definition index_map :: "cancel_index \<Rightarrow> u64 \<Rightarrow> addr option" where
  "index_map idx tid =
     (case List.find (\<lambda>s. cs_task_id s = tid + 1) (cancel_slots idx) of
        None \<Rightarrow> None
      | Some s \<Rightarrow> cs_task s)"

definition occupied :: "cancel_index \<Rightarrow> nat \<Rightarrow> bool" where
  "occupied idx j \<longleftrightarrow> slot_key idx j \<noteq> 0 \<and> slot_key idx j \<noteq> 1"

text \<open>Every occupied slot is reached from the home of its key without meeting an empty slot.\<close>

definition reachable_slot :: "cancel_index \<Rightarrow> nat \<Rightarrow> bool" where
  "reachable_slot idx j \<longleftrightarrow>
     (\<exists>d<length (cancel_slots idx).
        j = (unat (slot_key idx j) + d) mod length (cancel_slots idx) \<and>
        (\<forall>l<d. slot_key idx ((unat (slot_key idx j) + l) mod length (cancel_slots idx)) \<noteq> 0))"

definition index_size :: "cancel_index \<Rightarrow> bool" where
  "index_size idx \<longleftrightarrow> (\<exists>k<64. cancel_cap idx = 2 ^ k \<and> length (cancel_slots idx) = 2 ^ k)"

definition index_wf :: "cancel_index \<Rightarrow> bool" where
  "index_wf idx \<longleftrightarrow> index_size idx \<and>
     (\<forall>j<length (cancel_slots idx). occupied idx j \<longrightarrow>
        reachable_slot idx j \<and> cs_task (cancel_slots idx ! j) \<noteq> None \<and>
        (\<forall>i<length (cancel_slots idx). slot_key idx i = slot_key idx j \<longrightarrow> i = j))"

subsection \<open>The probe loop\<close>

lemma index_size_cap:
  "index_size idx \<Longrightarrow> unat (cancel_cap idx) = length (cancel_slots idx) \<and> 0 < length (cancel_slots idx)"
  by (auto simp: index_size_def unat_pow2)

lemma index_size_some: "index_size idx \<Longrightarrow> \<not> no_index idx"
  by (auto simp: index_size_def no_index_def)

lemma index_size_mask:
  "index_size idx \<Longrightarrow> unat (h AND (cancel_cap idx - 1)) = unat h mod length (cancel_slots idx)"
  by (auto simp: index_size_def pow2_mask)

lemma probe_next:
  assumes "index_size idx" "unat h = (x + i) mod length (cancel_slots idx)"
  shows "unat ((h + 1) AND (cancel_cap idx - 1)) = (x + Suc i) mod length (cancel_slots idx)"
proof -
  let ?n = "length (cancel_slots idx)"
  have "h \<noteq> - 1"
  proof
    assume "h = - 1"
    then have "2 ^ 64 - 1 < ?n" using assms index_size_cap [OF assms(1)]
      by (metis unat_u64_max mod_less_divisor)
    moreover have "?n < 2 ^ 64" using index_size_cap [OF assms(1)] unat_u64_less by metis
    ultimately show False by simp
  qed
  then show ?thesis
    using assms by (simp add: index_size_mask unat_u64_Suc mod_Suc_eq)
qed

text \<open>The loop visits \<open>x, x + 1, \<dots>\<close> modulo the capacity and stops at the first match.\<close>

lemma cancel_probe_spec:
  assumes "index_size idx"
  shows "unat h = (x + unat i) mod length (cancel_slots idx) \<Longrightarrow>
    (case cancel_probe stop idx h i of
       None \<Rightarrow> \<forall>l. unat i \<le> l \<longrightarrow> l < length (cancel_slots idx) \<longrightarrow>
                 \<not> stop (slot_key idx ((x + l) mod length (cancel_slots idx)))
     | Some r \<Rightarrow> \<exists>d<length (cancel_slots idx). r = (x + d) mod length (cancel_slots idx) \<and>
                 stop (slot_key idx r) \<and> unat i \<le> d \<and>
                 (\<forall>l. unat i \<le> l \<longrightarrow> l < d \<longrightarrow>
                    \<not> stop (slot_key idx ((x + l) mod length (cancel_slots idx)))))"
  using assms
proof (induction stop idx h i rule: cancel_probe.induct)
  case (1 stop idx h i)
  let ?n = "length (cancel_slots idx)"
  note size = 1(3) and h = 1(2)
  note cap = index_size_cap [OF size]
  have lt: "i < cancel_cap idx \<longleftrightarrow> unat i < ?n" using cap by (simp add: word_less_nat_alt)
  note unf = cancel_probe.simps [of stop idx h i]
  show ?case
  proof (cases "i < cancel_cap idx \<and> \<not> stop (slot_key idx (unat h))")
    case False
    then show ?thesis using lt h cap by (auto simp: unf)
  next
    case True
    let ?h = "(h + 1) AND (cancel_cap idx - 1)"
    have i: "unat (i + 1) = Suc (unat i)" using True u64_succ_below by blast
    have here: "\<not> stop (slot_key idx ((x + unat i) mod ?n))" using True h by simp
    have split: "(unat i \<le> l) = (l = unat i \<or> Suc (unat i) \<le> l)" for l by auto
    have "unat ?h = (x + unat (i + 1)) mod ?n" using probe_next [OF size h] i by simp
    with 1(1) [OF _ _ this size] True here i show ?thesis
      by (simp add: unf split: option.splits) (metis split Suc_leD)+
  qed
qed

text \<open>From the home slot of a key.\<close>

lemma probe_home:
  assumes "index_size idx"
  shows "case cancel_probe stop idx (cancel_index_hash want (cancel_cap idx)) 0 of
       None \<Rightarrow> \<forall>l<length (cancel_slots idx). \<not> stop (slot_key idx ((unat want + l) mod length (cancel_slots idx)))
     | Some r \<Rightarrow> \<exists>d<length (cancel_slots idx). r = (unat want + d) mod length (cancel_slots idx) \<and>
                 stop (slot_key idx r) \<and>
                 (\<forall>l<d. \<not> stop (slot_key idx ((unat want + l) mod length (cancel_slots idx))))"
  using cancel_probe_spec [OF assms, of "cancel_index_hash want (cancel_cap idx)" "unat want" 0 stop]
    index_size_mask [OF assms, of want]
  by (auto simp: cancel_index_hash_def split: option.splits)

text \<open>Every slot is visited by a probe that does not stop.\<close>

lemma slot_visited:
  assumes "j < (n::nat)"
  obtains l where "l < n" "j = (x + l) mod n"
proof
  show "(j + (n - x mod n)) mod n < n" using assms by simp
  have "x mod n < n" using assms by simp
  have "(x + (j + (n - x mod n)) mod n) mod n = (x mod n + (j + (n - x mod n))) mod n"
    by (simp add: mod_add_left_eq mod_add_right_eq)
  also have "\<dots> = (j + n) mod n" using \<open>x mod n < n\<close> by (simp add: add.commute add.left_commute)
  finally show "j = (x + (j + (n - x mod n)) mod n) mod n" using assms by simp
qed

lemma valid_key: "valid_id tid \<Longrightarrow> tid + 1 \<noteq> 0 \<and> tid + 1 \<noteq> (1::u64)"
  by (auto simp: valid_id_def eq_neg_iff_add_eq_0 [symmetric])

lemma find_unique:
  assumes "j < length xs" "P (xs ! j)" "\<And>i. i < length xs \<Longrightarrow> P (xs ! i) \<Longrightarrow> i = j"
  shows "List.find P xs = Some (xs ! j)"
proof -
  have "\<not> P (xs ! i)" if "i < j" for i
    using assms(1) assms(3) [of i] that by auto
  then show ?thesis unfolding find_Some_iff using assms(1,2) by blast
qed

lemma index_map_at:
  assumes "index_wf idx" "valid_id tid" "j < length (cancel_slots idx)" "slot_key idx j = tid + 1"
  shows "index_map idx tid = cs_task (cancel_slots idx ! j)" and "index_map idx tid \<noteq> None"
proof -
  have occ: "occupied idx j" using assms(2,4) valid_key by (simp add: occupied_def)
  then have "List.find (\<lambda>s. cs_task_id s = tid + 1) (cancel_slots idx) = Some (cancel_slots idx ! j)"
    using assms by (intro find_unique) (auto simp: index_wf_def)
  then show "index_map idx tid = cs_task (cancel_slots idx ! j)" by (simp add: index_map_def)
  with occ assms(1,3) show "index_map idx tid \<noteq> None" by (simp add: index_wf_def)
qed

lemma index_map_absent:
  assumes "\<And>j. j < length (cancel_slots idx) \<Longrightarrow> slot_key idx j \<noteq> tid + 1"
  shows "index_map idx tid = None"
proof -
  have "List.find (\<lambda>s. cs_task_id s = tid + 1) (cancel_slots idx) = None"
    unfolding find_None_iff using assms by (metis in_set_conv_nth)
  then show ?thesis by (simp add: index_map_def)
qed

text \<open>The search loop of find, remove and claim meets the key exactly when the map has it.\<close>

lemma index_wf_reach:
  assumes "index_wf idx" "valid_id tid" "j < length (cancel_slots idx)" "slot_key idx j = tid + 1"
  shows "\<exists>d<length (cancel_slots idx). j = (unat (tid + 1) + d) mod length (cancel_slots idx) \<and>
      (\<forall>l<d. slot_key idx ((unat (tid + 1) + l) mod length (cancel_slots idx)) \<noteq> 0)"
proof -
  have "occupied idx j" using assms(4) valid_key [OF assms(2)] by (simp add: occupied_def)
  then have "reachable_slot idx j" using assms(1,3) unfolding index_wf_def by blast
  then show ?thesis unfolding reachable_slot_def assms(4) .
qed

lemma probe_key_miss:
  assumes wf: "index_wf idx" "valid_id tid"
    and d: "d < length (cancel_slots idx)" "slot_key idx ((unat (tid + 1) + d) mod length (cancel_slots idx)) = 0"
    "\<forall>l<d. slot_key idx ((unat (tid + 1) + l) mod length (cancel_slots idx)) \<noteq> tid + 1"
  shows "index_map idx tid = None"
proof (rule index_map_absent, rule notI)
  let ?n = "length (cancel_slots idx)"
  fix j assume j: "j < ?n" and key: "slot_key idx j = tid + 1"
  from index_wf_reach [OF wf j key] obtain e where e: "j = (unat (tid + 1) + e) mod ?n"
    "\<forall>l<e. slot_key idx ((unat (tid + 1) + l) mod ?n) \<noteq> 0" by blast
  have "\<not> e < d" using d(3) e(1) key by blast
  moreover have "\<not> d < e" using e(2) d(2) by blast
  ultimately have "e = d" by simp
  with d(2) e(1) key have "tid + 1 = 0" by simp
  with valid_key [OF wf(2)] show False by simp
qed

lemma probe_key:
  assumes "index_wf idx" "valid_id tid"
  shows "case cancel_probe (\<lambda>cur. cur = tid + 1 \<or> cur = 0) idx
              (cancel_index_hash (tid + 1) (cancel_cap idx)) 0 of
           None \<Rightarrow> index_map idx tid = None
         | Some j \<Rightarrow> j < length (cancel_slots idx) \<and>
             (slot_key idx j = tid + 1 \<longleftrightarrow> index_map idx tid \<noteq> None)"
proof -
  let ?n = "length (cancel_slots idx)"
  define stop where "stop = (\<lambda>cur. cur = tid + 1 \<or> cur = 0)"
  have size: "index_size idx" using assms(1) by (simp add: index_wf_def)
  note home = probe_home [OF size, of stop "tid + 1"]
  show ?thesis
  proof (cases "cancel_probe stop idx (cancel_index_hash (tid + 1) (cancel_cap idx)) 0")
    case None
    then have miss: "\<forall>l<?n. \<not> stop (slot_key idx ((unat (tid + 1) + l) mod ?n))"
      using home by simp
    have "index_map idx tid = None"
    proof (rule index_map_absent)
      fix j assume "j < ?n"
      then obtain l where "l < ?n" "j = (unat (tid + 1) + l) mod ?n"
        using slot_visited by blast
      with miss show "slot_key idx j \<noteq> tid + 1" unfolding stop_def by blast
    qed
    then show ?thesis unfolding None [unfolded stop_def] option.case .
  next
    case (Some r)
    then obtain d where d: "d < ?n" "r = (unat (tid + 1) + d) mod ?n" "stop (slot_key idx r)"
        "\<forall>l<d. \<not> stop (slot_key idx ((unat (tid + 1) + l) mod ?n))"
      using home by auto
    then have r: "r < ?n" using index_size_cap [OF size] by simp
    have "index_map idx tid = None" if "slot_key idx r \<noteq> tid + 1"
    proof -
      have "slot_key idx ((unat (tid + 1) + d) mod ?n) = 0" using d(2,3) that unfolding stop_def by simp
      moreover have "\<forall>l<d. slot_key idx ((unat (tid + 1) + l) mod ?n) \<noteq> tid + 1"
        using d(4) unfolding stop_def by simp
      ultimately show ?thesis using probe_key_miss [OF assms d(1)] by simp
    qed
    moreover have "index_map idx tid \<noteq> None" if "slot_key idx r = tid + 1"
      using index_map_at(2) [OF assms r that] .
    ultimately have "r < ?n \<and> (slot_key idx r = tid + 1 \<longleftrightarrow> index_map idx tid \<noteq> None)"
      using r by (cases "slot_key idx r = tid + 1") simp_all
    then show ?thesis unfolding Some [unfolded stop_def] option.case .
  qed
qed

subsection \<open>The operations on the map\<close>

lemma find_is_map:
  assumes "index_wf idx" "valid_id tid"
  shows "cancel_index_find idx tid = index_map idx tid"
proof -
  have "\<not> no_index idx" using assms(1) by (simp add: index_wf_def index_size_some)
  then show ?thesis
    using probe_key [OF assms] index_map_at(1) [OF assms]
    by (auto simp: cancel_index_find_def Let_def split: option.splits)
qed

lemma index_map_same:
  assumes "index_wf idx" "index_wf idx'" "valid_id tid"
    and "length (cancel_slots idx') = length (cancel_slots idx)"
    and "\<And>i. i < length (cancel_slots idx) \<Longrightarrow> slot_key idx' i = tid + 1 \<longleftrightarrow> slot_key idx i = tid + 1"
    and "\<And>i. i < length (cancel_slots idx) \<Longrightarrow> slot_key idx i = tid + 1 \<Longrightarrow>
           cs_task (cancel_slots idx' ! i) = cs_task (cancel_slots idx ! i)"
  shows "index_map idx' tid = index_map idx tid"
proof (cases "\<exists>j<length (cancel_slots idx). slot_key idx j = tid + 1")
  case True
  then obtain j where "j < length (cancel_slots idx)" "slot_key idx j = tid + 1" by blast
  with index_map_at(1) [OF assms(1,3)] index_map_at(1) [OF assms(2,3)] assms(4-6)
  show ?thesis by simp
next
  case False
  with index_map_absent [of idx tid] index_map_absent [of idx' tid] assms(4,5) show ?thesis by auto
qed

text \<open>
  Overwriting one slot: no probe path is cut as long as the new key is not the empty one and
  an occupied new key is reachable and new.
\<close>

lemma index_wf_update:
  assumes wf: "index_wf idx" and j: "j < length (cancel_slots idx)"
    and s: "cs_task_id s \<noteq> 0"
    and new: "cs_task_id s \<noteq> 1 \<Longrightarrow> cs_task s \<noteq> None \<and>
        (\<forall>i<length (cancel_slots idx). slot_key idx i \<noteq> cs_task_id s) \<and>
        (\<exists>d<length (cancel_slots idx). j = (unat (cs_task_id s) + d) mod length (cancel_slots idx) \<and>
          (\<forall>l<d. slot_key idx ((unat (cs_task_id s) + l) mod length (cancel_slots idx)) \<noteq> 0))"
  shows "index_wf (idx\<lparr>cancel_slots := (cancel_slots idx)[j := s]\<rparr>)"
proof -
  let ?n = "length (cancel_slots idx)"
  let ?idx = "idx\<lparr>cancel_slots := (cancel_slots idx)[j := s]\<rparr>"
  have key: "slot_key ?idx i = (if i = j then cs_task_id s else slot_key idx i)" if "i < ?n" for i
    using that by simp
  have pos: "0 < ?n" using j by linarith
  have nonzero: "slot_key ?idx i \<noteq> 0" if "i < ?n" "slot_key idx i \<noteq> 0" for i
    using key [OF that(1)] that(2) s by simp
  have reach: "reachable_slot ?idx i" if i: "i < ?n" "occupied ?idx i" for i
  proof -
    have "\<exists>d<?n. i = (unat (slot_key ?idx i) + d) mod ?n \<and>
        (\<forall>l<d. slot_key idx ((unat (slot_key ?idx i) + l) mod ?n) \<noteq> 0)"
    proof (cases "i = j")
      case True
      with i have "cs_task_id s \<noteq> 1" by (simp add: occupied_def)
      with new True j show ?thesis by simp
    next
      case False
      then have k: "slot_key ?idx i = slot_key idx i" by simp
      with i have "occupied idx i" by (simp add: occupied_def)
      with wf i(1) have "reachable_slot idx i" unfolding index_wf_def by blast
      then show ?thesis unfolding k reachable_slot_def .
    qed
    then obtain d where d: "d < ?n" "i = (unat (slot_key ?idx i) + d) mod ?n"
      "\<forall>l<d. slot_key idx ((unat (slot_key ?idx i) + l) mod ?n) \<noteq> 0" by blast
    have "slot_key ?idx ((unat (slot_key ?idx i) + l) mod ?n) \<noteq> 0" if "l < d" for l
      using d(3) that pos by (intro nonzero mod_less_divisor) blast+
    then have "\<exists>d<?n. i = (unat (slot_key ?idx i) + d) mod ?n \<and>
        (\<forall>l<d. slot_key ?idx ((unat (slot_key ?idx i) + l) mod ?n) \<noteq> 0)" using d(1,2) by blast
    then show ?thesis unfolding reachable_slot_def by simp
  qed
  have task: "cs_task (cancel_slots ?idx ! i) \<noteq> None" if i: "i < ?n" "occupied ?idx i" for i
    using i wf new by (cases "i = j") (auto simp: occupied_def index_wf_def)
  have uniq: "k = i" if i: "i < ?n" "occupied ?idx i" "k < ?n" "slot_key ?idx k = slot_key ?idx i" for i k
  proof (cases "i = j \<or> k = j")
    case True
    have s1: "cs_task_id s \<noteq> 1" using True i key [OF i(1)] key [OF i(3)] by (auto simp: occupied_def)
    show ?thesis
    proof (rule ccontr)
      assume "k \<noteq> i"
      with True i(4) key [OF i(1)] key [OF i(3)]
      have "slot_key idx i = cs_task_id s \<or> slot_key idx k = cs_task_id s" by (auto split: if_splits)
      with new [OF s1] i(1,3) show False by blast
    qed
  next
    case False
    with i have "occupied idx i" "slot_key idx k = slot_key idx i" by (auto simp: occupied_def)
    with wf i(1,3) show ?thesis unfolding index_wf_def by blast
  qed
  have "index_size ?idx" using wf by (simp add: index_wf_def index_size_def)
  with reach task uniq show ?thesis unfolding index_wf_def by simp
qed

lemma index_tombstone:
  assumes wf: "index_wf idx" and j: "j < length (cancel_slots idx)" "slot_key idx j = tid + 1"
    and s: "cs_task_id s = 1" and id: "valid_id tid"
  defines "idx' \<equiv> idx\<lparr>cancel_slots := (cancel_slots idx)[j := s]\<rparr>"
  shows "index_wf idx'" and "valid_id tid' \<Longrightarrow> index_map idx' tid' = ((index_map idx)(tid := None)) tid'"
proof -
  show wf': "index_wf idx'"
    unfolding idx'_def using wf j(1) s by (intro index_wf_update) auto
  have occ: "occupied idx j" using j(2) valid_key [OF id] by (simp add: occupied_def)
  have gone: "slot_key idx' i \<noteq> tid + 1" if "i < length (cancel_slots idx)" for i
  proof (cases "i = j")
    case True
    with j s valid_key [OF id] show ?thesis by (simp add: idx'_def)
  next
    case False
    with wf j that occ show ?thesis unfolding idx'_def index_wf_def by auto
  qed
  show "index_map idx' tid' = ((index_map idx)(tid := None)) tid'" if id': "valid_id tid'"
  proof (cases "tid' = tid")
    case True
    have "length (cancel_slots idx') = length (cancel_slots idx)" by (simp add: idx'_def)
    with True gone index_map_absent [of idx' tid] show ?thesis by simp
  next
    case False
    with j s valid_key [OF id'] have "index_map idx' tid' = index_map idx tid'"
      by (intro index_map_same wf wf' id') (auto simp: idx'_def nth_list_update)
    with False show ?thesis by simp
  qed
qed

lemma probe_key_cases:
  assumes "index_wf idx" "valid_id tid"
  obtains
    (hit) j where "cancel_probe (\<lambda>cur. cur = tid + 1 \<or> cur = 0) idx
        (cancel_index_hash (tid + 1) (cancel_cap idx)) 0 = Some j"
      "j < length (cancel_slots idx)" "slot_key idx j = tid + 1" "index_map idx tid \<noteq> None"
  | (empty) j where "cancel_probe (\<lambda>cur. cur = tid + 1 \<or> cur = 0) idx
        (cancel_index_hash (tid + 1) (cancel_cap idx)) 0 = Some j"
      "slot_key idx j \<noteq> tid + 1" "index_map idx tid = None"
  | (absent) "cancel_probe (\<lambda>cur. cur = tid + 1 \<or> cur = 0) idx
        (cancel_index_hash (tid + 1) (cancel_cap idx)) 0 = None" "index_map idx tid = None"
proof (cases "cancel_probe (\<lambda>cur. cur = tid + 1 \<or> cur = 0) idx
        (cancel_index_hash (tid + 1) (cancel_cap idx)) 0")
  case None
  with probe_key [OF assms] absent show ?thesis by simp
next
  case (Some j)
  with probe_key [OF assms]
  have "j < length (cancel_slots idx)" "slot_key idx j = tid + 1 \<longleftrightarrow> index_map idx tid \<noteq> None"
    by simp_all
  with Some hit empty show ?thesis by metis
qed

lemma claim_is_delete:
  assumes "index_wf idx" "valid_id tid" "cancel_index_claim idx tid = (won, idx')"
  shows "(won \<longleftrightarrow> index_map idx tid \<noteq> None) \<and> index_wf idx' \<and> (valid_id tid' \<longrightarrow>
         index_map idx' tid' = ((index_map idx)(tid := None)) tid')"
proof -
  have ne: "\<not> no_index idx" using assms(1) by (simp add: index_wf_def index_size_some)
  show ?thesis
  proof (cases rule: probe_key_cases [OF assms(1,2), case_names hit empty absent])
    case (hit j)
    let ?s = "(cancel_slots idx ! j)\<lparr>cs_task_id := 1, cs_task := None\<rparr>"
    have "won" "idx' = idx\<lparr>cancel_slots := (cancel_slots idx)[j := ?s]\<rparr>"
      using hit(1,3) ne assms(3) by (simp_all add: cancel_index_claim_def Let_def)
    with index_tombstone [OF assms(1) hit(2,3) _ assms(2), of ?s] hit(4) show ?thesis by simp
  qed (use ne assms in \<open>auto simp: cancel_index_claim_def Let_def\<close>)
qed

lemma remove_is_delete:
  assumes "index_wf idx" "valid_id tid"
  shows "index_wf (cancel_index_remove idx tid) \<and> (valid_id tid' \<longrightarrow>
         index_map (cancel_index_remove idx tid) tid' = ((index_map idx)(tid := None)) tid')"
proof -
  have ne: "\<not> no_index idx" using assms(1) by (simp add: index_wf_def index_size_some)
  show ?thesis
  proof (cases rule: probe_key_cases [OF assms, case_names hit empty absent])
    case (hit j)
    let ?s = "(cancel_slots idx ! j)\<lparr>cs_task_id := 1\<rparr>"
    have "cancel_index_remove idx tid = idx\<lparr>cancel_slots := (cancel_slots idx)[j := ?s]\<rparr>"
      using hit(1,3) ne by (simp add: cancel_index_remove_def Let_def)
    with index_tombstone [OF assms(1) hit(2,3) _ assms(2), of ?s] show ?thesis by simp
  qed (use ne assms in \<open>auto simp: cancel_index_remove_def Let_def\<close>)
qed

definition index_room :: "cancel_index \<Rightarrow> bool" where
  "index_room idx \<longleftrightarrow> (\<exists>j<length (cancel_slots idx). \<not> occupied idx j)"

lemma insert_full: "\<not> index_room idx \<Longrightarrow> index_wf idx \<Longrightarrow> cancel_index_insert idx a t = idx"
proof -
  assume full: "\<not> index_room idx" and wf: "index_wf idx"
  have size: "index_size idx" using wf by (simp add: index_wf_def)
  let ?stop = "\<lambda>cur::u64. cur = 0 \<or> cur = 1"
  have "cancel_probe ?stop idx (cancel_index_hash (tk_task_id t + 1) (cancel_cap idx)) 0 = None"
    using probe_home [OF size, of ?stop "tk_task_id t + 1"] full index_size_cap [OF size]
    by (auto simp: index_room_def occupied_def split: option.splits)
  then show ?thesis by (simp add: cancel_index_insert_def Let_def)
qed

lemma insert_is_update:
  assumes wf: "index_wf idx" and id: "valid_id (tk_task_id t)"
    and fresh: "index_map idx (tk_task_id t) = None" and room: "index_room idx"
  shows "index_wf (cancel_index_insert idx a t)"
    and "valid_id tid' \<Longrightarrow>
         index_map (cancel_index_insert idx a t) tid' = ((index_map idx)(tk_task_id t \<mapsto> a)) tid'"
proof -
  let ?n = "length (cancel_slots idx)" and ?w = "tk_task_id t + 1"
  define stop where "stop = (\<lambda>cur::u64. cur = 0 \<or> cur = 1)"
  have size: "index_size idx" using wf by (simp add: index_wf_def)
  note home = probe_home [OF size, of stop ?w]
  obtain r d where probe: "cancel_probe stop idx (cancel_index_hash ?w (cancel_cap idx)) 0 = Some r"
    and d: "d < ?n" "r = (unat ?w + d) mod ?n" "stop (slot_key idx r)"
      "\<forall>l<d. \<not> stop (slot_key idx ((unat ?w + l) mod ?n))"
  proof (cases "cancel_probe stop idx (cancel_index_hash ?w (cancel_cap idx)) 0")
    case None
    then have "\<forall>l<?n. \<not> stop (slot_key idx ((unat ?w + l) mod ?n))" using home by simp
    moreover obtain j where j: "j < ?n" "\<not> occupied idx j" using room by (auto simp: index_room_def)
    obtain l where "l < ?n" "j = (unat ?w + l) mod ?n" using slot_visited [OF j(1)] by blast
    ultimately show ?thesis using j(2) by (auto simp: stop_def occupied_def)
  next
    case (Some r)
    with home that show ?thesis by auto
  qed
  then have r: "r < ?n" using index_size_cap [OF size] by simp
  let ?s = "\<lparr>cs_task_id = ?w, cs_task = Some a, cs_data = tk_user_data t,
             cs_user_data_hash = hash_ptr (tk_user_data t)\<rparr>"
  let ?idx = "idx\<lparr>cancel_slots := (cancel_slots idx)[r := ?s]\<rparr>"
  have ins: "cancel_index_insert idx a t = ?idx"
    using probe index_size_some [OF size] by (simp add: cancel_index_insert_def Let_def stop_def)
  have new: "slot_key idx i \<noteq> ?w" if "i < ?n" for i
    using index_map_at(2) [OF wf id that] fresh by blast
  have path: "\<exists>d<?n. r = (unat ?w + d) mod ?n \<and> (\<forall>l<d. slot_key idx ((unat ?w + l) mod ?n) \<noteq> 0)"
    using d unfolding stop_def by blast
  have wf': "index_wf ?idx"
    using new path valid_key [OF id] by (intro index_wf_update wf r) auto
  show "index_wf (cancel_index_insert idx a t)" using wf' ins by simp
  assume id': "valid_id tid'"
  have "index_map ?idx tid' = ((index_map idx)(tk_task_id t \<mapsto> a)) tid'"
  proof (cases "tid' = tk_task_id t")
    case True
    with index_map_at(1) [OF wf' id', of r] r show ?thesis by simp
  next
    case False
    with d(3) valid_key [OF id'] have "index_map ?idx tid' = index_map idx tid'"
      using r by (intro index_map_same wf wf' id') (auto simp: nth_list_update stop_def)
    with False show ?thesis by simp
  qed
  then show "index_map (cancel_index_insert idx a t) tid' = ((index_map idx)(tk_task_id t \<mapsto> a)) tid'"
    using ins by simp
qed

subsection \<open>The interface of the cancel paths\<close>

locale task_map =
  fixes inv :: "'s \<Rightarrow> bool"
    and room :: "'s \<Rightarrow> bool"
    and valid :: "u64 \<Rightarrow> bool"
    and lookup :: "'s \<Rightarrow> u64 \<Rightarrow> addr option"
    and ins :: "'s \<Rightarrow> addr \<Rightarrow> loom_task \<Rightarrow> 's"
    and del :: "'s \<Rightarrow> u64 \<Rightarrow> 's"
  assumes ins_inv: "inv s \<Longrightarrow> valid (tk_task_id t) \<Longrightarrow> lookup s (tk_task_id t) = None \<Longrightarrow> inv (ins s a t)"
    and lookup_ins: "inv s \<Longrightarrow> valid (tk_task_id t) \<Longrightarrow> lookup s (tk_task_id t) = None \<Longrightarrow> room s \<Longrightarrow>
          valid tid \<Longrightarrow> lookup (ins s a t) tid = (if tid = tk_task_id t then Some a else lookup s tid)"
    and del_inv: "inv s \<Longrightarrow> valid tid \<Longrightarrow> inv (del s tid)"
    and lookup_del: "inv s \<Longrightarrow> valid tid \<Longrightarrow> valid tid' \<Longrightarrow>
          lookup (del s tid) tid' = (if tid' = tid then None else lookup s tid')"
begin

lemma ins_del:
  assumes "inv s" "valid (tk_task_id t)" "lookup s (tk_task_id t) = None" "room s" "valid tid"
  shows "lookup (del (ins s a t) (tk_task_id t)) tid = lookup s tid"
  using assms lookup_del [OF ins_inv [OF assms(1-3)] assms(2,5)] lookup_ins [OF assms] by auto

lemma del_twice:
  assumes "inv s" "valid tid" "valid tid'"
  shows "lookup (del (del s tid) tid) tid' = lookup (del s tid) tid'"
  using lookup_del [OF del_inv [OF assms(1,2)] assms(2,3)] lookup_del [OF assms] by simp

end

interpretation cidx: task_map index_wf index_room valid_id cancel_index_find
  cancel_index_insert cancel_index_remove
proof unfold_locales
  fix idx a and t :: loom_task and tid tid'
  assume wf: "index_wf idx"
  show ins: "index_wf (cancel_index_insert idx a t)"
    if "valid_id (tk_task_id t)" "cancel_index_find idx (tk_task_id t) = None"
    using insert_is_update(1) [OF wf] insert_full [OF _ wf] that wf find_is_map [OF wf]
    by (cases "index_room idx") auto
  show "cancel_index_find (cancel_index_insert idx a t) tid =
      (if tid = tk_task_id t then Some a else cancel_index_find idx tid)"
    if "valid_id (tk_task_id t)" "cancel_index_find idx (tk_task_id t) = None" "index_room idx" "valid_id tid"
    using insert_is_update [OF wf] that ins find_is_map wf by simp
  show "index_wf (cancel_index_remove idx tid)" if "valid_id tid"
    using remove_is_delete [OF wf that] by blast
  show "cancel_index_find (cancel_index_remove idx tid) tid' =
      (if tid' = tid then None else cancel_index_find idx tid')" if "valid_id tid" "valid_id tid'"
    using remove_is_delete [OF wf that(1)] that find_is_map wf by simp
qed

subsection \<open>Refinement of an association list\<close>

datatype index_op = Ins addr loom_task | Rem u64 | Claim u64 | Find u64
datatype index_res = Done | Won bool | Found "addr option"

fun index_step :: "cancel_index \<Rightarrow> index_op \<Rightarrow> index_res \<times> cancel_index" where
  "index_step idx (Ins a t) = (Done, cancel_index_insert idx a t)"
| "index_step idx (Rem tid) = (Done, cancel_index_remove idx tid)"
| "index_step idx (Claim tid) = apfst Won (cancel_index_claim idx tid)"
| "index_step idx (Find tid) = (Found (cancel_index_find idx tid), idx)"

fun alist_step :: "(u64 \<times> addr) list \<Rightarrow> index_op \<Rightarrow> index_res \<times> (u64 \<times> addr) list" where
  "alist_step m (Ins a t) = (Done, (tk_task_id t, a) # m)"
| "alist_step m (Rem tid) = (Done, filter (\<lambda>(i, a). i \<noteq> tid) m)"
| "alist_step m (Claim tid) = (Won (map_of m tid \<noteq> None), filter (\<lambda>(i, a). i \<noteq> tid) m)"
| "alist_step m (Find tid) = (Found (map_of m tid), m)"

fun run_index :: "cancel_index \<Rightarrow> index_op list \<Rightarrow> index_res list" where
  "run_index idx [] = []"
| "run_index idx (op # ops) = (case index_step idx op of (r, idx') \<Rightarrow> r # run_index idx' ops)"

fun run_alist :: "(u64 \<times> addr) list \<Rightarrow> index_op list \<Rightarrow> index_res list" where
  "run_alist m [] = []"
| "run_alist m (op # ops) = (case alist_step m op of (r, m') \<Rightarrow> r # run_alist m' ops)"

text \<open>
  What the pool guarantees of its calls: ids are valid, an inserted id is fresh, and fewer
  tasks than slots are registered when one more is inserted.
\<close>

fun calls_ok :: "nat \<Rightarrow> (u64 \<times> addr) list \<Rightarrow> index_op list \<Rightarrow> bool" where
  "calls_ok n m [] = True"
| "calls_ok n m (op # ops) =
     ((case op of
         Ins a t \<Rightarrow> valid_id (tk_task_id t) \<and> map_of m (tk_task_id t) = None \<and> length m < n
       | Rem tid \<Rightarrow> valid_id tid | Claim tid \<Rightarrow> valid_id tid | Find tid \<Rightarrow> valid_id tid) \<and>
      calls_ok n (snd (alist_step m op)) ops)"

definition represents :: "cancel_index \<Rightarrow> nat \<Rightarrow> (u64 \<times> addr) list \<Rightarrow> bool" where
  "represents idx n m \<longleftrightarrow> index_wf idx \<and> length (cancel_slots idx) = n \<and>
     (\<forall>tid. valid_id tid \<longrightarrow> index_map idx tid = map_of m tid)"

lemma represents_room:
  assumes "represents idx n m" "length m < n"
  shows "index_room idx"
proof (rule ccontr)
  assume "\<not> index_room idx"
  then have occ: "occupied idx j" if "j < n" for j
    using that assms(1) by (auto simp: index_room_def represents_def)
  let ?f = "\<lambda>j. slot_key idx j - 1"
  have wf: "index_wf idx" "length (cancel_slots idx) = n" using assms(1) by (auto simp: represents_def)
  have "inj_on ?f {..<n}"
  proof (rule inj_onI)
    fix i j assume "i \<in> {..<n}" "j \<in> {..<n}" "?f i = ?f j"
    then show "i = j" using wf occ [of j] unfolding index_wf_def by auto
  qed
  moreover have "?f ` {..<n} \<subseteq> fst ` set m"
  proof (rule image_subsetI)
    fix j assume "j \<in> {..<n}"
    then have j: "j < length (cancel_slots idx)" "occupied idx j" using occ wf(2) by auto
    then have id: "valid_id (?f j)" by (auto simp: occupied_def valid_id_def)
    with index_map_at(2) [OF wf(1) id j(1)] have "map_of m (?f j) \<noteq> None"
      using assms(1) by (simp add: represents_def)
    then show "?f j \<in> fst ` set m" by (metis map_of_eq_None_iff)
  qed
  ultimately have "n \<le> card (fst ` set m)" by (metis card_image card_lessThan card_mono finite_imageI finite_set)
  also have "\<dots> \<le> length m" by (metis card_image_le card_length finite_set le_trans)
  finally show False using assms(2) by simp
qed

lemma map_of_delete: "map_of (filter (\<lambda>(i, a). i \<noteq> tid) m) tid' = ((map_of m)(tid := None)) tid'"
  by (induction m) auto

lemma slots_length:
  "length (cancel_slots (cancel_index_insert idx a t)) = length (cancel_slots idx)"
  "length (cancel_slots (cancel_index_remove idx tid)) = length (cancel_slots idx)"
  "length (cancel_slots (snd (cancel_index_claim idx tid))) = length (cancel_slots idx)"
  by (auto simp: cancel_index_insert_def cancel_index_remove_def cancel_index_claim_def Let_def
      split: option.splits)

lemma represents_step:
  assumes rep: "represents idx n m" and ok: "calls_ok n m [op]"
    and step: "index_step idx op = (r, idx')" "alist_step m op = (r', m')"
  shows "r = r' \<and> represents idx' n m'"
proof -
  have wf: "index_wf idx" and map: "\<And>tid. valid_id tid \<Longrightarrow> index_map idx tid = map_of m tid"
    using rep by (auto simp: represents_def)
  show ?thesis
  proof (cases op)
    case (Ins a t)
    with ok have t: "valid_id (tk_task_id t)" "index_map idx (tk_task_id t) = None" "length m < n"
      by (simp_all add: map)
    with insert_is_update [OF wf t(1,2) represents_room [OF rep t(3)]] Ins step rep map
    show ?thesis by (auto simp: represents_def slots_length)
  next
    case (Rem tid)
    with ok remove_is_delete [OF wf, of tid] step rep map show ?thesis
      by (auto simp: represents_def slots_length map_of_delete)
  next
    case (Claim tid)
    obtain won where c: "cancel_index_claim idx tid = (won, idx')" "r = Won won"
      using Claim step by (cases "cancel_index_claim idx tid") auto
    have id: "valid_id tid" using Claim ok by simp
    have "length (cancel_slots idx') = length (cancel_slots idx)"
      using slots_length(3) [of idx tid] c by simp
    with claim_is_delete [OF wf id c(1)] c(2) Claim step rep map id show ?thesis
      by (auto simp: represents_def map_of_delete)
  next
    case (Find tid)
    with ok step rep map find_is_map [OF wf] show ?thesis by auto
  qed
qed

lemma represents_new:
  assumes "k < 64"
  shows "represents (cancel_index_new k) (2 ^ k) []"
proof -
  have "index_wf (cancel_index_new k)"
    using assms by (auto simp: index_wf_def cancel_index_new_def index_size_def occupied_def)
  moreover have "index_map (cancel_index_new k) tid = None" if "valid_id tid" for tid
    using valid_key [OF that] by (intro index_map_absent) (simp add: cancel_index_new_def)
  ultimately show ?thesis by (simp add: represents_def cancel_index_new_def)
qed

lemma run_index_refines:
  "represents idx n m \<Longrightarrow> calls_ok n m ops \<Longrightarrow> run_index idx ops = run_alist m ops"
proof (induction ops arbitrary: idx m)
  case (Cons op ops)
  obtain r idx' r' m' where step: "index_step idx op = (r, idx')" "alist_step m op = (r', m')"
    by (metis surj_pair)
  with represents_step [OF Cons.prems(1) _ step] Cons.prems(2)
  have "r = r' \<and> represents idx' n m'" by auto
  with Cons step show ?case by auto
qed simp

text \<open>
  C7.  The open-addressing cancel index behaves exactly like a finite map: for
  every sequence of inserts of fresh ids, removals, claims and lookups during which fewer
  ids than slots are registered, no insert is dropped, every lookup returns the registered
  task, and a claim succeeds exactly once per registration.  Reusing tombstones and keeping
  them on removal never hides a registered task.
\<close>

theorem cancel_index_refines_map:
  assumes "k < 64" and "calls_ok (2 ^ k) [] ops"
  shows "run_index (cancel_index_new k) ops = run_alist [] ops"
  using run_index_refines [OF represents_new [OF assms(1)] assms(2)] .

definition sample_task :: "u64 \<Rightarrow> loom_task" where
  "sample_task tid = \<lparr>tk_fn = 1, tk_user_data = 7, tk_cancelled = False, tk_task_id = tid,
     tk_priority = 5, tk_next = None, tk_free_data = False, tk_is_future = False,
     tk_is_coro = False, tk_coro_fn = 0, tk_stack_size = 0, tk_completion = None\<rparr>"

theorem cancel_index_refines_map_witness:
  "run_index (cancel_index_new 1)
     [Ins 10 (sample_task 2), Ins 11 (sample_task 4), Rem 2, Find 4, Ins 12 (sample_task 6), Find 4,
      Claim 4, Claim 4, Find 6] =
     [Done, Done, Done, Found (Some 11), Done, Found (Some 11), Won True, Won False, Found (Some 12)]"
proof -
  have "calls_ok (2 ^ 1) [] [Ins 10 (sample_task 2), Ins 11 (sample_task 4), Rem 2, Find 4,
      Ins 12 (sample_task 6), Find 4, Claim 4, Claim 4, Find 6]"
    by code_simp
  from cancel_index_refines_map [OF _ this] show ?thesis by (simp add: sample_task_def)
qed

end
