(* ===== verification/Vyukov_Ring.thy ===== *)
theory Vyukov_Ring
  imports Cancel_Index
begin

text \<open>
  The lock-free ring of \<^verbatim>\<open>src/src/thread_pool.c\<close> that carries NORMAL-priority tasks.  A cell's
  sequence number tells whose turn it is: \<open>pos\<close> for the producer of position \<open>pos\<close>,
  \<open>pos + 1\<close> for its consumer, \<open>pos + ring_size\<close> once released.  Positions are 64-bit and
  wrap around; the representation below follows them modulo \<open>2\<^sup>6\<^sup>4\<close>, so no bound on the
  number of operations is needed.  This theory treats a call as one step; \<open>Ring_Concurrent\<close>
  treats every atomic access as a step.
\<close>

record ring_cell =
  rc_seq :: u64
  rc_task :: addr

record ring =
  ring_head :: u64
  ring_tail :: u64
  ring_cells :: "ring_cell list"
  ring_size :: u64
  ring_mask :: u64
  ring_count :: u32

definition ring_try_enqueue ::
    "ring \<Rightarrow> cancel_index \<Rightarrow> addr \<Rightarrow> loom_task \<Rightarrow> bool \<times> ring \<times> cancel_index" where
  "ring_try_enqueue r idx a t =
     (let tail = ring_tail r; pos = unat (tail AND ring_mask r) in
      if rc_seq (ring_cells r ! pos) \<noteq> tail then (False, r, idx)
      else
        (let want = tail;
             r1 = r\<lparr>ring_tail := tail + 1,
                    ring_cells := (ring_cells r)[pos := (ring_cells r ! pos)\<lparr>rc_task := a\<rparr>]\<rparr>;
             idx' = cancel_index_insert idx a t;
             r2 = r1\<lparr>ring_cells := (ring_cells r1)[pos := (ring_cells r1 ! pos)\<lparr>rc_seq := want + 1\<rparr>],
                     ring_count := ring_count r1 + 1\<rparr>
         in (True, r2, idx')))"

text \<open>The read loop of the bulk dequeue: the tasks of the published cells from \<open>head + n\<close> on.\<close>

fun bulk_scan :: "ring \<Rightarrow> u64 \<Rightarrow> nat \<Rightarrow> nat \<Rightarrow> addr list" where
  "bulk_scan r head n 0 = []"
| "bulk_scan r head n (Suc m) =
     (let pos = unat ((head + of_nat n) AND ring_mask r) in
      if rc_seq (ring_cells r ! pos) \<noteq> head + of_nat n + 1 then []
      else rc_task (ring_cells r ! pos) # bulk_scan r head (Suc n) m)"

text \<open>The release loop over \<open>k, k + 1, \<dots>\<close>.\<close>

fun bulk_release :: "ring \<Rightarrow> u64 \<Rightarrow> nat \<Rightarrow> nat \<Rightarrow> ring" where
  "bulk_release r want k 0 = r"
| "bulk_release r want k (Suc m) =
     (let pos = unat ((want + of_nat k) AND ring_mask r) in
      bulk_release
        (r\<lparr>ring_cells := (ring_cells r)[pos :=
              (ring_cells r ! pos)\<lparr>rc_seq := want + of_nat k + ring_size r\<rparr>]\<rparr>)
        want (Suc k) m)"

text \<open>
  \<open>cas\<close> is whether the compare-and-swap on \<open>ring_head\<close> succeeds; the weak form may fail for
  no reason, and then nothing is claimed.
\<close>

definition ring_bulk_try_dequeue :: "ring \<Rightarrow> nat \<Rightarrow> bool \<Rightarrow> addr list \<times> ring" where
  "ring_bulk_try_dequeue r limit cas =
     (let head = ring_head r; out = bulk_scan r head 0 limit; n = length out in
      if n = 0 then ([], r)
      else if \<not> cas then ([], r)
      else
        (let r1 = bulk_release (r\<lparr>ring_head := head + of_nat n\<rparr>) head 0 n
         in (out, r1\<lparr>ring_count := ring_count r1 - of_nat n\<rparr>)))"

definition ring_has_work :: "ring \<Rightarrow> bool" where
  "ring_has_work r =
     (let head = ring_head r; pos = unat (head AND ring_mask r)
      in rc_seq (ring_cells r ! pos) = head + 1)"

text \<open>A fresh ring of \<open>2\<^sup>k\<close> cells (\<open>pool_init\<close>): every cell waits for its first producer.\<close>

definition ring_new :: "nat \<Rightarrow> ring" where
  "ring_new k =
     \<lparr>ring_head = 0, ring_tail = 0,
      ring_cells = map (\<lambda>i. \<lparr>rc_seq = of_nat i, rc_task = 0\<rparr>) [0..<2 ^ k],
      ring_size = 2 ^ k, ring_mask = 2 ^ k - 1, ring_count = 0\<rparr>"

subsection \<open>The queue the ring stands for\<close>

definition ring_shape :: "ring \<Rightarrow> bool" where
  "ring_shape r \<longleftrightarrow>
     (\<exists>k. 0 < k \<and> k < 64 \<and> length (ring_cells r) = 2 ^ k \<and> ring_size r = 2 ^ k \<and> ring_mask r = 2 ^ k - 1)"

text \<open>The cell of the \<open>i\<close>-th position counted from the head.\<close>

definition cell_ok :: "ring \<Rightarrow> nat \<Rightarrow> addr list \<Rightarrow> nat \<Rightarrow> bool" where
  "cell_ok r H xs i \<longleftrightarrow>
     (let c = ring_cells r ! ((H + i) mod length (ring_cells r)) in
      if i < length xs then rc_seq c = of_nat (H + i + 1) \<and> rc_task c = xs ! i
      else rc_seq c = of_nat (H + i))"

definition ring_at :: "ring \<Rightarrow> nat \<Rightarrow> addr list \<Rightarrow> bool" where
  "ring_at r H xs \<longleftrightarrow> ring_shape r \<and>
     ring_head r = of_nat H \<and> ring_tail r = of_nat (H + length xs) \<and>
     length xs \<le> length (ring_cells r) \<and> ring_count r = of_nat (length xs) \<and>
     (\<forall>i<length (ring_cells r). cell_ok r H xs i)"

definition ring_repr :: "ring \<Rightarrow> addr list \<Rightarrow> bool" where
  "ring_repr r xs \<longleftrightarrow> (\<exists>H. ring_at r H xs)"

lemma ring_shape_index: "ring_shape r \<Longrightarrow> unat (of_nat i AND ring_mask r) = i mod length (ring_cells r)"
  by (auto simp: ring_shape_def of_nat_mask)

lemma ring_shape_size:
  assumes "ring_shape r"
  shows "ring_size r = of_nat (length (ring_cells r))" "1 < length (ring_cells r)"
    "length (ring_cells r) < 2 ^ 64"
proof -
  obtain k where k: "0 < k" "k < 64" "length (ring_cells r) = 2 ^ k" "ring_size r = 2 ^ k"
    using assms by (auto simp: ring_shape_def)
  then show "ring_size r = of_nat (length (ring_cells r))" by simp
  show "1 < length (ring_cells r)" unfolding k(3) using k(1) by (intro one_less_power) simp_all
  have "(2::nat) ^ k < 2 ^ 64" using k(2) by (rule power_strict_increasing) simp
  then show "length (ring_cells r) < 2 ^ 64" using k by simp
qed

lemma ring_new_at: "0 < k \<Longrightarrow> k < 64 \<Longrightarrow> ring_at (ring_new k) 0 []"
  by (auto simp: ring_at_def ring_new_def ring_shape_def cell_ok_def Let_def)

lemma window_neq:
  fixes H i j n :: nat
  assumes "i < n" "j < n" "i \<noteq> j"
  shows "(H + i) mod n \<noteq> (H + j) mod n"
proof (cases "i < j")
  case True
  then show ?thesis using assms by (intro mod_window) auto
next
  case False
  then show ?thesis using assms by (intro mod_window [THEN not_sym]) auto
qed

lemma ring_has_work_iff: "ring_at r H xs \<Longrightarrow> ring_has_work r \<longleftrightarrow> xs \<noteq> []"
proof -
  assume at: "ring_at r H xs"
  then have sh: "ring_shape r" and c: "cell_ok r H xs 0" and h: "ring_head r = of_nat H"
    using ring_shape_size(2) by (fastforce simp: ring_at_def)+
  have "(of_nat H :: u64) \<noteq> of_nat (Suc H)" using of_nat_u64_inj [of H "Suc H"] by auto
  with c h show ?thesis
    by (cases xs) (auto simp: ring_has_work_def cell_ok_def Let_def ring_shape_index [OF sh] add.commute)
qed

lemma cell_first:
  assumes "ring_at r H xs" "xs \<noteq> []"
  shows "rc_seq (ring_cells r ! (H mod length (ring_cells r))) = of_nat (H + 1)"
proof -
  have "0 < length xs" using assms(2) by simp
  then have "0 < length (ring_cells r)" using assms(1) unfolding ring_at_def by linarith
  then have "cell_ok r H xs 0" using assms(1) unfolding ring_at_def by blast
  then show ?thesis using assms(2) by (simp add: cell_ok_def Let_def)
qed

lemma enqueue_spec:
  assumes at: "ring_at r H xs"
  shows "if length xs = length (ring_cells r) then ring_try_enqueue r idx a t = (False, r, idx)
         else \<exists>r'. ring_try_enqueue r idx a t = (True, r', cancel_index_insert idx a t) \<and>
                ring_at r' H (xs @ [a]) \<and> length (ring_cells r') = length (ring_cells r)"
proof -
  let ?n = "length (ring_cells r)" and ?T = "H + length xs"
  have sh: "ring_shape r" and tail: "ring_tail r = of_nat ?T" and le: "length xs \<le> ?n"
    and cells: "\<And>i. i < ?n \<Longrightarrow> cell_ok r H xs i" and cnt: "ring_count r = of_nat (length xs)"
    using at by (auto simp: ring_at_def)
  note size = ring_shape_size [OF sh]
  have pos: "unat (ring_tail r AND ring_mask r) = ?T mod ?n"
    using tail ring_shape_index [OF sh] by metis
  show ?thesis
  proof (cases "length xs = ?n")
    case True
    have "xs \<noteq> []" using True size by auto
    from cell_first [OF at this] have "rc_seq (ring_cells r ! (?T mod ?n)) = of_nat (H + 1)"
      using True by simp
    moreover have "H + 1 < ?T" "?T - (H + 1) < 2 ^ 64" using True size by linarith+
    then have "(of_nat (H + 1) :: u64) \<noteq> of_nat ?T"
      using of_nat_u64_inj [of "H + 1" ?T] by (metis less_imp_le less_irrefl)
    ultimately show ?thesis
      using True pos tail by (simp add: ring_try_enqueue_def Let_def)
  next
    case False
    then have lt: "length xs < ?n" using le by simp
    have p: "?T mod ?n < ?n" using size by (intro mod_less_divisor) linarith
    have "cell_ok r H xs (length xs)" using cells lt by simp
    then have seq: "rc_seq (ring_cells r ! (?T mod ?n)) = ring_tail r"
      using tail by (simp add: cell_ok_def Let_def)
    let ?c = "(ring_cells r ! (?T mod ?n))\<lparr>rc_task := a, rc_seq := ring_tail r + 1\<rparr>"
    let ?r = "r\<lparr>ring_tail := ring_tail r + 1, ring_cells := (ring_cells r)[?T mod ?n := ?c],
               ring_count := ring_count r + 1\<rparr>"
    have enq: "ring_try_enqueue r idx a t = (True, ?r, cancel_index_insert idx a t)"
      using seq pos p by (simp add: ring_try_enqueue_def Let_def)
    have "cell_ok ?r H (xs @ [a]) i" if i: "i < ?n" for i
    proof (cases "i = length xs")
      case True
      with p tail show ?thesis by (simp add: cell_ok_def Let_def)
    next
      case False
      have "(H + i) mod ?n \<noteq> ?T mod ?n" using window_neq [OF i lt False] .
      with False cells [OF i] show ?thesis
        by (simp add: cell_ok_def Let_def nth_append nth_list_update)
    qed
    moreover have "ring_shape ?r" using sh by (auto simp: ring_shape_def)
    ultimately have "ring_at ?r H (xs @ [a])"
      using at lt by (auto simp: ring_at_def)
    with enq False show ?thesis by auto
  qed
qed

lemma bulk_scan_spec:
  assumes at: "ring_at r H xs"
  shows "n \<le> length xs \<Longrightarrow> bulk_scan r (of_nat H) n m = take m (drop n xs)"
proof (induction m arbitrary: n)
  case (Suc m)
  let ?n = "length (ring_cells r)"
  have sh: "ring_shape r" and le: "length xs \<le> ?n"
    and cells: "\<And>i. i < ?n \<Longrightarrow> cell_ok r H xs i" using at by (auto simp: ring_at_def)
  note size = ring_shape_size [OF sh]
  have pos: "unat ((of_nat H + of_nat n) AND ring_mask r) = (H + n) mod ?n"
    using ring_shape_index [OF sh, of "H + n"] by simp
  show ?case
  proof (cases "n < length xs")
    case True
    with le have "cell_ok r H xs n" by (intro cells) simp
    with True Suc pos show ?thesis
      by (auto simp: cell_ok_def Let_def Cons_nth_drop_Suc [symmetric] add.commute)
  next
    case False
    have "rc_seq (ring_cells r ! ((H + n) mod ?n)) \<noteq> of_nat (H + n + 1)"
    proof (cases "n < ?n")
      case True
      have "(of_nat (H + n) :: u64) \<noteq> of_nat (H + n + 1)"
        using of_nat_u64_inj [of "H + n" "H + n + 1"] by auto
      with cells [OF True] False show ?thesis by (simp add: cell_ok_def Let_def)
    next
      case full: False
      then have n: "n = ?n" "length xs = ?n" using False Suc.prems le by auto
      have "xs \<noteq> []" using n size by auto
      from cell_first [OF at this] have "rc_seq (ring_cells r ! ((H + n) mod ?n)) = of_nat (H + 1)"
        using n by simp
      moreover have "(of_nat (H + 1) :: u64) \<noteq> of_nat (H + n + 1)"
        using of_nat_u64_inj [of "H + 1" "H + n + 1"] n(1) size by auto
      ultimately show ?thesis by simp
    qed
    with False pos Suc.prems show ?thesis by (simp add: Let_def add.commute add.left_commute)
  qed
qed simp

lemma bulk_release_frame [simp]:
  "length (ring_cells (bulk_release r want k m)) = length (ring_cells r)"
  "ring_head (bulk_release r want k m) = ring_head r"
  "ring_tail (bulk_release r want k m) = ring_tail r"
  "ring_size (bulk_release r want k m) = ring_size r"
  "ring_mask (bulk_release r want k m) = ring_mask r"
  "ring_count (bulk_release r want k m) = ring_count r"
  by (induction r want k m rule: bulk_release.induct) (simp_all add: Let_def)

lemma bulk_release_spec:
  "ring_shape r \<Longrightarrow> k + m \<le> length (ring_cells r) \<Longrightarrow> j < length (ring_cells r) \<Longrightarrow>
   ring_cells (bulk_release r (of_nat H) k m) ! ((H + j) mod length (ring_cells r)) =
     (if k \<le> j \<and> j < k + m
      then (ring_cells r ! ((H + j) mod length (ring_cells r)))\<lparr>rc_seq := of_nat (H + j) + ring_size r\<rparr>
      else ring_cells r ! ((H + j) mod length (ring_cells r)))"
proof (induction m arbitrary: k r)
  case (Suc m)
  let ?n = "length (ring_cells r)"
  let ?r = "r\<lparr>ring_cells := (ring_cells r)[(H + k) mod ?n :=
              (ring_cells r ! ((H + k) mod ?n))\<lparr>rc_seq := of_nat (H + k) + ring_size r\<rparr>]\<rparr>"
  have pos: "unat ((of_nat H + of_nat k) AND ring_mask r) = (H + k) mod ?n"
    using ring_shape_index [OF Suc.prems(1), of "H + k"] by simp
  have step: "bulk_release r (of_nat H) k (Suc m) = bulk_release ?r (of_nat H) (Suc k) m"
    using pos by (simp add: Let_def)
  have sh: "ring_shape ?r" using Suc.prems(1) by (auto simp: ring_shape_def)
  have p: "(H + k) mod ?n < ?n" using Suc.prems(3) by (intro mod_less_divisor) linarith
  note IH = Suc.IH [of ?r "Suc k", OF sh]
  show ?case
  proof (cases "j = k")
    case True
    then show ?thesis using IH Suc.prems p unfolding step by simp
  next
    case False
    have "(H + j) mod ?n \<noteq> (H + k) mod ?n"
      using window_neq [of j ?n k H] Suc.prems False by simp
    then show ?thesis using IH Suc.prems False unfolding step by auto
  qed
qed auto

text \<open>Releasing the first \<open>d\<close> cells moves the head past them.\<close>

lemma release_cells:
  assumes at: "ring_at r H xs" and d: "d \<le> length xs" and i: "i < length (ring_cells r)"
    and rel: "\<And>j. j < length (ring_cells r) \<Longrightarrow>
      ring_cells r' ! ((H + j) mod length (ring_cells r)) =
        (if j < d then (ring_cells r ! ((H + j) mod length (ring_cells r)))
                       \<lparr>rc_seq := of_nat (H + j + length (ring_cells r))\<rparr>
         else ring_cells r ! ((H + j) mod length (ring_cells r)))"
    and len: "length (ring_cells r') = length (ring_cells r)"
  shows "cell_ok r' (H + d) (drop d xs) i"
proof -
  let ?n = "length (ring_cells r)"
  have le: "length xs \<le> ?n" and cells: "\<And>i. i < ?n \<Longrightarrow> cell_ok r H xs i"
    using at by (auto simp: ring_at_def)
  show ?thesis
  proof (cases "d + i < ?n")
    case True
    with rel [OF True] cells [OF True] le len d show ?thesis
      by (auto simp: cell_ok_def Let_def add.assoc)
  next
    case False
    define j where "j = d + i - ?n"
    have j: "d + i = j + ?n" "j < d" "j < ?n" using False i le d by (auto simp: j_def)
    have "rc_seq (ring_cells r' ! ((H + j) mod ?n)) = of_nat (H + j + ?n)"
      using rel [OF j(3)] j(2) by simp
    moreover have "H + d + i = H + j + ?n" "\<not> i < length (drop d xs)" using j(1) False le by auto
    moreover from this(1) have "(H + d + i) mod ?n = (H + j) mod ?n" by (simp only: mod_add_self2)
    ultimately have "rc_seq (ring_cells r' ! ((H + d + i) mod ?n)) = of_nat (H + d + i)" by metis
    with \<open>\<not> i < length (drop d xs)\<close> show ?thesis by (simp add: cell_ok_def Let_def len)
  qed
qed

lemma dequeue_spec:
  assumes at: "ring_at r H xs"
  shows "\<exists>r' H'. ring_bulk_try_dequeue r m cas = (if cas then take m xs else [], r') \<and>
           ring_at r' H' (if cas then drop m xs else xs) \<and> length (ring_cells r') = length (ring_cells r)"
proof -
  let ?n = "length (ring_cells r)"
  define d where "d = length (take m xs)"
  have d: "d \<le> length xs" "take m xs = take d xs" "drop m xs = drop d xs"
    by (auto simp: d_def min_def)
  have sh: "ring_shape r" and head: "ring_head r = of_nat H" and le: "length xs \<le> ?n"
    using at by (auto simp: ring_at_def)
  have scan: "bulk_scan r (ring_head r) 0 m = take m xs"
    using bulk_scan_spec [OF at, of 0 m] head by simp
  show ?thesis
  proof (cases "d = 0 \<or> \<not> cas")
    case True
    then have "ring_bulk_try_dequeue r m cas = (if cas then take m xs else [], r)"
      using scan by (auto simp: ring_bulk_try_dequeue_def Let_def d_def)
    moreover have "(if cas then drop m xs else xs) = xs" using True d(3) by auto
    ultimately show ?thesis using at by metis
  next
    case False
    define ra where "ra = r\<lparr>ring_head := of_nat H + of_nat d\<rparr>"
    define rb where "rb = bulk_release ra (of_nat H) 0 d"
    define rc where "rc = rb\<lparr>ring_count := ring_count rb - of_nat d\<rparr>"
    have deq: "ring_bulk_try_dequeue r m cas = (take m xs, rc)"
      using False scan
      unfolding ring_bulk_try_dequeue_def Let_def head d_def [symmetric] ra_def rb_def rc_def
      by (simp only: d_def [symmetric]) simp
    have sha: "ring_shape ra" using sh by (auto simp: ring_shape_def ra_def)
    have len: "length (ring_cells rc) = ?n" by (simp add: rc_def rb_def ra_def)
    have "cell_ok rc (H + d) (drop d xs) i" if "i < ?n" for i
      using bulk_release_spec [OF sha, of 0 d _ H] d(1) le ring_shape_size(1) [OF sh] len
      by (intro release_cells [OF at d(1) that]) (auto simp: rc_def rb_def ra_def)
    moreover have "ring_shape rc" using sh by (auto simp: ring_shape_def rc_def rb_def ra_def)
    moreover have "ring_count rc = of_nat (length (drop d xs))"
      using at d(1) by (simp add: ring_at_def of_nat_diff rc_def rb_def ra_def)
    moreover have "ring_head rc = of_nat (H + d)" "ring_tail rc = of_nat (H + d + length (drop d xs))"
      using at d(1) by (simp_all add: ring_at_def rc_def rb_def ra_def)
    ultimately have "ring_at rc (H + d) (drop d xs)"
      using le len by (simp add: ring_at_def)
    with deq False d(3) len show ?thesis by (intro exI [of _ rc] exI [of _ "H + d"]) auto
  qed
qed

subsection \<open>Refinement of a bounded FIFO queue\<close>

datatype ring_op = Enq addr loom_task | Deq nat bool
datatype ring_res = Enqueued bool | Dequeued "addr list"

fun ring_step :: "ring \<times> cancel_index \<Rightarrow> ring_op \<Rightarrow> ring_res \<times> ring \<times> cancel_index" where
  "ring_step (r, idx) (Enq a t) = apfst Enqueued (ring_try_enqueue r idx a t)"
| "ring_step (r, idx) (Deq m cas) =
     (case ring_bulk_try_dequeue r m cas of (out, r') \<Rightarrow> (Dequeued out, r', idx))"

text \<open>The specification: a FIFO queue of at most \<open>n\<close> tasks; only accepted tasks are indexed.\<close>

fun fifo_step :: "nat \<Rightarrow> addr list \<times> cancel_index \<Rightarrow> ring_op \<Rightarrow> ring_res \<times> addr list \<times> cancel_index" where
  "fifo_step n (xs, idx) (Enq a t) =
     (if length xs = n then (Enqueued False, xs, idx)
      else (Enqueued True, xs @ [a], cancel_index_insert idx a t))"
| "fifo_step n (xs, idx) (Deq m cas) =
     (if cas then (Dequeued (take m xs), drop m xs, idx) else (Dequeued [], xs, idx))"

fun run_ring :: "ring \<times> cancel_index \<Rightarrow> ring_op list \<Rightarrow> ring_res list \<times> ring \<times> cancel_index" where
  "run_ring s [] = ([], s)"
| "run_ring s (op # ops) = (case ring_step s op of (r, s') \<Rightarrow> apfst (Cons r) (run_ring s' ops))"

fun run_fifo :: "nat \<Rightarrow> addr list \<times> cancel_index \<Rightarrow> ring_op list \<Rightarrow> ring_res list \<times> addr list \<times> cancel_index" where
  "run_fifo n s [] = ([], s)"
| "run_fifo n s (op # ops) = (case fifo_step n s op of (r, s') \<Rightarrow> apfst (Cons r) (run_fifo n s' ops))"

lemma ring_step_sim:
  assumes "ring_repr r xs" "n = length (ring_cells r)" "fifo_step n (xs, idx) op = (res, xs', idx')"
  shows "\<exists>r'. ring_step (r, idx) op = (res, r', idx') \<and> ring_repr r' xs' \<and> n = length (ring_cells r')"
proof -
  obtain H where H: "ring_at r H xs" using assms(1) by (auto simp: ring_repr_def)
  show ?thesis
  proof (cases op)
    case (Enq a t)
    with assms H enqueue_spec [OF H, of idx a t] show ?thesis
      by (auto simp: ring_repr_def split: if_splits)
  next
    case (Deq m cas)
    obtain r' H' where "ring_bulk_try_dequeue r m cas = (if cas then take m xs else [], r')"
      "ring_at r' H' (if cas then drop m xs else xs)" "length (ring_cells r') = length (ring_cells r)"
      using dequeue_spec [OF H] by blast
    with Deq assms show ?thesis by (auto simp: ring_repr_def split: if_splits)
  qed
qed

lemma run_ring_refines:
  "ring_repr r xs \<Longrightarrow> n = length (ring_cells r) \<Longrightarrow> run_fifo n (xs, idx) ops = (res, xs', idx') \<Longrightarrow>
   \<exists>r'. run_ring (r, idx) ops = (res, r', idx') \<and> ring_repr r' xs'"
proof (induction ops arbitrary: r xs idx res)
  case (Cons op ops)
  obtain r1 xs1 idx1 where step: "fifo_step n (xs, idx) op = (r1, xs1, idx1)" by (metis surj_pair)
  obtain ra where ra: "ring_step (r, idx) op = (r1, ra, idx1)" "ring_repr ra xs1" "n = length (ring_cells ra)"
    using ring_step_sim [OF Cons.prems(1,2) step] by blast
  obtain res1 where "run_fifo n (xs1, idx1) ops = (res1, xs', idx')" "res = r1 # res1"
    using Cons.prems(3) step by (cases "run_fifo n (xs1, idx1) ops") auto
  with Cons.IH [OF ra(2,3)] ra(1) show ?case by fastforce
qed simp

text \<open>
  C8.  From a fresh ring of \<open>2\<^sup>k\<close> cells (\<open>k \<ge> 1\<close>), every sequence of enqueues and bulk
  dequeues, however long, returns what a FIFO queue of \<open>2\<^sup>k\<close> tasks returns: an enqueue is
  refused only when all cells hold a task, tasks come out once and in submission order in
  batches of the requested size, a failed compare-and-swap takes nothing, and exactly
  the accepted tasks are entered into the cancel index.  The 64-bit positions may wrap.
\<close>

theorem ring_refines_fifo:
  assumes "0 < k" and "k < 64" and "run_fifo (2 ^ k) ([], idx) ops = (res, xs, idx')"
  shows "\<exists>r'. run_ring (ring_new k, idx) ops = (res, r', idx') \<and> ring_repr r' xs \<and>
           (ring_has_work r' \<longleftrightarrow> xs \<noteq> []) \<and> ring_count r' = of_nat (length xs)"
proof -
  have "ring_repr (ring_new k) []" "2 ^ k = length (ring_cells (ring_new k))"
    using ring_new_at [OF assms(1,2)] by (auto simp: ring_repr_def ring_new_def)
  from run_ring_refines [OF this assms(3)]
  obtain r' where r': "run_ring (ring_new k, idx) ops = (res, r', idx')" "ring_repr r' xs" by blast
  then obtain H where "ring_at r' H xs" by (auto simp: ring_repr_def)
  with r' ring_has_work_iff show ?thesis by (auto simp: ring_at_def)
qed

theorem ring_refines_fifo_witness:
  "fst (run_ring (ring_new 1, cancel_index_new 2)
     [Enq 10 (sample_task 2), Enq 11 (sample_task 3), Enq 12 (sample_task 4), Deq 8 False, Deq 1 True,
      Enq 12 (sample_task 4), Deq 8 True, Deq 8 True]) =
     [Enqueued True, Enqueued True, Enqueued False, Dequeued [], Dequeued [10],
      Enqueued True, Dequeued [11, 12], Dequeued []]"
proof -
  let ?ops = "[Enq 10 (sample_task 2), Enq 11 (sample_task 3), Enq 12 (sample_task 4), Deq 8 False,
    Deq 1 True, Enq 12 (sample_task 4), Deq 8 True, Deq 8 True]"
  have "run_fifo (2 ^ 1) ([], cancel_index_new 2) ?ops =
     ([Enqueued True, Enqueued True, Enqueued False, Dequeued [], Dequeued [10],
       Enqueued True, Dequeued [11, 12], Dequeued []], [],
      cancel_index_insert (cancel_index_insert (cancel_index_insert (cancel_index_new 2)
        10 (sample_task 2)) 11 (sample_task 3)) 12 (sample_task 4))" by simp
  from ring_refines_fifo [OF _ _ this] show ?thesis by auto
qed

end
