(* ===== verification/Ring_Concurrent.thy ===== *)
theory Ring_Concurrent
  imports Vyukov_Ring
begin

text \<open>
  The ring of \<open>Vyukov_Ring\<close> under concurrency: any number of producers run the loop of
  \<open>ring_try_enqueue\<close> without a lock while one consumer at a time (the worker that holds
  \<open>pool->lock\<close>) runs \<open>ring_bulk_try_dequeue\<close>.  Every atomic load, store and compare-and-swap
  is one step of \<open>rstep\<close>, interleaved arbitrarily; a weak compare-and-swap may fail for no
  reason.  The memory is sequentially consistent.  Positions are naturals here: a 64-bit
  position is the same as long as fewer than \<open>2\<^sup>6\<^sup>4\<close> tasks pass through the ring.
  \<open>r_hist\<close> and \<open>r_deq\<close> are ghost: the tasks in the order in which their position was claimed,
  and the tasks handed to the consumer.
\<close>

datatype producer =
    PIdle
  | PLoaded addr nat   \<comment> \<open>the tail has been read\<close>
  | PChecked addr nat  \<comment> \<open>the cell's sequence number was the tail\<close>
  | PClaimed addr nat  \<comment> \<open>the compare-and-swap won this position\<close>
  | PStored addr nat   \<comment> \<open>the task pointer is in the cell\<close>
  | PCount             \<comment> \<open>published, the counter not yet incremented\<close>

datatype consumer =
    CIdle
  | CScan nat nat "addr list"  \<comment> \<open>limit, head, tasks read so far\<close>
  | CSeen nat nat "addr list"  \<comment> \<open>the next sequence number matched\<close>
  | CTry nat "addr list"
  | CRelease nat nat nat       \<comment> \<open>old head, tasks taken, cells released so far\<close>

record rstate =
  r_seq :: "nat \<Rightarrow> nat"
  r_task :: "nat \<Rightarrow> addr"
  r_head :: nat
  r_tail :: nat
  r_count :: int
  r_prod :: "nat \<Rightarrow> producer"
  r_cons :: consumer
  r_hist :: "addr list"
  r_deq :: "addr list"

inductive rstep :: "nat \<Rightarrow> rstate \<Rightarrow> rstate \<Rightarrow> bool" for N :: nat where
  p_load: "r_prod s p = PIdle \<Longrightarrow>
    rstep N s (s\<lparr>r_prod := (r_prod s)(p := PLoaded a (r_tail s))\<rparr>)"
| p_full: "r_prod s p = PLoaded a t \<Longrightarrow> r_seq s (t mod N) \<noteq> t \<Longrightarrow>
    rstep N s (s\<lparr>r_prod := (r_prod s)(p := PIdle)\<rparr>)"
| p_check: "r_prod s p = PLoaded a t \<Longrightarrow> r_seq s (t mod N) = t \<Longrightarrow>
    rstep N s (s\<lparr>r_prod := (r_prod s)(p := PChecked a t)\<rparr>)"
| p_cas_fail: "r_prod s p = PChecked a t \<Longrightarrow>
    rstep N s (s\<lparr>r_prod := (r_prod s)(p := PLoaded a (r_tail s))\<rparr>)"
| p_cas: "r_prod s p = PChecked a t \<Longrightarrow> r_tail s = t \<Longrightarrow>
    rstep N s (s\<lparr>r_tail := t + 1, r_hist := r_hist s @ [a],
                 r_prod := (r_prod s)(p := PClaimed a t)\<rparr>)"
| p_store: "r_prod s p = PClaimed a t \<Longrightarrow>
    rstep N s (s\<lparr>r_task := (r_task s)(t mod N := a), r_prod := (r_prod s)(p := PStored a t)\<rparr>)"
| p_publish: "r_prod s p = PStored a t \<Longrightarrow>
    rstep N s (s\<lparr>r_seq := (r_seq s)(t mod N := t + 1), r_prod := (r_prod s)(p := PCount)\<rparr>)"
| p_count: "r_prod s p = PCount \<Longrightarrow>
    rstep N s (s\<lparr>r_count := r_count s + 1, r_prod := (r_prod s)(p := PIdle)\<rparr>)"
| c_load: "r_cons s = CIdle \<Longrightarrow>
    rstep N s (s\<lparr>r_cons := CScan lim (r_head s) []\<rparr>)"
| c_see: "r_cons s = CScan lim h out \<Longrightarrow> length out < lim \<Longrightarrow>
    r_seq s ((h + length out) mod N) = h + length out + 1 \<Longrightarrow>
    rstep N s (s\<lparr>r_cons := CSeen lim h out\<rparr>)"
| c_read: "r_cons s = CSeen lim h out \<Longrightarrow>
    rstep N s (s\<lparr>r_cons := CScan lim h (out @ [r_task s ((h + length out) mod N)])\<rparr>)"
| c_stop: "r_cons s = CScan lim h out \<Longrightarrow>
    length out = lim \<or> r_seq s ((h + length out) mod N) \<noteq> h + length out + 1 \<Longrightarrow>
    rstep N s (s\<lparr>r_cons := (if out = [] then CIdle else CTry h out)\<rparr>)"
| c_cas_fail: "r_cons s = CTry h out \<Longrightarrow> rstep N s (s\<lparr>r_cons := CIdle\<rparr>)"
| c_cas: "r_cons s = CTry h out \<Longrightarrow> r_head s = h \<Longrightarrow>
    rstep N s (s\<lparr>r_head := h + length out, r_deq := r_deq s @ out,
                 r_cons := CRelease h (length out) 0\<rparr>)"
| c_release: "r_cons s = CRelease h n k \<Longrightarrow> k < n \<Longrightarrow>
    rstep N s (s\<lparr>r_seq := (r_seq s)((h + k) mod N := h + k + N), r_cons := CRelease h n (k + 1)\<rparr>)"
| c_done: "r_cons s = CRelease h n n \<Longrightarrow>
    rstep N s (s\<lparr>r_count := r_count s - int n, r_cons := CIdle\<rparr>)"

definition rinit :: "rstate" where
  "rinit = \<lparr>r_seq = (\<lambda>i. i), r_task = (\<lambda>i. 0), r_head = 0, r_tail = 0, r_count = 0,
            r_prod = (\<lambda>p. PIdle), r_cons = CIdle, r_hist = [], r_deq = []\<rparr>"

inductive rreach :: "nat \<Rightarrow> rstate \<Rightarrow> bool" for N :: nat where
  rreach_init: "rreach N rinit"
| rreach_step: "rreach N s \<Longrightarrow> rstep N s s' \<Longrightarrow> rreach N s'"

subsection \<open>The invariant\<close>

text \<open>The oldest position whose cell is not yet released.\<close>

definition low :: "rstate \<Rightarrow> nat" where
  "low s = (case r_cons s of CRelease h n k \<Rightarrow> h + k | _ \<Rightarrow> r_head s)"

definition published :: "nat \<Rightarrow> rstate \<Rightarrow> nat \<Rightarrow> bool" where
  "published N s i \<longleftrightarrow> i < r_tail s \<and> r_seq s (i mod N) = i + 1 \<and> r_task s (i mod N) = r_hist s ! i"

definition owned :: "rstate \<Rightarrow> nat \<Rightarrow> bool" where
  "owned s i \<longleftrightarrow> (\<exists>p. r_prod s p = PClaimed (r_hist s ! i) i \<or> r_prod s p = PStored (r_hist s ! i) i)"

definition prod_ok :: "nat \<Rightarrow> rstate \<Rightarrow> producer \<Rightarrow> bool" where
  "prod_ok N s w \<longleftrightarrow>
     (case w of
        PChecked a t \<Rightarrow> t \<le> r_tail s \<and> (t = r_tail s \<longrightarrow> t < low s + N)
      | PLoaded a t \<Rightarrow> t \<le> r_tail s
      | PClaimed a t \<Rightarrow> r_head s \<le> t \<and> t < r_tail s \<and> r_hist s ! t = a \<and> r_seq s (t mod N) = t
      | PStored a t \<Rightarrow> r_head s \<le> t \<and> t < r_tail s \<and> r_hist s ! t = a \<and> r_seq s (t mod N) = t \<and>
                      r_task s (t mod N) = a
      | _ \<Rightarrow> True)"

fun claim_of :: "producer \<Rightarrow> nat option" where
  "claim_of (PClaimed a t) = Some t"
| "claim_of (PStored a t) = Some t"
| "claim_of _ = None"

definition scanned :: "nat \<Rightarrow> rstate \<Rightarrow> nat \<Rightarrow> addr list \<Rightarrow> bool" where
  "scanned N s h out \<longleftrightarrow> h = r_head s \<and> h + length out \<le> r_tail s \<and>
     take (length out) (drop h (r_hist s)) = out \<and>
     (\<forall>i. h \<le> i \<longrightarrow> i < h + length out \<longrightarrow> published N s i)"

definition cons_ok :: "nat \<Rightarrow> rstate \<Rightarrow> bool" where
  "cons_ok N s \<longleftrightarrow>
     (case r_cons s of
        CIdle \<Rightarrow> True
      | CScan lim h out \<Rightarrow> scanned N s h out
      | CSeen lim h out \<Rightarrow> scanned N s h out \<and> published N s (h + length out)
      | CTry h out \<Rightarrow> scanned N s h out
      | CRelease h n k \<Rightarrow> h + n = r_head s \<and> k \<le> n \<and>
          (\<forall>i. h + k \<le> i \<longrightarrow> i < r_head s \<longrightarrow> published N s i))"

definition cells_ok :: "nat \<Rightarrow> rstate \<Rightarrow> bool" where
  "cells_ok N s \<longleftrightarrow>
     (\<forall>i. low s \<le> i \<longrightarrow> i < low s + N \<longrightarrow>
        (if r_tail s \<le> i then r_seq s (i mod N) = i
         else published N s i \<or> r_seq s (i mod N) = i \<and> owned s i))"

definition pos_ok :: "nat \<Rightarrow> rstate \<Rightarrow> bool" where
  "pos_ok N s \<longleftrightarrow> low s \<le> r_head s \<and> r_head s \<le> r_tail s \<and> r_tail s \<le> low s + N \<and>
     length (r_hist s) = r_tail s \<and> r_deq s = take (r_head s) (r_hist s)"

definition claims_ok :: "rstate \<Rightarrow> bool" where
  "claims_ok s \<longleftrightarrow> (\<forall>p q t. claim_of (r_prod s p) = Some t \<longrightarrow> claim_of (r_prod s q) = Some t \<longrightarrow> p = q)"

definition rinv :: "nat \<Rightarrow> rstate \<Rightarrow> bool" where
  "rinv N s \<longleftrightarrow> pos_ok N s \<and> cells_ok N s \<and> cons_ok N s \<and> claims_ok s \<and> (\<forall>p. prod_ok N s (r_prod s p))"

lemmas rinv_defs = rinv_def pos_ok_def cells_ok_def cons_ok_def claims_ok_def prod_ok_def
  scanned_def published_def owned_def low_def

lemma cell_inj:
  fixes i j :: nat
  assumes "l \<le> i" "i < l + N" "l \<le> j" "j < l + N"
  shows "i mod N = j mod N \<longleftrightarrow> i = j"
  using mod_window [of i j N] mod_window [of j i N] assms
  by (metis add_less_cancel_right less_le_trans linorder_neqE_nat add_le_cancel_right)

lemma rinv_init: "0 < N \<Longrightarrow> rinv N rinit"
  by (auto simp: rinv_defs rinit_def)

lemma low_frame [simp]:
  "low (s\<lparr>r_seq := x\<rparr>) = low s" "low (s\<lparr>r_task := y\<rparr>) = low s" "low (s\<lparr>r_tail := n\<rparr>) = low s"
  "low (s\<lparr>r_count := c\<rparr>) = low s" "low (s\<lparr>r_prod := f\<rparr>) = low s" "low (s\<lparr>r_hist := xs\<rparr>) = low s"
  "low (s\<lparr>r_deq := xs\<rparr>) = low s"
  by (cases "r_cons s"; simp add: low_def)+

text \<open>The consumer's view survives every step that only adds positions and publications.\<close>

lemma cons_ok_mono:
  assumes "cons_ok N s" "pos_ok N s" "r_cons s' = r_cons s" "r_head s' = r_head s" "r_tail s \<le> r_tail s'"
    "r_hist s' = r_hist s @ xs" "\<And>i. low s \<le> i \<Longrightarrow> published N s i \<Longrightarrow> published N s' i"
  shows "cons_ok N s'"
proof -
  have scan: "scanned N s' h out" if "scanned N s h out" for h out
    using that assms(2,4-7) by (auto simp: scanned_def pos_ok_def)
  show ?thesis
    using assms(1-4,7) scan
    by (cases "r_cons s") (auto simp: cons_ok_def low_def pos_ok_def scanned_def)
qed

subsection \<open>Producer steps\<close>

lemma rinv_prod:
  assumes "rinv N s" "claim_of (r_prod s p) = None" "claim_of w = None" "prod_ok N s w"
  shows "rinv N (s\<lparr>r_count := c, r_prod := (r_prod s)(p := w)\<rparr>)"
proof -
  let ?s = "s\<lparr>r_count := c, r_prod := (r_prod s)(p := w)\<rparr>"
  have "r_prod s p \<noteq> PClaimed b i" "r_prod s p \<noteq> PStored b i" "w \<noteq> PClaimed b i" "w \<noteq> PStored b i" for b i
    using assms(2,3) by auto
  then have "owned ?s i = owned s i" for i by (simp add: owned_def) metis
  moreover have "published N ?s = published N s" "low ?s = low s"
    by (auto simp: published_def low_def split: consumer.splits)
  moreover have "prod_ok N ?s v = prod_ok N s v" for v
    using \<open>low ?s = low s\<close> by (cases v) (simp_all add: prod_ok_def)
  ultimately show ?thesis
    using assms unfolding rinv_def
    by (auto simp: pos_ok_def cells_ok_def cons_ok_def scanned_def claims_ok_def split: consumer.splits)
qed

lemma tail_free:
  assumes "rinv N s" "1 < N" "r_seq s (r_tail s mod N) = r_tail s"
  shows "r_tail s < low s + N"
proof (rule ccontr)
  assume "\<not> r_tail s < low s + N"
  then have t: "r_tail s = low s + N" using assms(1) by (simp add: rinv_def pos_ok_def)
  have "published N s (low s) \<or> r_seq s (low s mod N) = low s"
    using assms(1,2) t unfolding rinv_def cells_ok_def by auto
  with assms(2,3) t show False by (auto simp: published_def)
qed

lemma rinv_cas:
  assumes inv: "rinv N s" and p: "r_prod s p = PChecked a (r_tail s)"
  shows "rinv N (s\<lparr>r_tail := r_tail s + 1, r_hist := r_hist s @ [a],
                   r_prod := (r_prod s)(p := PClaimed a (r_tail s))\<rparr>)" (is "rinv N ?s")
proof -
  have pos: "pos_ok N s" and cells: "cells_ok N s" and cons: "cons_ok N s" and claims: "claims_ok s"
    and prods: "\<And>q. prod_ok N s (r_prod s q)" using inv by (auto simp: rinv_def)
  have lt: "r_tail s < low s + N" using prods [of p] p by (simp add: prod_ok_def)
  have len: "length (r_hist s) = r_tail s" using pos by (simp add: pos_ok_def)
  have pub: "published N ?s i" if "published N s i" for i
    using that len by (simp add: published_def nth_append)
  have own: "owned ?s i" if o: "owned s i" "i < r_tail s" for i
  proof -
    obtain q where q: "r_prod s q = PClaimed (r_hist s ! i) i \<or> r_prod s q = PStored (r_hist s ! i) i"
      using o(1) by (auto simp: owned_def)
    with p have "q \<noteq> p" by auto
    with q that(2) len show ?thesis by (auto simp: owned_def nth_append intro!: exI [of _ q])
  qed
  have free: "r_seq s (r_tail s mod N) = r_tail s"
    using cells lt pos unfolding cells_ok_def pos_ok_def by (metis le_trans order_refl)
  have "pos_ok N ?s" using pos lt by (auto simp: pos_ok_def)
  moreover have "cells_ok N ?s"
    unfolding cells_ok_def
  proof (intro allI impI)
    fix i assume "low ?s \<le> i" "i < low ?s + N"
    then have i: "low s \<le> i" "i < low s + N" by simp_all
    have "owned ?s (r_tail s)" using len by (auto simp: owned_def nth_append)
    with i cells free pub own show "if r_tail ?s \<le> i then r_seq ?s (i mod N) = i
       else published N ?s i \<or> r_seq ?s (i mod N) = i \<and> owned ?s i"
      unfolding cells_ok_def by (cases "i = r_tail s") (auto split: if_splits)
  qed
  moreover have "cons_ok N ?s" using pub by (intro cons_ok_mono [OF cons pos]) auto
  moreover have "claims_ok ?s"
  proof -
    have "t < r_tail s" if "claim_of (r_prod s q) = Some t" for q t
      using prods [of q] that by (cases "r_prod s q") (auto simp: prod_ok_def)
    with claims show ?thesis by (fastforce simp: claims_ok_def)
  qed
  moreover have "prod_ok N ?s (r_prod ?s q)" for q
    using prods [of q] pos free len
    by (cases "r_prod s q") (auto simp: prod_ok_def nth_append pos_ok_def)
  ultimately show ?thesis by (simp add: rinv_def)
qed

text \<open>A claimed position lies in the window of unreleased cells.\<close>

lemma claim_window:
  assumes "rinv N s" "claim_of (r_prod s p) = Some t"
  shows "low s \<le> t" "t < low s + N" "r_head s \<le> t" "t < r_tail s" "r_seq s (t mod N) = t"
    "\<not> published N s t"
proof -
  have "prod_ok N s (r_prod s p)" "pos_ok N s" using assms(1) by (auto simp: rinv_def)
  with assms(2) show "low s \<le> t" "t < low s + N" "r_head s \<le> t" "t < r_tail s" "r_seq s (t mod N) = t"
    by (cases "r_prod s p"; simp add: prod_ok_def pos_ok_def)+
  then show "\<not> published N s t" by (simp add: published_def)
qed

lemma rinv_store:
  assumes inv: "rinv N s" and p: "r_prod s p = PClaimed a t"
  shows "rinv N (s\<lparr>r_task := (r_task s)(t mod N := a), r_prod := (r_prod s)(p := PStored a t)\<rparr>)"
    (is "rinv N ?s")
proof -
  have pos: "pos_ok N s" and cells: "cells_ok N s" and cons: "cons_ok N s" and claims: "claims_ok s"
    and prods: "\<And>q. prod_ok N s (r_prod s q)" using inv by (auto simp: rinv_def)
  have c: "claim_of (r_prod s p) = Some t" using p by simp
  note w = claim_window [OF inv c]
  have other: "i mod N \<noteq> t mod N" if "low s \<le> i" "i < low s + N" "i \<noteq> t" for i
    using cell_inj [of "low s" i N t] that w by simp
  have pub: "published N ?s i" if "published N s i" "low s \<le> i" for i
  proof -
    have "i < low s + N" using that(1) pos by (auto simp: published_def pos_ok_def)
    moreover have "i \<noteq> t" using that(1) w(6) by auto
    ultimately show ?thesis using other that by (simp add: published_def)
  qed
  have own: "owned ?s i" if o: "owned s i" for i
  proof -
    obtain q where q: "r_prod s q = PClaimed (r_hist s ! i) i \<or> r_prod s q = PStored (r_hist s ! i) i"
      using o by (auto simp: owned_def)
    with p show ?thesis by (cases "q = p") (auto simp: owned_def intro!: exI [of _ q])
  qed
  have "pos_ok N ?s" using pos by (simp add: pos_ok_def)
  moreover have "cells_ok N ?s"
    using cells pub own unfolding cells_ok_def by (auto split: if_splits)
  moreover have "cons_ok N ?s" using pub by (intro cons_ok_mono [OF cons pos]) auto
  moreover have "claims_ok ?s" using claims p by (auto simp: claims_ok_def)
  moreover have "prod_ok N ?s (r_prod ?s q)" for q
  proof (cases "q = p")
    case True
    with prods [of p] p show ?thesis by (simp add: prod_ok_def)
  next
    case False
    have "u mod N \<noteq> t mod N" if "claim_of (r_prod s q) = Some u" for u
      using False claims c that claim_window [OF inv that] by (intro other) (auto simp: claims_ok_def)
    with False prods [of q] show ?thesis
      by (cases "r_prod s q") (simp_all add: prod_ok_def)
  qed
  ultimately show ?thesis by (simp add: rinv_def)
qed

lemma rinv_publish:
  assumes inv: "rinv N s" and p: "r_prod s p = PStored a t"
  shows "rinv N (s\<lparr>r_seq := (r_seq s)(t mod N := t + 1), r_prod := (r_prod s)(p := PCount)\<rparr>)"
    (is "rinv N ?s")
proof -
  have pos: "pos_ok N s" and cells: "cells_ok N s" and cons: "cons_ok N s" and claims: "claims_ok s"
    and prods: "\<And>q. prod_ok N s (r_prod s q)" using inv by (auto simp: rinv_def)
  have c: "claim_of (r_prod s p) = Some t" using p by simp
  note w = claim_window [OF inv c]
  have other: "i mod N \<noteq> t mod N" if "low s \<le> i" "i < low s + N" "i \<noteq> t" for i
    using cell_inj [of "low s" i N t] that w by simp
  have pub: "published N ?s i" if "published N s i" "low s \<le> i" for i
  proof -
    have "i < low s + N" using that(1) pos by (auto simp: published_def pos_ok_def)
    moreover have "i \<noteq> t" using that(1) w(6) by auto
    ultimately show ?thesis using other that by (simp add: published_def)
  qed
  have new: "published N ?s t" using prods [of p] p w by (simp add: prod_ok_def published_def)
  have own: "owned ?s i" if o: "owned s i" "i \<noteq> t" for i
  proof -
    obtain q where q: "r_prod s q = PClaimed (r_hist s ! i) i \<or> r_prod s q = PStored (r_hist s ! i) i"
      using o(1) by (auto simp: owned_def)
    with p that(2) have "q \<noteq> p" by auto
    with q show ?thesis by (auto simp: owned_def intro!: exI [of _ q])
  qed
  have "pos_ok N ?s" using pos by (simp add: pos_ok_def)
  moreover have "cells_ok N ?s"
    unfolding cells_ok_def
  proof (intro allI impI)
    fix i assume "low ?s \<le> i" "i < low ?s + N"
    then have i: "low s \<le> i" "i < low s + N" by simp_all
    show "if r_tail ?s \<le> i then r_seq ?s (i mod N) = i
       else published N ?s i \<or> r_seq ?s (i mod N) = i \<and> owned ?s i"
    proof (cases "i = t")
      case True
      with new w(4) show ?thesis by simp
    next
      case False
      with i cells pub [of i] own [of i] other [of i] show ?thesis
        unfolding cells_ok_def by (auto split: if_splits)
    qed
  qed
  moreover have "cons_ok N ?s" using pub by (intro cons_ok_mono [OF cons pos]) auto
  moreover have "claims_ok ?s" using claims by (auto simp: claims_ok_def)
  moreover have "prod_ok N ?s (r_prod ?s q)" for q
  proof (cases "q = p")
    case True
    then show ?thesis by (simp add: prod_ok_def)
  next
    case False
    have "u mod N \<noteq> t mod N" if "claim_of (r_prod s q) = Some u" for u
      using False claims c that claim_window [OF inv that] by (intro other) (auto simp: claims_ok_def)
    with False prods [of q] show ?thesis
      by (cases "r_prod s q") (simp_all add: prod_ok_def)
  qed
  ultimately show ?thesis by (simp add: rinv_def)
qed

subsection \<open>Consumer steps\<close>

lemma rinv_cons:
  assumes "rinv N s" "low (s\<lparr>r_cons := c\<rparr>) = low s" "cons_ok N (s\<lparr>r_cons := c\<rparr>)"
  shows "rinv N (s\<lparr>r_count := n, r_cons := c\<rparr>)"
proof -
  let ?s = "s\<lparr>r_count := n, r_cons := c\<rparr>"
  have low: "low ?s = low s" using assms(2) by (simp add: low_def split: consumer.splits)
  have pub: "published N ?s = published N s" and own: "owned ?s = owned s"
    by (auto simp: published_def owned_def)
  have "prod_ok N ?s w = prod_ok N s w" for w
    using low by (cases w) (simp_all add: prod_ok_def)
  moreover have "cons_ok N ?s"
    using assms(3) by (simp add: cons_ok_def scanned_def published_def split: consumer.splits)
  ultimately show ?thesis
    using assms(1) low pub own
    by (simp add: rinv_def pos_ok_def cells_ok_def claims_ok_def)
qed

text \<open>A sequence number one past a position of the window shows a published task.\<close>

lemma seq_published:
  assumes "rinv N s" "1 < N" "low s = r_head s" "n \<le> N"
    "r_seq s ((r_head s + n) mod N) = r_head s + n + 1" "r_head s + n \<le> r_tail s"
  shows "published N s (r_head s + n)"
proof -
  let ?i = "r_head s + n"
  have cells: "cells_ok N s" using assms(1) by (simp add: rinv_def)
  show ?thesis
  proof (cases "n < N")
    case True
    then have "low s \<le> ?i" "?i < low s + N" using assms(3) by auto
    with cells have "if r_tail s \<le> ?i then r_seq s (?i mod N) = ?i
        else published N s ?i \<or> r_seq s (?i mod N) = ?i \<and> owned s ?i"
      unfolding cells_ok_def by blast
    with assms(5) show ?thesis by (auto split: if_splits)
  next
    case False
    then have n: "n = N" using assms(4) by simp
    have "low s < low s + N" using assms(2) by simp
    with cells have "if r_tail s \<le> low s then r_seq s (low s mod N) = low s
        else published N s (low s) \<or> r_seq s (low s mod N) = low s \<and> owned s (low s)"
      unfolding cells_ok_def by blast
    with assms(2,3,5) n show ?thesis by (auto simp: published_def split: if_splits)
  qed
qed

lemma rinv_see:
  assumes inv: "rinv N s" "1 < N" and c: "r_cons s = CScan lim h out"
    and seq: "r_seq s ((h + length out) mod N) = h + length out + 1"
  shows "rinv N (s\<lparr>r_cons := CSeen lim h out\<rparr>)"
proof -
  have sc: "scanned N s h out" and pos: "pos_ok N s" using inv(1) c by (auto simp: rinv_def cons_ok_def)
  have low: "low s = r_head s" using c by (simp add: low_def)
  have "published N s (h + length out)"
    using sc pos low seq by (auto simp: scanned_def pos_ok_def intro!: seq_published [OF inv])
  then have "cons_ok N (s\<lparr>r_cons := CSeen lim h out\<rparr>)"
    using sc by (auto simp: cons_ok_def scanned_def published_def)
  with rinv_cons [OF inv(1), of "CSeen lim h out" "r_count s"] low show ?thesis by (simp add: low_def)
qed

lemma rinv_read:
  assumes inv: "rinv N s" and c: "r_cons s = CSeen lim h out"
  shows "rinv N (s\<lparr>r_cons := CScan lim h (out @ [r_task s ((h + length out) mod N)])\<rparr>)"
proof -
  let ?i = "h + length out"
  have sc: "scanned N s h out" "published N s ?i" and pos: "pos_ok N s"
    using inv c by (auto simp: rinv_def cons_ok_def)
  have low: "low s = r_head s" using c by (simp add: low_def)
  have "take (Suc (length out)) (drop h (r_hist s)) = out @ [r_hist s ! ?i]"
    using sc pos by (auto simp: scanned_def published_def pos_ok_def take_Suc_conv_app_nth)
  then have "scanned N s h (out @ [r_task s (?i mod N)])"
    using sc by (auto simp: scanned_def published_def less_Suc_eq)
  then have "cons_ok N (s\<lparr>r_cons := CScan lim h (out @ [r_task s (?i mod N)])\<rparr>)"
    by (auto simp: cons_ok_def scanned_def published_def)
  with rinv_cons [OF inv, of "CScan lim h (out @ [r_task s (?i mod N)])" "r_count s"] low
  show ?thesis by (simp add: low_def)
qed

lemma rinv_take:
  assumes inv: "rinv N s" and c: "r_cons s = CTry h out" and h: "r_head s = h"
  shows "rinv N (s\<lparr>r_head := h + length out, r_deq := r_deq s @ out, r_cons := CRelease h (length out) 0\<rparr>)"
    (is "rinv N ?s")
proof -
  have pos: "pos_ok N s" and cells: "cells_ok N s" and claims: "claims_ok s"
    and prods: "\<And>q. prod_ok N s (r_prod s q)" and sc: "scanned N s h out"
    using inv c by (auto simp: rinv_def cons_ok_def)
  have low: "low ?s = low s" "low s = h" using c h by (simp_all add: low_def)
  have pub: "published N ?s = published N s" and own: "owned ?s = owned s"
    by (auto simp: published_def owned_def)
  have "take (h + length out) (r_hist s) = take h (r_hist s) @ out"
    using sc by (auto simp: scanned_def take_add)
  then have "pos_ok N ?s" using pos sc h low by (auto simp: pos_ok_def scanned_def)
  moreover have "cells_ok N ?s" using cells by (simp add: cells_ok_def low pub own)
  moreover have "\<forall>i. h \<le> i \<longrightarrow> i < h + length out \<longrightarrow> published N ?s i"
    unfolding pub using sc by (simp add: scanned_def)
  then have "cons_ok N ?s" by (simp add: cons_ok_def)
  moreover have "claims_ok ?s" using claims by (simp add: claims_ok_def)
  moreover have "prod_ok N ?s (r_prod ?s q)" for q
  proof -
    have "h + length out \<le> t" if "claim_of (r_prod s q) = Some t" for t
    proof (rule ccontr)
      assume "\<not> h + length out \<le> t"
      with claim_window [OF inv that] sc h show False by (auto simp: scanned_def)
    qed
    with prods [of q] show ?thesis by (cases "r_prod s q") (simp_all add: prod_ok_def low)
  qed
  ultimately show ?thesis by (simp add: rinv_def)
qed

lemma rinv_release:
  assumes inv: "rinv N s" "1 < N" and c: "r_cons s = CRelease h n k" and k: "k < n"
  shows "rinv N (s\<lparr>r_seq := (r_seq s)((h + k) mod N := h + k + N), r_cons := CRelease h n (k + 1)\<rparr>)"
    (is "rinv N ?s")
proof -
  have pos: "pos_ok N s" and cells: "cells_ok N s" and claims: "claims_ok s"
    and prods: "\<And>q. prod_ok N s (r_prod s q)"
    and co: "h + n = r_head s" "\<forall>i. h + k \<le> i \<longrightarrow> i < r_head s \<longrightarrow> published N s i"
    using inv(1) c by (auto simp: rinv_def cons_ok_def)
  have low: "low s = h + k" "low ?s = Suc (h + k)" using c by (simp_all add: low_def)
  have other: "i mod N \<noteq> (h + k) mod N" if "h + k < i" "i < h + k + N" for i
    using cell_inj [of "h + k" i N "h + k"] that inv(2) by simp
  have pub: "published N ?s i" if "published N s i" "h + k < i" for i
  proof -
    have "i < h + k + N" using that(1) pos low by (auto simp: published_def pos_ok_def)
    with other that show ?thesis by (simp add: published_def)
  qed
  have own: "owned ?s = owned s" by (auto simp: owned_def)
  have "pos_ok N ?s" using pos low k co by (auto simp: pos_ok_def)
  moreover have "cells_ok N ?s"
    unfolding cells_ok_def low(2)
  proof (intro allI impI)
    fix i assume i: "Suc (h + k) \<le> i" "i < Suc (h + k) + N"
    show "if r_tail ?s \<le> i then r_seq ?s (i mod N) = i
       else published N ?s i \<or> r_seq ?s (i mod N) = i \<and> owned ?s i"
    proof (cases "i = h + k + N")
      case True
      then show ?thesis using pos low by (simp add: pos_ok_def)
    next
      case False
      with i have "h + k < i" "i < h + k + N" by auto
      with cells pub [of i] other [of i] show ?thesis
        unfolding cells_ok_def low own by (auto split: if_splits)
    qed
  qed
  moreover have "cons_ok N ?s"
    using co k pub by (auto simp: cons_ok_def)
  moreover have "claims_ok ?s" using claims by (simp add: claims_ok_def)
  moreover have "prod_ok N ?s (r_prod ?s q)" for q
  proof -
    have "t mod N \<noteq> (h + k) mod N" if "claim_of (r_prod s q) = Some t" for t
      using claim_window [OF inv(1) that] co k low by (intro other) auto
    with prods [of q] low show ?thesis by (cases "r_prod s q") (auto simp: prod_ok_def)
  qed
  ultimately show ?thesis by (simp add: rinv_def)
qed

lemma rinv_step:
  assumes "rinv N s" "1 < N" "rstep N s s'"
  shows "rinv N s'"
  using assms(3)
proof cases
  case (p_load p a)
  then show ?thesis using rinv_prod [OF assms(1), of p "PLoaded a (r_tail s)" "r_count s"]
    by (simp add: prod_ok_def)
next
  case (p_full p a t)
  then show ?thesis using rinv_prod [OF assms(1), of p PIdle "r_count s"] by (simp add: prod_ok_def)
next
  case (p_check p a t)
  have "prod_ok N s (r_prod s p)" using assms(1) by (simp add: rinv_def)
  then have "t \<le> r_tail s" using p_check(2) by (simp add: prod_ok_def)
  with p_check show ?thesis
    using rinv_prod [OF assms(1), of p "PChecked a t" "r_count s"] tail_free [OF assms(1,2)]
    by (auto simp: prod_ok_def)
next
  case (p_cas_fail p a t)
  then show ?thesis using rinv_prod [OF assms(1), of p "PLoaded a (r_tail s)" "r_count s"]
    by (simp add: prod_ok_def)
next
  case (p_cas p a t)
  then show ?thesis using rinv_cas [OF assms(1), of p a] by simp
next
  case (p_store p a t)
  then show ?thesis using rinv_store [OF assms(1)] by simp
next
  case (p_publish p a t)
  then show ?thesis using rinv_publish [OF assms(1)] by simp
next
  case (p_count p)
  then show ?thesis using rinv_prod [OF assms(1), of p PIdle "r_count s + 1"] by (simp add: prod_ok_def)
next
  case (c_load lim)
  then show ?thesis
    using rinv_cons [OF assms(1), of "CScan lim (r_head s) []" "r_count s"] assms(1)
    by (simp add: low_def cons_ok_def scanned_def rinv_def pos_ok_def)
next
  case (c_see lim h out)
  then show ?thesis using rinv_see [OF assms(1,2)] by simp
next
  case (c_read lim h out)
  then show ?thesis using rinv_read [OF assms(1)] by simp
next
  case (c_stop lim h out)
  have "cons_ok N (s\<lparr>r_cons := (if out = [] then CIdle else CTry h out)\<rparr>)"
    using assms(1) c_stop(2) by (auto simp: rinv_def cons_ok_def scanned_def published_def)
  with c_stop show ?thesis
    using rinv_cons [OF assms(1), of "if out = [] then CIdle else CTry h out" "r_count s"]
    by (auto simp: low_def)
next
  case (c_cas_fail h out)
  then show ?thesis
    using rinv_cons [OF assms(1), of CIdle "r_count s"] by (simp add: low_def cons_ok_def)
next
  case (c_cas h out)
  then show ?thesis using rinv_take [OF assms(1)] by simp
next
  case (c_release h n k)
  then show ?thesis using rinv_release [OF assms(1,2)] by simp
next
  case (c_done h n)
  have "h + n = r_head s" using assms(1) c_done(2) by (simp add: rinv_def cons_ok_def)
  then show ?thesis
    using c_done rinv_cons [OF assms(1), of CIdle "r_count s - int n"] by (simp add: low_def cons_ok_def)
qed

lemma rreach_inv: "rreach N s \<Longrightarrow> 1 < N \<Longrightarrow> rinv N s"
  by (induction rule: rreach.induct) (auto intro: rinv_init rinv_step)

subsection \<open>The counter\<close>

fun in_flight :: "producer \<Rightarrow> bool" where
  "in_flight (PClaimed a t) = True"
| "in_flight (PStored a t) = True"
| "in_flight PCount = True"
| "in_flight _ = False"

definition count_ok :: "rstate \<Rightarrow> bool" where
  "count_ok s \<longleftrightarrow> finite {p. in_flight (r_prod s p)} \<and>
     r_count s + int (card {p. in_flight (r_prod s p)}) =
       int (r_tail s) - int (r_head s) + (case r_cons s of CRelease h n k \<Rightarrow> int n | _ \<Rightarrow> 0)"

lemma in_flight_update:
  "{q. in_flight (if q = p then w else f q)} =
     (if in_flight w then insert p {q. in_flight (f q)} else {q. in_flight (f q)} - {p})"
  by auto

lemma count_ok_step:
  assumes "count_ok s" "rinv N s" "rstep N s s'"
  shows "count_ok s'"
proof -
  have fin: "finite {p. in_flight (r_prod s p)}" using assms(1) by (simp add: count_ok_def)
  have mem: "int (card {p. in_flight (r_prod s p)} - Suc 0) = int (card {p. in_flight (r_prod s p)}) - 1"
    if "r_prod s p = PCount" for p
  proof -
    have "p \<in> {p. in_flight (r_prod s p)}" using that by simp
    then have "0 < card {p. in_flight (r_prod s p)}" using fin card_gt_0_iff by blast
    then show ?thesis by simp
  qed
  show ?thesis
    using assms(3,1) fin
    by cases (auto simp: mem count_ok_def in_flight_update fun_upd_def insert_absorb card_insert_if
      card_Diff_singleton_if split: consumer.splits)
qed

lemma rreach_count: "rreach N s \<Longrightarrow> 1 < N \<Longrightarrow> count_ok s"
proof (induction rule: rreach.induct)
  case rreach_init
  then show ?case by (simp add: count_ok_def rinit_def)
next
  case (rreach_step s s')
  then show ?case using count_ok_step rreach_inv by blast
qed

text \<open>
  C9.  Whatever way the atomic steps of any number of producers and of the
  consumer interleave, the tasks the consumer has taken are exactly the first \<open>head\<close> tasks
  in the order in which producers claimed their positions: none is lost, duplicated or
  reordered, and a cell is never claimed while it holds a task that was not taken.  When
  no call is in progress every claimed task that was not taken is published in its cell,
  and \<open>ring_count\<close> is their number.
\<close>

theorem ring_concurrent_exactly_once:
  assumes "rreach N s" and "1 < N"
  shows "r_deq s = take (r_head s) (r_hist s) \<and> length (r_hist s) = r_tail s \<and>
         r_head s \<le> r_tail s \<and> r_tail s \<le> r_head s + N \<and>
         ((\<forall>p. r_prod s p = PIdle) \<and> r_cons s = CIdle \<longrightarrow>
            (\<forall>i. r_head s \<le> i \<longrightarrow> i < r_tail s \<longrightarrow> published N s i) \<and>
            r_count s = int (r_tail s) - int (r_head s))"
proof -
  have inv: "pos_ok N s" "cells_ok N s" using rreach_inv [OF assms] by (auto simp: rinv_def)
  have "published N s i"
    if "\<forall>p. r_prod s p = PIdle" "r_cons s = CIdle" "r_head s \<le> i" "i < r_tail s" for i
  proof -
    have "low s = r_head s" using that(2) by (simp add: low_def)
    then have "low s \<le> i" "i < low s + N" using that inv(1) by (auto simp: pos_ok_def)
    with inv(2) that(4) have "published N s i \<or> owned s i" by (auto simp: cells_ok_def)
    with that(1) show ?thesis by (simp add: owned_def)
  qed
  moreover have "r_count s = int (r_tail s) - int (r_head s)"
    if "\<forall>p. r_prod s p = PIdle" "r_cons s = CIdle"
    using rreach_count [OF assms] that by (simp add: count_ok_def)
  ultimately show ?thesis using inv(1) by (auto simp: pos_ok_def)
qed

text \<open>A run in which a producer claims and publishes a task while the consumer waits for it.\<close>

lemma sample_run:
  "\<exists>s. rreach 2 s \<and> r_hist s = [7] \<and> r_head s = 1 \<and> r_deq s = [7]"
proof -
  let ?p = "\<lambda>s w. s\<lparr>r_prod := (r_prod s)(0 := w)\<rparr>"
  let ?a = "?p rinit (PLoaded 7 (r_tail rinit))"
  let ?b = "?p ?a (PChecked 7 0)"
  let ?c = "?b\<lparr>r_tail := 0 + 1, r_hist := r_hist ?b @ [7], r_prod := (r_prod ?b)(0 := PClaimed 7 0)\<rparr>"
  let ?d = "?c\<lparr>r_task := (r_task ?c)(0 mod 2 := 7), r_prod := (r_prod ?c)(0 := PStored 7 0)\<rparr>"
  let ?e = "?d\<lparr>r_cons := CScan 8 (r_head ?d) []\<rparr>"
  let ?f = "?e\<lparr>r_seq := (r_seq ?e)(0 mod 2 := 0 + 1), r_prod := (r_prod ?e)(0 := PCount)\<rparr>"
  let ?g = "?f\<lparr>r_cons := CSeen 8 0 []\<rparr>"
  let ?h = "?g\<lparr>r_cons := CScan 8 0 ([] @ [r_task ?g ((0 + length ([]::addr list)) mod 2)])\<rparr>"
  let ?i = "?h\<lparr>r_cons := (if [7] = ([]::addr list) then CIdle else CTry 0 [7])\<rparr>"
  let ?j = "?i\<lparr>r_head := 0 + length [7::addr], r_deq := r_deq ?i @ [7],
               r_cons := CRelease 0 (length [7::addr]) 0\<rparr>"
  note i = rinit_def
  have "rreach 2 ?a" by (rule rreach_step [OF rreach_init p_load]) (simp add: i)
  then have "rreach 2 ?b" by (rule rreach_step [OF _ p_check]) (simp_all add: i)
  then have "rreach 2 ?c" by (rule rreach_step [OF _ p_cas]) (simp_all add: i)
  then have "rreach 2 ?d" by (rule rreach_step [OF _ p_store]) (simp add: i)
  then have "rreach 2 ?e" by (rule rreach_step [OF _ c_load]) (simp add: i)
  then have "rreach 2 ?f" by (rule rreach_step [OF _ p_publish]) (simp add: i)
  then have "rreach 2 ?g" by (rule rreach_step [OF _ c_see]) (simp_all add: i)
  then have "rreach 2 ?h" by (rule rreach_step [OF _ c_read]) (simp add: i)
  then have "rreach 2 ?i" by (rule rreach_step [OF _ c_stop]) (simp_all add: i)
  then have "rreach 2 ?j" by (rule rreach_step [OF _ c_cas]) (simp_all add: i)
  moreover have "r_hist ?j = [7]" "r_head ?j = 1" "r_deq ?j = [7]" by (simp_all add: i)
  ultimately show ?thesis by blast
qed

theorem ring_concurrent_exactly_once_witness:
  "\<exists>s. rreach 2 s \<and> r_hist s = [7] \<and> r_deq s = [7] \<and> r_deq s = take (r_head s) (r_hist s)"
proof -
  obtain s where s: "rreach 2 s" "r_hist s = [7]" "r_head s = 1" "r_deq s = [7]"
    using sample_run by blast
  with ring_concurrent_exactly_once [OF s(1)] show ?thesis by auto
qed

end
