(* ===== verification/Intrusive_List.thy ===== *)
theory Intrusive_List
  imports Loom_Prelude
begin

text \<open>
  Singly linked lists threaded through the nodes themselves, with a head and a tail pointer:
  the queue idiom of the priority lanes, of the pipeline and of the task group.  \<open>nxt\<close> is
  the \<open>next\<close> field as a function of the node's address.  The three updates below are what
  the C code does to the pointers when it appends a node, takes the first one, or unlinks
  one in the middle; each is shown to do to the list what its name says.
\<close>

fun lseg :: "(addr \<Rightarrow> ptr) \<Rightarrow> ptr \<Rightarrow> addr list \<Rightarrow> bool" where
  "lseg nxt p [] \<longleftrightarrow> p = None"
| "lseg nxt p (a # xs) \<longleftrightarrow> p = Some a \<and> lseg nxt (nxt a) xs"

definition last_ptr :: "addr list \<Rightarrow> ptr" where
  "last_ptr xs = (if xs = [] then None else Some (last xs))"

definition queue_rep :: "(addr \<Rightarrow> ptr) \<Rightarrow> ptr \<Rightarrow> ptr \<Rightarrow> addr list \<Rightarrow> bool" where
  "queue_rep nxt h t xs \<longleftrightarrow> lseg nxt h xs \<and> distinct xs \<and> t = last_ptr xs"

lemma lseg_unique: "lseg nxt p xs \<Longrightarrow> lseg nxt p ys \<Longrightarrow> xs = ys"
proof (induction xs arbitrary: p ys)
  case Nil
  then show ?case by (cases ys) auto
next
  case (Cons a xs)
  then show ?case by (cases ys) auto
qed

lemma lseg_frame: "(\<And>a. a \<in> set xs \<Longrightarrow> nxt' a = nxt a) \<Longrightarrow> lseg nxt' p xs = lseg nxt p xs"
proof (induction xs arbitrary: p)
  case (Cons a xs)
  have "nxt' a = nxt a" by (rule Cons.prems) simp
  moreover have "lseg nxt' (nxt a) xs = lseg nxt (nxt a) xs"
    by (rule Cons.IH) (rule Cons.prems, simp)
  ultimately show ?case by simp
qed simp

lemma queue_rep_frame:
  "(\<And>a. a \<in> set xs \<Longrightarrow> nxt' a = nxt a) \<Longrightarrow> queue_rep nxt' h t xs = queue_rep nxt h t xs"
  using lseg_frame [of xs nxt' nxt h] by (simp add: queue_rep_def)

lemma lseg_None [simp]: "lseg nxt None xs \<longleftrightarrow> xs = []"
  by (cases xs) auto

lemma lseg_Some: "lseg nxt (Some a) xs \<longleftrightarrow> (\<exists>ys. xs = a # ys \<and> lseg nxt (nxt a) ys)"
  by (cases xs) auto

lemma last_ptr_simps [simp]:
  "last_ptr [] = None" "last_ptr [a] = Some a" "last_ptr (xs @ [a]) = Some a"
  "last_ptr (xs @ [b, a]) = Some a" "last_ptr xs = None \<longleftrightarrow> xs = []"
  by (simp_all add: last_ptr_def)

lemma queue_rep_empty [simp]: "queue_rep nxt None None []"
  by (simp add: queue_rep_def)

lemma queue_rep_head: "queue_rep nxt h t xs \<Longrightarrow> h = None \<longleftrightarrow> xs = []"
  by (cases xs) (auto simp: queue_rep_def)

subsection \<open>Appending\<close>

definition append_next :: "(addr \<Rightarrow> ptr) \<Rightarrow> ptr \<Rightarrow> addr \<Rightarrow> addr \<Rightarrow> ptr" where
  "append_next nxt t a = (case t of None \<Rightarrow> nxt | Some l \<Rightarrow> nxt(l := Some a))(a := None)"

lemma lseg_append:
  "lseg nxt p (xs @ [l]) \<Longrightarrow> distinct (xs @ [l, a]) \<Longrightarrow> lseg (nxt(l := Some a, a := None)) p (xs @ [l, a])"
proof (induction xs arbitrary: p)
  case Nil
  then show ?case by auto
next
  case (Cons b xs)
  then show ?case by auto
qed

lemma queue_rep_append:
  assumes "queue_rep nxt h t xs" "a \<notin> set xs"
  shows "queue_rep (append_next nxt t a) (if t = None then Some a else h) (Some a) (xs @ [a])"
proof (cases xs rule: rev_exhaust)
  case Nil
  with assms show ?thesis by (simp add: queue_rep_def append_next_def)
next
  case (snoc ys l)
  with assms lseg_append [of nxt h ys l a] show ?thesis
    by (auto simp: queue_rep_def append_next_def)
qed

subsection \<open>Removing\<close>

lemma queue_rep_pop:
  assumes "queue_rep nxt (Some a) t xs"
  shows "\<exists>ys. xs = a # ys \<and>
           queue_rep (nxt(a := None)) (nxt a) (if nxt a = None then None else t) ys"
proof -
  obtain ys where ys: "xs = a # ys" "lseg nxt (nxt a) ys" "distinct (a # ys)" "t = last_ptr (a # ys)"
    using assms by (auto simp: queue_rep_def lseg_Some)
  then have "lseg (nxt(a := None)) (nxt a) ys" by (subst lseg_frame) auto
  moreover have "nxt a = None \<longleftrightarrow> ys = []" using ys(2) by (cases ys) auto
  ultimately show ?thesis using ys by (auto simp: queue_rep_def last_ptr_def)
qed

text \<open>Unlinking \<open>a\<close>, whose predecessor in the list is \<open>prev\<close> (none if it is the head).\<close>

definition unlink_next :: "(addr \<Rightarrow> ptr) \<Rightarrow> ptr \<Rightarrow> addr \<Rightarrow> addr \<Rightarrow> ptr" where
  "unlink_next nxt prev a = (case prev of None \<Rightarrow> nxt | Some b \<Rightarrow> nxt(b := nxt a))"

lemma lseg_split:
  "lseg nxt p (xs @ a # ys) \<Longrightarrow> lseg nxt (nxt a) ys"
  by (induction xs arbitrary: p) auto

lemma lseg_unlink:
  "lseg nxt p (xs @ b # a # ys) \<Longrightarrow> distinct (xs @ b # a # ys) \<Longrightarrow>
   lseg (nxt(b := nxt a)) p (xs @ b # ys)"
proof (induction xs arbitrary: p)
  case Nil
  then have "lseg (nxt(b := nxt a)) (nxt a) ys = lseg nxt (nxt a) ys" by (intro lseg_frame) auto
  with Nil show ?case by (simp add: fun_upd_def)
next
  case (Cons c xs)
  then show ?case by auto
qed

lemma last_is_first: "distinct (a # ys) \<Longrightarrow> last (a # ys) = a \<longleftrightarrow> ys = []"
  by (cases ys) (auto dest: last_in_set split: if_splits)

lemma queue_rep_unlink:
  assumes "queue_rep nxt h t (xs @ a # ys)"
  shows "queue_rep (unlink_next nxt (last_ptr xs) a) (if xs = [] then nxt a else h)
           (if t = Some a then last_ptr xs else t) (xs @ ys)"
proof (cases xs rule: rev_exhaust)
  case Nil
  with assms have "lseg nxt (nxt a) ys" "distinct (a # ys)" "t = Some (last (a # ys))"
    by (auto simp: queue_rep_def last_ptr_def)
  with Nil last_is_first [of a ys] show ?thesis
    by (auto simp: queue_rep_def unlink_next_def last_ptr_def)
next
  case (snoc zs b)
  with assms have l: "lseg nxt h (zs @ b # a # ys)" "distinct (zs @ b # a # ys)"
    and t: "t = Some (last (a # ys))"
    by (auto simp: queue_rep_def last_ptr_def)
  have "last (a # ys) = a \<longleftrightarrow> ys = []" using l(2) by (intro last_is_first) simp
  with snoc lseg_unlink [OF l] l(2) t show ?thesis
    by (auto simp: queue_rep_def unlink_next_def last_ptr_def)
qed

subsection \<open>Walking\<close>

lemma find_split:
  "List.find P xs = Some a \<Longrightarrow> xs = takeWhile (Not \<circ> P) xs @ a # tl (dropWhile (Not \<circ> P) xs) \<and> P a"
  by (induction xs) (auto split: if_splits)

text \<open>
  The search loop \<open>while (cur)\<close> with a trailing \<open>prev\<close> pointer.  On a cyclic list the loop
  would not end, so it is a partial function; on a list it returns.
\<close>

partial_function (option) walk ::
    "(addr \<Rightarrow> bool) \<Rightarrow> (addr \<Rightarrow> ptr) \<Rightarrow> ptr \<Rightarrow> ptr \<Rightarrow> (ptr \<times> ptr) option" where
  "walk hit nxt prev cur =
     (case cur of
        None \<Rightarrow> Some (prev, None)
      | Some a \<Rightarrow> if hit a then Some (prev, cur) else walk hit nxt cur (nxt a))"

declare walk.simps [code]

lemma walk_spec:
  "lseg nxt cur xs \<Longrightarrow>
   walk hit nxt prev cur =
     (case List.find hit xs of
        None \<Rightarrow> Some (if xs = [] then prev else last_ptr xs, None)
      | Some a \<Rightarrow> Some (if takeWhile (Not \<circ> hit) xs = [] then prev
                       else last_ptr (takeWhile (Not \<circ> hit) xs), Some a))"
proof (induction xs arbitrary: cur prev)
  case Nil
  then show ?case by (simp add: walk.simps)
next
  case (Cons a xs)
  then show ?case
    by (subst walk.simps) (auto simp: last_ptr_def split: option.splits)
qed

subsection \<open>Emptying a list\<close>

text \<open>
  The nodes in the order a loop \<open>while (cur) { next = cur->next; \<dots> }\<close> meets them; \<open>None\<close> if it would
  not end.
\<close>

partial_function (option) collect :: "(addr \<Rightarrow> ptr) \<Rightarrow> ptr \<Rightarrow> addr list option" where
  "collect nxt p =
     (case p of
        None \<Rightarrow> Some []
      | Some a \<Rightarrow> Option.bind (collect nxt (nxt a)) (\<lambda>xs. Some (a # xs)))"

declare collect.simps [code]

lemma collect_lseg: "lseg nxt p xs \<Longrightarrow> collect nxt p = Some xs"
  by (induction xs arbitrary: p) (auto simp: collect.simps)

end
