(* ===== verification/Lane_Queue.thy ===== *)
theory Lane_Queue
  imports Task_Node Intrusive_List
begin

text \<open>
  The priority lanes of \<^verbatim>\<open>src/src/thread_pool.c\<close>: one linked queue per 8-bit priority, linked
  through the task nodes of the store, and a 256-bit occupancy bitmap in four words.  The
  arrays are functions of the bucket index.  All operations run under \<open>pool->lock\<close>;
  \<open>queue_len\<close> is the pool's 32-bit counter of pending tasks.
\<close>

record lanes =
  ln_head :: "nat \<Rightarrow> ptr"
  ln_tail :: "nat \<Rightarrow> ptr"
  ln_bits :: "nat \<Rightarrow> u64"

definition lanes_new :: lanes where
  "lanes_new = \<lparr>ln_head = (\<lambda>b. None), ln_tail = (\<lambda>b. None), ln_bits = (\<lambda>w. 0)\<rparr>"

abbreviation prio :: "store \<Rightarrow> addr \<Rightarrow> nat" where
  "prio st a \<equiv> unat (tk_priority (st a))"

text \<open>\<open>__builtin_ctzll\<close>: the number of trailing zero bits of a non-zero word.\<close>

definition ctz64 :: "u64 \<Rightarrow> nat" where
  "ctz64 x = length (takeWhile (\<lambda>i. \<not> bit x i) [0..<64])"

definition set_next :: "store \<Rightarrow> addr \<Rightarrow> ptr \<Rightarrow> store" where
  "set_next st a p = st(a := (st a)\<lparr>tk_next := p\<rparr>)"

definition loom_enqueue_unlocked :: "store \<Rightarrow> lanes \<Rightarrow> u32 \<Rightarrow> addr \<Rightarrow> store \<times> lanes \<times> u32" where
  "loom_enqueue_unlocked st ln queue_len task =
     (let b = prio st task;
          (st1, ln1) =
            (case ln_tail ln b of
               Some l \<Rightarrow> (set_next st l (Some task), ln)
             | None \<Rightarrow> (st, ln\<lparr>ln_head := (ln_head ln)(b := Some task)\<rparr>));
          ln2 = ln1\<lparr>ln_tail := (ln_tail ln1)(b := Some task)\<rparr>;
          st2 = set_next st1 task None;
          ln3 = ln2\<lparr>ln_bits := (ln_bits ln2)(b div 64 := ln_bits ln2 (b div 64) OR push_bit (b mod 64) 1)\<rparr>
      in (st2, ln3, queue_len + 1))"

text \<open>The bucket of the lowest set bit, word by word.\<close>

fun lane_lowest :: "(nat \<Rightarrow> u64) \<Rightarrow> nat list \<Rightarrow> nat option" where
  "lane_lowest bits [] = None"
| "lane_lowest bits (w # ws) =
     (if bits w \<noteq> 0 then Some (w * 64 + ctz64 (bits w)) else lane_lowest bits ws)"

text \<open>Clearing the bit of a bucket whose head became null.\<close>

definition clear_if_empty :: "lanes \<Rightarrow> nat \<Rightarrow> lanes" where
  "clear_if_empty ln b =
     (if ln_head ln b = None
      then ln\<lparr>ln_bits := (ln_bits ln)(b div 64 := ln_bits ln (b div 64) AND NOT (push_bit (b mod 64) 1))\<rparr>
      else ln)"

text \<open>
  A set bit over a null head would make the C code dereference null; the invariant below
  rules it out, and the definition returns no task there.
\<close>

definition dequeue_lowest_priority_unlocked ::
    "store \<Rightarrow> lanes \<Rightarrow> u32 \<Rightarrow> nat \<Rightarrow> addr option \<times> store \<times> lanes \<times> u32" where
  "dequeue_lowest_priority_unlocked st ln queue_len max_priority =
     (case lane_lowest (ln_bits ln) [0..<4] of
        None \<Rightarrow> (None, st, ln, queue_len)
      | Some b \<Rightarrow>
          if b > max_priority then (None, st, ln, queue_len)
          else
            (case ln_head ln b of
               None \<Rightarrow> (None, st, ln, queue_len)
             | Some t \<Rightarrow>
                 (let ln1 = ln\<lparr>ln_head := (ln_head ln)(b := tk_next (st t))\<rparr>;
                      ln2 = (if ln_head ln1 b = None
                             then clear_if_empty (ln1\<lparr>ln_tail := (ln_tail ln1)(b := None)\<rparr>) b
                             else ln1);
                      st1 = set_next st t None
                  in (Some t, st1, ln2, queue_len - 1))))"

definition lane_has_priority :: "lanes \<Rightarrow> nat \<Rightarrow> bool" where
  "lane_has_priority ln max_priority =
     (case lane_lowest (ln_bits ln) [0..<4] of None \<Rightarrow> False | Some b \<Rightarrow> b \<le> max_priority)"

definition loom_dequeue_unlocked :: "store \<Rightarrow> lanes \<Rightarrow> u32 \<Rightarrow> addr option \<times> store \<times> lanes \<times> u32" where
  "loom_dequeue_unlocked st ln queue_len = dequeue_lowest_priority_unlocked st ln queue_len 255"

text \<open>
  The lane walk of the cancel functions: the first node for which \<open>hit\<close> holds, bucket by
  bucket, with its predecessor.  The outer option is \<open>None\<close> if a walk would not end.
\<close>

fun lane_search :: "(addr \<Rightarrow> bool) \<Rightarrow> store \<Rightarrow> lanes \<Rightarrow> nat list \<Rightarrow> (nat \<times> ptr \<times> addr) option option" where
  "lane_search hit st ln [] = Some None"
| "lane_search hit st ln (b # bs) =
     (case walk hit (tk_next \<circ> st) None (ln_head ln b) of
        None \<Rightarrow> None
      | Some (prev, Some a) \<Rightarrow> Some (Some (b, prev, a))
      | Some (prev, None) \<Rightarrow> lane_search hit st ln bs)"

definition lane_unlink :: "store \<Rightarrow> lanes \<Rightarrow> u32 \<Rightarrow> nat \<Rightarrow> ptr \<Rightarrow> addr \<Rightarrow> store \<times> lanes \<times> u32" where
  "lane_unlink st ln queue_len b prev cur =
     (let (st1, ln1) =
            (case prev of
               Some p \<Rightarrow> (set_next st p (tk_next (st cur)), ln)
             | None \<Rightarrow> (st, ln\<lparr>ln_head := (ln_head ln)(b := tk_next (st cur))\<rparr>));
          ln2 = (if Some cur = ln_tail ln1 b then ln1\<lparr>ln_tail := (ln_tail ln1)(b := prev)\<rparr> else ln1);
          ln3 = clear_if_empty ln2 b
      in (st1, ln3, queue_len - 1))"

subsection \<open>Bits and buckets\<close>

lemma ctz64_props:
  assumes "x \<noteq> 0"
  shows "bit x (ctz64 x)" "ctz64 x < 64" "i < ctz64 x \<Longrightarrow> \<not> bit x i"
proof -
  let ?t = "takeWhile (\<lambda>i. \<not> bit x i) [0..<64]"
  obtain j where j: "bit x j" using assms by (auto simp: bit_eq_iff)
  then have "j < 64" using bit_imp_le_length [OF j] by simp
  with j have "j \<in> set [0..<64]" "\<not> \<not> bit x j" by auto
  then have "?t \<noteq> [0..<64]" unfolding takeWhile_eq_all_conv by blast
  then have "length ?t \<noteq> length [0..<64]" by (metis takeWhile_eq_take take_all order_refl)
  then have "length ?t < length [0..<64]" using length_takeWhile_le [of _ "[0..<64]"] le_neq_implies_less by blast
  then show lt: "ctz64 x < 64" by (simp add: ctz64_def)
  show "bit x (ctz64 x)"
    using nth_length_takeWhile [of "\<lambda>i. \<not> bit x i" "[0..<64]"] lt by (simp add: ctz64_def)
  show "\<not> bit x i" if "i < ctz64 x"
  proof -
    have "?t ! i = [0..<64] ! i" using that by (simp add: ctz64_def takeWhile_nth)
    moreover have "?t ! i \<in> set ?t" using that by (simp add: ctz64_def)
    ultimately show ?thesis using that lt by (auto dest: set_takeWhileD)
  qed
qed

definition lane_bit :: "(nat \<Rightarrow> u64) \<Rightarrow> nat \<Rightarrow> bool" where
  "lane_bit bits b \<longleftrightarrow> bit (bits (b div 64)) (b mod 64)"

lemma lane_lowest_spec:
  "k \<le> 4 \<Longrightarrow> case lane_lowest bits [k..<4] of
     None \<Rightarrow> \<forall>b. 64 * k \<le> b \<longrightarrow> b < 256 \<longrightarrow> \<not> lane_bit bits b
   | Some b \<Rightarrow> b < 256 \<and> 64 * k \<le> b \<and> lane_bit bits b \<and> (\<forall>c. 64 * k \<le> c \<longrightarrow> c < b \<longrightarrow> \<not> lane_bit bits c)"
proof (induction "4 - k" arbitrary: k)
  case 0
  then show ?case by simp
next
  case (Suc n)
  then have k: "k < 4" "[k..<4] = k # [Suc k..<4]" by (simp_all add: upt_conv_Cons)
  have word: "c div 64 = k \<and> c mod 64 = c - 64 * k" if "64 * k \<le> c" "c < 64 * Suc k" for c
  proof -
    have "c div 64 = k" using that by (intro div_nat_eqI) auto
    then show ?thesis using minus_mod_eq_mult_div [of c 64] that by (metis add_diff_cancel_left' mult_div_mod_eq)
  qed
  show ?case
  proof (cases "bits k = 0")
    case True
    have "\<not> lane_bit bits c" if "64 * k \<le> c" "c < 64 * Suc k" for c
      using word [OF that] True by (simp add: lane_bit_def)
    moreover have "case lane_lowest bits [Suc k..<4] of
     None \<Rightarrow> \<forall>b. 64 * Suc k \<le> b \<longrightarrow> b < 256 \<longrightarrow> \<not> lane_bit bits b
   | Some b \<Rightarrow> b < 256 \<and> 64 * Suc k \<le> b \<and> lane_bit bits b \<and> (\<forall>c. 64 * Suc k \<le> c \<longrightarrow> c < b \<longrightarrow> \<not> lane_bit bits c)"
      using Suc k by (intro Suc.hyps(1)) auto
    ultimately show ?thesis using True k(2) by (auto split: option.splits) (metis not_le)+
  next
    case False
    note z = ctz64_props [OF False]
    have b: "64 * k \<le> k * 64 + ctz64 (bits k)" "k * 64 + ctz64 (bits k) < 64 * Suc k" using z(2) by auto
    have "lane_bit bits (k * 64 + ctz64 (bits k))" using word [OF b] z(1) by (simp add: lane_bit_def)
    moreover have "\<not> lane_bit bits c" if "64 * k \<le> c" "c < k * 64 + ctz64 (bits k)" for c
    proof -
      have "c div 64 = k \<and> c mod 64 = c - 64 * k" using that b by (intro word) auto
      then show ?thesis using z(3) [of "c - 64 * k"] that by (simp add: lane_bit_def)
    qed
    moreover have "k * 64 + ctz64 (bits k) < 256" using z(2) k(1) by simp
    ultimately show ?thesis using False k(2) b(1) by simp
  qed
qed

subsection \<open>The pending tasks the lanes stand for\<close>

text \<open>\<open>xs\<close> are the pending tasks in order of arrival; bucket \<open>b\<close> holds those of priority \<open>b\<close>.\<close>

definition bucket :: "store \<Rightarrow> addr list \<Rightarrow> nat \<Rightarrow> addr list" where
  "bucket st xs b = filter (\<lambda>a. prio st a = b) xs"

definition lane_repr :: "store \<Rightarrow> lanes \<Rightarrow> addr list \<Rightarrow> bool" where
  "lane_repr st ln xs \<longleftrightarrow> distinct xs \<and>
     (\<forall>b<256. queue_rep (tk_next \<circ> st) (ln_head ln b) (ln_tail ln b) (bucket st xs b) \<and>
              (lane_bit (ln_bits ln) b \<longleftrightarrow> bucket st xs b \<noteq> []))"

lemma lane_repr_new: "lane_repr st lanes_new []"
  by (simp add: lane_repr_def lanes_new_def bucket_def lane_bit_def)

lemma prio_less: "prio st a < 256"
  using unsigned_less [of "tk_priority (st a)"] by simp

lemma set_next_prio [simp]: "tk_priority (set_next st a p b) = tk_priority (st b)"
  by (simp add: set_next_def)

lemma set_next_next: "tk_next \<circ> set_next st a p = (tk_next \<circ> st)(a := p)"
  by (auto simp: set_next_def)

lemma bucket_set_next [simp]: "bucket (set_next st a p) xs = bucket st xs"
  by (simp add: bucket_def fun_eq_iff)

lemma bucket_set: "a \<in> set (bucket st xs b) \<longleftrightarrow> a \<in> set xs \<and> prio st a = b"
  by (auto simp: bucket_def)

lemma bucket_append: "bucket st (xs @ [a]) b = (if prio st a = b then bucket st xs b @ [a] else bucket st xs b)"
  by (simp add: bucket_def)

lemma bucket_remove: "bucket st (remove1 a xs) b = (if prio st a = b then remove1 a (bucket st xs b) else bucket st xs b)"
  by (auto simp: bucket_def filter_remove1 remove1_idem)

lemma lane_bit_set:
  "lane_bit (bits(b div 64 := bits (b div 64) OR push_bit (b mod 64) 1)) c \<longleftrightarrow> c = b \<or> lane_bit bits c"
proof -
  have "c = b \<longleftrightarrow> c div 64 = b div 64 \<and> c mod 64 = b mod 64" by (metis div_mult_mod_eq)
  moreover have "b mod 64 < 64" by simp
  ultimately show ?thesis by (auto simp: lane_bit_def bit_simps)
qed

lemma lane_bit_clear:
  "lane_bit (bits(b div 64 := bits (b div 64) AND NOT (push_bit (b mod 64) 1))) c \<longleftrightarrow>
   c \<noteq> b \<and> lane_bit bits c"
proof -
  have "c = b \<longleftrightarrow> c div 64 = b div 64 \<and> c mod 64 = b mod 64" by (metis div_mult_mod_eq)
  moreover have "c mod 64 < 64" by simp
  ultimately show ?thesis by (auto simp: lane_bit_def bit_simps)
qed

text \<open>Stores that differ in their links only.\<close>

definition same_data :: "store \<Rightarrow> store \<Rightarrow> bool" where
  "same_data st st' \<longleftrightarrow> (\<forall>c. \<exists>q. st' c = (st c)\<lparr>tk_next := q\<rparr>)"

lemma same_data_refl [simp]: "same_data st st"
  unfolding same_data_def
proof
  fix c
  show "\<exists>q. st c = (st c)\<lparr>tk_next := q\<rparr>" by (rule exI [of _ "tk_next (st c)"]) simp
qed

lemma same_data_set_next: "same_data st st' \<Longrightarrow> same_data st (set_next st' a p)"
  unfolding same_data_def set_next_def
proof
  fix c
  assume "\<forall>c. \<exists>q. st' c = (st c)\<lparr>tk_next := q\<rparr>"
  then obtain q where "st' c = (st c)\<lparr>tk_next := q\<rparr>" by blast
  then show "\<exists>q. (st'(a := (st' a)\<lparr>tk_next := p\<rparr>)) c = (st c)\<lparr>tk_next := q\<rparr>"
    by (cases "c = a") auto
qed

lemma same_data_trans:
  assumes "same_data st st'" "same_data st' st''"
  shows "same_data st st''"
  unfolding same_data_def
proof
  fix c
  obtain p where p: "st' c = (st c)\<lparr>tk_next := p\<rparr>" using assms(1) unfolding same_data_def by blast
  obtain q where q: "st'' c = (st' c)\<lparr>tk_next := q\<rparr>" using assms(2) unfolding same_data_def by blast
  show "\<exists>r. st'' c = (st c)\<lparr>tk_next := r\<rparr>" unfolding q p by (rule exI [of _ q]) simp
qed

lemma same_data_fields:
  assumes "same_data st st'"
  shows "tk_priority (st' c) = tk_priority (st c)" "tk_task_id (st' c) = tk_task_id (st c)"
    "tk_user_data (st' c) = tk_user_data (st c)" "tk_cancelled (st' c) = tk_cancelled (st c)"
proof -
  obtain q where q: "st' c = (st c)\<lparr>tk_next := q\<rparr>" using assms unfolding same_data_def by blast
  show "tk_priority (st' c) = tk_priority (st c)" "tk_task_id (st' c) = tk_task_id (st c)"
    "tk_user_data (st' c) = tk_user_data (st c)" "tk_cancelled (st' c) = tk_cancelled (st c)"
    unfolding q by simp_all
qed

lemma enqueue_repr:
  assumes rep: "lane_repr st ln xs" and a: "a \<notin> set xs"
    and enq: "loom_enqueue_unlocked st ln n a = (st', ln', n')"
  shows "lane_repr st' ln' (xs @ [a]) \<and> n' = n + 1 \<and> same_data st st'"
proof -
  let ?b = "prio st a"
  have q: "queue_rep (tk_next \<circ> st) (ln_head ln b) (ln_tail ln b) (bucket st xs b)"
    "lane_bit (ln_bits ln) b \<longleftrightarrow> bucket st xs b \<noteq> []" if "b < 256" for b
    using rep that by (auto simp: lane_repr_def)
  define sta where "sta = (case ln_tail ln ?b of None \<Rightarrow> st | Some l \<Rightarrow> set_next st l (Some a))"
  have eqs: "st' = set_next sta a None"
    "ln_head ln' = (if ln_tail ln ?b = None then (ln_head ln)(?b := Some a) else ln_head ln)"
    "ln_tail ln' = (ln_tail ln)(?b := Some a)"
    "ln_bits ln' = (ln_bits ln)(?b div 64 := ln_bits ln (?b div 64) OR push_bit (?b mod 64) 1)"
    "n' = n + 1"
    using enq by (cases "ln_tail ln ?b"; simp add: loom_enqueue_unlocked_def Let_def sta_def; fastforce)+
  note hd = eqs(2) and tl = eqs(3) and n' = eqs(5)
  have bits: "lane_bit (ln_bits ln') c \<longleftrightarrow> c = ?b \<or> lane_bit (ln_bits ln) c" for c
    unfolding eqs(4) by (rule lane_bit_set)
  have st': "tk_next \<circ> st' = append_next (tk_next \<circ> st) (ln_tail ln ?b) a"
    by (simp add: eqs(1) set_next_next append_next_def sta_def split: option.splits)
  have pr: "bucket st' = bucket st"
    by (cases "ln_tail ln ?b") (simp_all add: eqs(1) sta_def fun_eq_iff)
  have data: "same_data st st'"
    by (cases "ln_tail ln ?b") (simp_all add: eqs(1) sta_def same_data_set_next)
  have "queue_rep (tk_next \<circ> st') (ln_head ln' b) (ln_tail ln' b) (bucket st' (xs @ [a]) b) \<and>
        (lane_bit (ln_bits ln') b \<longleftrightarrow> bucket st' (xs @ [a]) b \<noteq> [])" if b: "b < 256" for b
  proof (cases "b = ?b")
    case True
    have "a \<notin> set (bucket st xs ?b)" using a by (simp add: bucket_set)
    from queue_rep_append [OF q(1) this] True b hd tl bits show ?thesis
      by (auto simp: st' pr bucket_append)
  next
    case False
    have same: "(tk_next \<circ> st') c = (tk_next \<circ> st) c" if c: "c \<in> set (bucket st xs b)" for c
    proof -
      have "c \<noteq> a" using c a by (auto simp: bucket_set)
      moreover have "ln_tail ln ?b \<noteq> Some c"
      proof
        assume "ln_tail ln ?b = Some c"
        then have "c = last (bucket st xs ?b)" "bucket st xs ?b \<noteq> []"
          using q(1) [OF prio_less [of st a]] by (auto simp: queue_rep_def last_ptr_def split: if_splits)
        then have "c \<in> set (bucket st xs ?b)" by simp
        with c False show False by (simp add: bucket_set)
      qed
      ultimately show ?thesis unfolding st' by (auto simp: append_next_def split: option.splits)
    qed
    have "bucket st' (xs @ [a]) b = bucket st xs b" using False by (simp add: pr bucket_append)
    moreover have "queue_rep (tk_next \<circ> st') (ln_head ln b) (ln_tail ln b) (bucket st xs b) =
        queue_rep (tk_next \<circ> st) (ln_head ln b) (ln_tail ln b) (bucket st xs b)"
      by (rule queue_rep_frame) (rule same)
    moreover have "ln_head ln' b = ln_head ln b" "ln_tail ln' b = ln_tail ln b"
      using False by (simp_all add: hd tl)
    ultimately show ?thesis using q [OF b] False bits by simp
  qed
  with rep a n' data show ?thesis by (simp add: lane_repr_def)
qed

text \<open>
  A removal that keeps every other bucket: \<open>a\<close> leaves its bucket, and only \<open>next\<close> fields of
  that bucket's nodes change.
\<close>

lemma lane_repr_remove:
  assumes rep: "lane_repr st ln xs" and a: "a \<in> set xs"
    and bucket: "queue_rep (tk_next \<circ> st') (ln_head ln' (prio st a)) (ln_tail ln' (prio st a))
                   (remove1 a (bucket st xs (prio st a)))"
    and others: "\<And>c. prio st c \<noteq> prio st a \<Longrightarrow> c \<in> set xs \<Longrightarrow> tk_next (st' c) = tk_next (st c)"
    and data: "\<And>c. tk_priority (st' c) = tk_priority (st c)"
    and arrays: "\<And>b. b \<noteq> prio st a \<Longrightarrow> ln_head ln' b = ln_head ln b \<and> ln_tail ln' b = ln_tail ln b"
    and bits: "\<And>b. lane_bit (ln_bits ln') b \<longleftrightarrow>
                 (if b = prio st a then ln_head ln' b \<noteq> None else lane_bit (ln_bits ln) b)"
  shows "lane_repr st' ln' (remove1 a xs)"
proof -
  have pr: "bucket st' = bucket st" by (simp add: bucket_def fun_eq_iff data)
  have "queue_rep (tk_next \<circ> st') (ln_head ln' b) (ln_tail ln' b) (bucket st' (remove1 a xs) b) \<and>
        (lane_bit (ln_bits ln') b \<longleftrightarrow> bucket st' (remove1 a xs) b \<noteq> [])" if b: "b < 256" for b
  proof (cases "b = prio st a")
    case True
    with bucket queue_rep_head [OF bucket] bits [of b] show ?thesis by (simp add: pr bucket_remove)
  next
    case False
    have q: "queue_rep (tk_next \<circ> st) (ln_head ln b) (ln_tail ln b) (bucket st xs b)"
      "lane_bit (ln_bits ln) b \<longleftrightarrow> bucket st xs b \<noteq> []" using rep b by (auto simp: lane_repr_def)
    have "queue_rep (tk_next \<circ> st') (ln_head ln b) (ln_tail ln b) (bucket st xs b) =
        queue_rep (tk_next \<circ> st) (ln_head ln b) (ln_tail ln b) (bucket st xs b)"
      using others False by (intro queue_rep_frame) (auto simp: bucket_set)
    with q False arrays [OF False] bits [of b] show ?thesis
      by (simp add: pr bucket_remove)
  qed
  with rep show ?thesis by (simp add: lane_repr_def)
qed

lemma clear_if_empty_simps [simp]:
  "ln_head (clear_if_empty ln b) = ln_head ln" "ln_tail (clear_if_empty ln b) = ln_tail ln"
  by (simp_all add: clear_if_empty_def)

lemma clear_if_empty_bits:
  "lane_bit (ln_bits (clear_if_empty ln b)) c \<longleftrightarrow>
   (if c = b then ln_head ln b \<noteq> None \<and> lane_bit (ln_bits ln) b else lane_bit (ln_bits ln) c)"
proof (cases "ln_head ln b = None")
  case True
  then have "ln_bits (clear_if_empty ln b) =
      (ln_bits ln)(b div 64 := ln_bits ln (b div 64) AND NOT (push_bit (b mod 64) 1))"
    unfolding clear_if_empty_def by simp
  then show ?thesis using True lane_bit_clear by auto
next
  case False
  then show ?thesis by (auto simp: clear_if_empty_def)
qed

lemma lowest_bucket:
  assumes "lane_repr st ln xs"
  shows "case lane_lowest (ln_bits ln) [0..<4] of
           None \<Rightarrow> xs = []
         | Some b \<Rightarrow> b < 256 \<and> bucket st xs b \<noteq> [] \<and> (\<forall>a. a \<in> set xs \<longrightarrow> b \<le> prio st a)"
proof -
  have bit: "lane_bit (ln_bits ln) (prio st a)" if "a \<in> set xs" for a
  proof -
    have "a \<in> set (bucket st xs (prio st a))" using that by (simp add: bucket_set)
    then have "bucket st xs (prio st a) \<noteq> []" by force
    with assms prio_less [of st a] show ?thesis by (simp add: lane_repr_def)
  qed
  show ?thesis
  proof (cases "lane_lowest (ln_bits ln) [0..<4]")
    case None
    then have "\<not> lane_bit (ln_bits ln) b" if "b < 256" for b
      using lane_lowest_spec [of 0 "ln_bits ln"] that by simp
    have "xs = []"
    proof (rule ccontr)
      assume "xs \<noteq> []"
      then have "hd xs \<in> set xs" by simp
      from bit [OF this] prio_less [of st "hd xs"]
        \<open>\<And>b. b < 256 \<Longrightarrow> \<not> lane_bit (ln_bits ln) b\<close> show False by simp
    qed
    with None show ?thesis by simp
  next
    case (Some b)
    then have b: "b < 256" "lane_bit (ln_bits ln) b" "\<And>c. c < b \<Longrightarrow> \<not> lane_bit (ln_bits ln) c"
      using lane_lowest_spec [of 0 "ln_bits ln"] by simp_all
    have "b \<le> prio st a" if "a \<in> set xs" for a
      using b(3) [of "prio st a"] bit [OF that] by linarith
    with b assms Some show ?thesis by (simp add: lane_repr_def)
  qed
qed

lemma dequeue_repr:
  assumes rep: "lane_repr st ln xs"
    and deq: "dequeue_lowest_priority_unlocked st ln n m = (r, st', ln', n')"
  shows "(case r of
            None \<Rightarrow> (\<forall>a. a \<in> set xs \<longrightarrow> m < prio st a) \<and> st' = st \<and> ln' = ln \<and> n' = n
          | Some a \<Rightarrow> prio st a \<le> m \<and> (\<exists>ys. bucket st xs (prio st a) = a # ys) \<and>
              (\<forall>c. c \<in> set xs \<longrightarrow> prio st a \<le> prio st c) \<and>
              lane_repr st' ln' (remove1 a xs) \<and> n' = n - 1 \<and>
              same_data st st')"
proof (cases "lane_lowest (ln_bits ln) [0..<4]")
  case None
  with deq lowest_bucket [OF rep] show ?thesis
    by (auto simp: dequeue_lowest_priority_unlocked_def)
next
  case (Some b)
  then have low: "b < 256" "bucket st xs b \<noteq> []" "\<And>c. c \<in> set xs \<Longrightarrow> b \<le> prio st c"
    using lowest_bucket [OF rep] by auto
  show ?thesis
  proof (cases "b > m")
    case True
    with Some deq low(3) show ?thesis
      by (auto simp: dequeue_lowest_priority_unlocked_def dest: less_le_trans)
  next
    case False
    obtain a ys where bk: "bucket st xs b = a # ys" using low(2) by (cases "bucket st xs b") auto
    have q: "queue_rep (tk_next \<circ> st) (ln_head ln b) (ln_tail ln b) (a # ys)"
      and bit: "lane_bit (ln_bits ln) b"
      using rep low(1,2) bk by (auto simp: lane_repr_def)
    then have hd: "ln_head ln b = Some a" by (simp add: queue_rep_def)
    have a: "a \<in> set xs" "prio st a = b" using bucket_set [of a st xs b] bk by auto
    define la where "la = ln\<lparr>ln_head := (ln_head ln)(b := tk_next (st a))\<rparr>"
    define lb where "lb = (if tk_next (st a) = None
        then clear_if_empty (la\<lparr>ln_tail := (ln_tail la)(b := None)\<rparr>) b else la)"
    have eqs: "r = Some a" "st' = set_next st a None" "ln' = lb" "n' = n - 1"
      using deq Some False hd
      by (auto simp: dequeue_lowest_priority_unlocked_def Let_def la_def lb_def)
    have "lane_repr st' ln' (remove1 a xs)"
    proof (rule lane_repr_remove [OF rep a(1)])
      show "queue_rep (tk_next \<circ> st') (ln_head ln' (prio st a)) (ln_tail ln' (prio st a))
          (remove1 a (bucket st xs (prio st a)))"
        using queue_rep_pop [OF q [unfolded hd]] a(2) bk
        by (auto simp: eqs lb_def la_def set_next_next)
      show "tk_next (st' c) = tk_next (st c)" if "prio st c \<noteq> prio st a" for c
        using that by (auto simp: eqs set_next_def)
      show "ln_head ln' c = ln_head ln c \<and> ln_tail ln' c = ln_tail ln c" if "c \<noteq> prio st a" for c
        using that a(2) by (auto simp: eqs lb_def la_def)
      show "lane_bit (ln_bits ln') c = (if c = prio st a then ln_head ln' c \<noteq> None
          else lane_bit (ln_bits ln) c)" for c
        using a(2) bit by (auto simp: eqs lb_def la_def clear_if_empty_bits)
    qed (simp add: eqs)
    with eqs a low(3) bk False show ?thesis by (simp add: same_data_set_next)
  qed
qed

subsection \<open>Searching and unlinking\<close>

lemma lane_search_spec:
  assumes "lane_repr st ln xs"
  shows "(\<And>b. b \<in> set bs \<Longrightarrow> b < 256) \<Longrightarrow>
    case lane_search hit st ln bs of
      None \<Rightarrow> False
    | Some None \<Rightarrow> \<forall>b a. b \<in> set bs \<longrightarrow> a \<in> set (bucket st xs b) \<longrightarrow> \<not> hit a
    | Some (Some (b, prev, a)) \<Rightarrow> \<exists>cs ds us vs. bs = cs @ b # ds \<and>
        (\<forall>c a. c \<in> set cs \<longrightarrow> a \<in> set (bucket st xs c) \<longrightarrow> \<not> hit a) \<and>
        bucket st xs b = us @ a # vs \<and> hit a \<and> prev = last_ptr us \<and> (\<forall>u. u \<in> set us \<longrightarrow> \<not> hit u)"
proof (induction bs)
  case (Cons b bs)
  let ?xs = "bucket st xs b"
  have seg: "lseg (tk_next \<circ> st) (ln_head ln b) ?xs"
    using assms Cons.prems by (simp add: lane_repr_def queue_rep_def)
  note w = walk_spec [OF seg, of hit None]
  show ?case
  proof (cases "List.find hit ?xs")
    case None
    then have no: "\<not> hit a" if "a \<in> set ?xs" for a using that by (auto simp: find_None_iff)
    have step: "lane_search hit st ln (b # bs) = lane_search hit st ln bs" using w None by simp
    have "case lane_search hit st ln bs of
      None \<Rightarrow> False
    | Some None \<Rightarrow> \<forall>b a. b \<in> set bs \<longrightarrow> a \<in> set (bucket st xs b) \<longrightarrow> \<not> hit a
    | Some (Some (b, prev, a)) \<Rightarrow> \<exists>cs ds us vs. bs = cs @ b # ds \<and>
        (\<forall>c a. c \<in> set cs \<longrightarrow> a \<in> set (bucket st xs c) \<longrightarrow> \<not> hit a) \<and>
        bucket st xs b = us @ a # vs \<and> hit a \<and> prev = last_ptr us \<and> (\<forall>u. u \<in> set us \<longrightarrow> \<not> hit u)"
      using Cons.prems by (intro Cons.IH) auto
    with no show ?thesis unfolding step
      by (auto split: option.splits) (metis append_Cons set_ConsD)
  next
    case (Some a)
    let ?us = "takeWhile (Not \<circ> hit) ?xs"
    have "hit a" "?xs = ?us @ a # tl (dropWhile (Not \<circ> hit) ?xs)" using find_split [OF Some] by auto
    moreover have "lane_search hit st ln (b # bs) = Some (Some (b, last_ptr ?us, a))"
      using w Some by auto
    moreover have "\<not> hit u" if "u \<in> set ?us" for u using set_takeWhileD [OF that] by simp
    ultimately show ?thesis
      by simp (metis append_Nil empty_iff empty_set)
  qed
qed simp

lemma unlink_repr:
  assumes rep: "lane_repr st ln xs" and b: "b < 256" and bk: "bucket st xs b = us @ a # vs"
    and un: "lane_unlink st ln n b (last_ptr us) a = (st', ln', n')"
  shows "lane_repr st' ln' (remove1 a xs) \<and> n' = n - 1 \<and> same_data st st'"
proof -
  have q: "queue_rep (tk_next \<circ> st) (ln_head ln b) (ln_tail ln b) (us @ a # vs)"
    and bit: "lane_bit (ln_bits ln) b" using rep b bk by (auto simp: lane_repr_def)
  have a: "a \<in> set xs" "prio st a = b" using bucket_set [of a st xs b] bk by auto
  have us: "prio st c = b" if "c \<in> set us" for c using bucket_set [of c st xs b] bk that by auto
  define la where "la = (if us = [] then ln\<lparr>ln_head := (ln_head ln)(b := tk_next (st a))\<rparr> else ln)"
  define lb where "lb = (if Some a = ln_tail la b then la\<lparr>ln_tail := (ln_tail la)(b := last_ptr us)\<rparr> else la)"
  define sa where "sa = (if us = [] then st else set_next st (last us) (tk_next (st a)))"
  have eqs: "st' = sa" "ln' = clear_if_empty lb b" "n' = n - 1"
    using un by (auto simp: lane_unlink_def Let_def la_def lb_def sa_def last_ptr_def split: if_splits)
  have nx: "tk_next \<circ> st' = unlink_next (tk_next \<circ> st) (last_ptr us) a"
    by (auto simp: eqs sa_def unlink_next_def last_ptr_def set_next_next)
  have hd: "ln_head ln' = (if us = [] then (ln_head ln)(b := tk_next (st a)) else ln_head ln)"
    by (auto simp: eqs lb_def la_def)
  have tl: "ln_tail ln' = (if ln_tail ln b = Some a then (ln_tail ln)(b := last_ptr us) else ln_tail ln)"
    by (auto simp: eqs lb_def la_def)
  have data: "same_data st st'" by (simp add: eqs sa_def same_data_set_next)
  have "lane_repr st' ln' (remove1 a xs)"
  proof (rule lane_repr_remove [OF rep a(1)])
    have "a \<notin> set us" using q by (auto simp: queue_rep_def)
    then have "remove1 a (us @ a # vs) = us @ vs" by (simp add: remove1_append)
    then show "queue_rep (tk_next \<circ> st') (ln_head ln' (prio st a)) (ln_tail ln' (prio st a))
        (remove1 a (bucket st xs (prio st a)))"
      using queue_rep_unlink [OF q] a(2) bk hd tl by (auto simp: nx split: if_splits)
    show "tk_next (st' c) = tk_next (st c)" if "prio st c \<noteq> prio st a" for c
      using that us [of "last us"] a(2) by (auto simp: eqs sa_def set_next_def)
    show "tk_priority (st' c) = tk_priority (st c)" for c by (simp add: eqs sa_def)
    show "ln_head ln' c = ln_head ln c \<and> ln_tail ln' c = ln_tail ln c" if "c \<noteq> prio st a" for c
      using that a(2) by (auto simp: hd tl)
    show "lane_bit (ln_bits ln') c = (if c = prio st a then ln_head ln' c \<noteq> None
        else lane_bit (ln_bits ln) c)" for c
      using a(2) bit by (auto simp: eqs clear_if_empty_bits lb_def la_def)
  qed
  with eqs data show ?thesis by blast
qed

subsection \<open>Refinement of a list of pending tasks\<close>

datatype lane_op = LEnq addr | LDeq nat | LCancelId u64 | LCancelData u64

text \<open>The test each cancel function applies to a lane node.\<close>

fun lane_hit :: "lane_op \<Rightarrow> loom_task \<Rightarrow> bool" where
  "lane_hit (LCancelId tid) t \<longleftrightarrow> tk_task_id t = tid \<and> \<not> tk_cancelled t"
| "lane_hit (LCancelData d) t \<longleftrightarrow> tk_user_data t = d \<and> \<not> tk_cancelled t"
| "lane_hit _ t \<longleftrightarrow> False"

definition lane_cancel ::
    "(loom_task \<Rightarrow> bool) \<Rightarrow> store \<Rightarrow> lanes \<Rightarrow> u32 \<Rightarrow> (addr option \<times> store \<times> lanes \<times> u32) option" where
  "lane_cancel hit st ln n =
     (case lane_search (\<lambda>a. hit (st a)) st ln [0..<256] of
        None \<Rightarrow> None
      | Some None \<Rightarrow> Some (None, st, ln, n)
      | Some (Some (b, prev, a)) \<Rightarrow> Some (Some a, lane_unlink st ln n b prev a))"

fun lane_step :: "store \<times> lanes \<times> u32 \<Rightarrow> lane_op \<Rightarrow> (addr option \<times> store \<times> lanes \<times> u32) option" where
  "lane_step (st, ln, n) (LEnq a) = Some (None, loom_enqueue_unlocked st ln n a)"
| "lane_step (st, ln, n) (LDeq m) = Some (dequeue_lowest_priority_unlocked st ln n m)"
| "lane_step (st, ln, n) (LCancelId tid) = lane_cancel (lane_hit (LCancelId tid)) st ln n"
| "lane_step (st, ln, n) (LCancelData d) = lane_cancel (lane_hit (LCancelData d)) st ln n"

text \<open>The earliest task of the numerically smallest priority.\<close>

fun first_best :: "(addr \<Rightarrow> nat) \<Rightarrow> addr list \<Rightarrow> addr option" where
  "first_best p [] = None"
| "first_best p (x # xs) =
     (case first_best p xs of None \<Rightarrow> Some x | Some y \<Rightarrow> if p x \<le> p y then Some x else Some y)"

definition pick :: "store \<Rightarrow> (addr \<Rightarrow> bool) \<Rightarrow> addr list \<Rightarrow> addr option \<times> addr list" where
  "pick st hit xs =
     (case first_best (prio st) (filter hit xs) of None \<Rightarrow> (None, xs) | Some a \<Rightarrow> (Some a, remove1 a xs))"

fun pending_step :: "store \<Rightarrow> addr list \<Rightarrow> lane_op \<Rightarrow> addr option \<times> addr list" where
  "pending_step st xs (LEnq a) = (None, xs @ [a])"
| "pending_step st xs (LDeq m) = pick st (\<lambda>a. prio st a \<le> m) xs"
| "pending_step st xs op = pick st (\<lambda>a. lane_hit op (st a)) xs"

lemma first_best_None [simp]: "first_best p xs = None \<longleftrightarrow> xs = []"
  by (cases xs) (auto split: option.splits)

lemma first_best_Some:
  "first_best p xs = Some a \<Longrightarrow> a \<in> set xs \<and> (\<forall>x. x \<in> set xs \<longrightarrow> p a \<le> p x) \<and>
     (\<exists>ys. filter (\<lambda>x. p x = p a) xs = a # ys)"
proof (induction xs arbitrary: a)
  case (Cons x xs)
  then show ?case
    by (cases "first_best p xs") (auto split: if_splits simp: le_less dest: le_less_trans)
qed simp

lemma first_best_eq:
  assumes "filter (\<lambda>x. p x = p a) xs = a # ys" "\<And>x. x \<in> set xs \<Longrightarrow> p a \<le> p x"
  shows "first_best p xs = Some a"
proof -
  have "a \<in> set (filter (\<lambda>x. p x = p a) xs)" unfolding assms(1) by simp
  then have a: "a \<in> set xs" by simp
  then obtain c where c: "first_best p xs = Some c" by (cases "first_best p xs") auto
  obtain zs where f: "c \<in> set xs" "p c \<le> p a" "filter (\<lambda>x. p x = p c) xs = c # zs"
    using first_best_Some [OF c] a by blast
  have "p c = p a" using f(2) assms(2) [OF f(1)] by (rule order_antisym)
  then have "a # ys = c # zs" using f(3) assms(1) by metis
  with c show ?thesis by simp
qed

lemma pending_step_data:
  assumes "same_data st st'"
  shows "pending_step st' xs op = pending_step st xs op"
proof -
  note f = same_data_fields [OF assms]
  have "prio st' a = prio st a" "lane_hit op (st' a) = lane_hit op (st a)" for a
    using f by (simp, cases op) simp_all
  then show ?thesis by (cases op) (simp_all add: pick_def)
qed

lemma dequeue_picks:
  assumes "lane_repr st ln xs" "dequeue_lowest_priority_unlocked st ln n m = (r, st', ln', n')"
  shows "\<exists>xs'. pick st (\<lambda>a. prio st a \<le> m) xs = (r, xs') \<and> lane_repr st' ln' xs' \<and> same_data st st' \<and>
           n' = n + of_nat (length xs') - of_nat (length xs)"
proof (cases r)
  case None
  with dequeue_repr [OF assms] have "\<forall>a. a \<in> set xs \<longrightarrow> m < prio st a" "st' = st" "ln' = ln" "n' = n"
    by simp_all
  moreover from this(1) have "filter (\<lambda>a. prio st a \<le> m) xs = []" by (auto simp: filter_empty_conv)
  ultimately show ?thesis using None assms(1) same_data_refl by (simp add: pick_def)
next
  case (Some a)
  with dequeue_repr [OF assms] obtain ys where d: "prio st a \<le> m" "bucket st xs (prio st a) = a # ys"
    "\<forall>c. c \<in> set xs \<longrightarrow> prio st a \<le> prio st c" "lane_repr st' ln' (remove1 a xs)" "n' = n - 1"
    "same_data st st'" by auto
  have f: "filter (\<lambda>x. prio st x = prio st a) (filter (\<lambda>x. prio st x \<le> m) xs) = a # ys"
  proof -
    have "filter (\<lambda>x. prio st x \<le> m \<and> prio st x = prio st a) xs = filter (\<lambda>x. prio st x = prio st a) xs"
      using d(1) by (intro filter_cong) auto
    with d(2) show ?thesis by (simp add: bucket_def)
  qed
  have "first_best (prio st) (filter (\<lambda>x. prio st x \<le> m) xs) = Some a"
    using d(3) by (intro first_best_eq [OF f]) simp
  moreover have "a \<in> set xs" using d(2) bucket_set [of a st xs "prio st a"] by simp
  then have "length (remove1 a xs) = length xs - 1" "0 < length xs"
    by (simp_all add: length_remove1 length_pos_if_in_set del: length_greater_0_conv)
  moreover from this(2) have "(of_nat (length xs - 1) :: u32) = of_nat (length xs) - 1"
    by (simp add: of_nat_diff Suc_le_eq)
  ultimately show ?thesis using Some d by (simp add: pick_def)
qed

lemma remove_count:
  assumes "a \<in> set xs"
  shows "n - 1 = n + of_nat (length (remove1 a xs)) - (of_nat (length xs) :: u32)"
proof -
  have "0 < length xs" using assms by (cases xs) auto
  then have "(of_nat (length xs - 1) :: u32) = of_nat (length xs) - 1" by (simp add: of_nat_diff Suc_le_eq)
  with assms show ?thesis by (simp add: length_remove1)
qed

lemma upt_split:
  assumes "[0..<n] = cs @ b # ds"
  shows "b < n" "cs = [0..<b]"
proof -
  have len: "length cs < n" using arg_cong [OF assms, of length] by simp
  have "[0..<n] ! length cs = b" unfolding assms by simp
  then have b: "b = length cs" using len by simp
  then show "b < n" using len by simp
  have "take b [0..<n] = cs" unfolding assms b by simp
  then show "cs = [0..<b]" using len b by (simp add: take_upt)
qed

text \<open>The node the lane walk stops at is the one a priority-first, arrival-second choice makes.\<close>

lemma search_hit:
  assumes low: "\<forall>c a. c \<in> set [0..<b] \<longrightarrow> a \<in> set (bucket st xs c) \<longrightarrow> \<not> hit a"
    and bk: "bucket st xs b = us @ a # vs" and h: "hit a" "\<forall>u. u \<in> set us \<longrightarrow> \<not> hit u"
  shows "first_best (prio st) (filter hit xs) = Some a" "a \<in> set xs"
proof -
  have a: "a \<in> set xs" "prio st a = b" using bucket_set [of a st xs b] bk by auto
  show "a \<in> set xs" by (rule a)
  have "filter (\<lambda>x. prio st x = prio st a) (filter hit xs) = filter hit (bucket st xs b)"
    using a(2) by (simp add: bucket_def conj_commute)
  also have "\<dots> = a # filter hit vs" using bk h by (simp add: filter_empty_conv)
  finally show "first_best (prio st) (filter hit xs) = Some a"
  proof (rule first_best_eq)
    fix x assume "x \<in> set (filter hit xs)"
    then have x: "x \<in> set (bucket st xs (prio st x))" "hit x" by (simp_all add: bucket_set)
    show "prio st a \<le> prio st x"
    proof (rule ccontr)
      assume "\<not> prio st a \<le> prio st x"
      then have "prio st x \<in> set [0..<b]" using a(2) by simp
      with low x show False by blast
    qed
  qed
qed

lemma cancel_picks:
  assumes rep: "lane_repr st ln xs"
  shows "\<exists>r st' ln' n' xs'. lane_cancel hit st ln n = Some (r, st', ln', n') \<and>
           pick st (\<lambda>a. hit (st a)) xs = (r, xs') \<and> lane_repr st' ln' xs' \<and> same_data st st' \<and>
           n' = n + of_nat (length xs') - of_nat (length xs)"
proof -
  let ?h = "\<lambda>a. hit (st a)"
  have lt: "\<And>b. b \<in> set [0..<256] \<Longrightarrow> b < (256::nat)" by simp
  note spec = lane_search_spec [OF rep lt, of "[0..<256]" "\<lambda>a. hit (st a)"]
  consider (miss) "lane_search (\<lambda>a. hit (st a)) st ln [0..<256] = Some None"
    | (hit) b prev a where "lane_search (\<lambda>a. hit (st a)) st ln [0..<256] = Some (Some (b, prev, a))"
    using spec by (auto split: option.splits)
  then show ?thesis
  proof cases
    case miss
    then have no: "\<forall>b a. b \<in> set [0..<256] \<longrightarrow> a \<in> set (bucket st xs b) \<longrightarrow> \<not> ?h a" using spec by simp
    have "filter ?h xs = []"
    proof (rule filter_False, rule ballI)
      fix a assume "a \<in> set xs"
      then have "a \<in> set (bucket st xs (prio st a))" by (simp add: bucket_set)
      with no prio_less [of st a] show "\<not> ?h a" by auto
    qed
    with miss rep show ?thesis by (simp add: lane_cancel_def pick_def)
  next
    case (hit b prev a)
    then obtain cs ds us vs where
      s: "[0..<256] = cs @ b # ds" "\<forall>c a. c \<in> set cs \<longrightarrow> a \<in> set (bucket st xs c) \<longrightarrow> \<not> ?h a"
        "bucket st xs b = us @ a # vs" "?h a" "prev = last_ptr us" "\<forall>u. u \<in> set us \<longrightarrow> \<not> ?h u"
      using spec by auto
    note c = upt_split [OF s(1)]
    note f = search_hit [OF s(2) [unfolded c(2)] s(3,4,6)]
    have pick: "pick st ?h xs = (Some a, remove1 a xs)" using f(1) by (simp add: pick_def)
    obtain st' ln' n' where un: "lane_unlink st ln n b (last_ptr us) a = (st', ln', n')" by (metis surj_pair)
    have "lane_cancel hit st ln n = Some (Some a, st', ln', n')"
      using hit s(5) un by (simp add: lane_cancel_def)
    with pick unlink_repr [OF rep c(1) s(3) un] remove_count [OF f(2), of n] show ?thesis by auto
  qed
qed

lemma lane_step_sim:
  assumes rep: "lane_repr st ln xs" and fresh: "\<And>a. op = LEnq a \<Longrightarrow> a \<notin> set xs"
  shows "\<exists>r st' ln' n' xs'. lane_step (st, ln, n) op = Some (r, st', ln', n') \<and>
           pending_step st xs op = (r, xs') \<and> lane_repr st' ln' xs' \<and> same_data st st' \<and>
           n' = n + of_nat (length xs') - of_nat (length xs)"
proof (cases op)
  case (LEnq a)
  obtain st' ln' n' where e: "loom_enqueue_unlocked st ln n a = (st', ln', n')" by (metis surj_pair)
  with enqueue_repr [OF rep fresh [OF LEnq] e] LEnq show ?thesis by simp
next
  case (LDeq m)
  obtain r st' ln' n' where d: "dequeue_lowest_priority_unlocked st ln n m = (r, st', ln', n')"
    by (metis surj_pair)
  with dequeue_picks [OF rep d] LDeq show ?thesis by simp
next
  case (LCancelId tid)
  with cancel_picks [OF rep, of "lane_hit op" n] show ?thesis by simp
next
  case (LCancelData d)
  with cancel_picks [OF rep, of "lane_hit op" n] show ?thesis by simp
qed

fun run_lanes :: "store \<times> lanes \<times> u32 \<Rightarrow> lane_op list \<Rightarrow> (addr option list \<times> store \<times> lanes \<times> u32) option" where
  "run_lanes s [] = Some ([], s)"
| "run_lanes s (op # ops) =
     (case lane_step s op of
        None \<Rightarrow> None
      | Some (r, s') \<Rightarrow> map_option (apfst (Cons r)) (run_lanes s' ops))"

fun run_pending :: "store \<Rightarrow> addr list \<Rightarrow> lane_op list \<Rightarrow> addr option list \<times> addr list" where
  "run_pending st xs [] = ([], xs)"
| "run_pending st xs (op # ops) =
     (case pending_step st xs op of (r, xs') \<Rightarrow> apfst (Cons r) (run_pending st xs' ops))"

text \<open>A node is enqueued only while it is not in a lane.\<close>

fun enqueues_fresh :: "store \<Rightarrow> addr list \<Rightarrow> lane_op list \<Rightarrow> bool" where
  "enqueues_fresh st xs [] = True"
| "enqueues_fresh st xs (op # ops) =
     ((case op of LEnq a \<Rightarrow> a \<notin> set xs | _ \<Rightarrow> True) \<and> enqueues_fresh st (snd (pending_step st xs op)) ops)"

lemma run_lanes_refines:
  "lane_repr st ln xs \<Longrightarrow> same_data st0 st \<Longrightarrow> enqueues_fresh st0 xs ops \<Longrightarrow>
   run_pending st0 xs ops = (rs, xs') \<Longrightarrow>
   \<exists>st' ln' n'. run_lanes (st, ln, n) ops = Some (rs, st', ln', n') \<and> lane_repr st' ln' xs' \<and>
     n' = n + of_nat (length xs') - of_nat (length xs)"
proof (induction ops arbitrary: st ln n xs rs)
  case (Cons op ops)
  have fresh: "\<And>a. op = LEnq a \<Longrightarrow> a \<notin> set xs" using Cons.prems(3) by auto
  obtain r sta lna na xsa where step: "lane_step (st, ln, n) op = Some (r, sta, lna, na)"
    "pending_step st xs op = (r, xsa)" "lane_repr sta lna xsa" "same_data st sta"
    "na = n + of_nat (length xsa) - of_nat (length xs)"
    using lane_step_sim [OF Cons.prems(1) fresh] by blast
  have ps: "pending_step st0 xs op = (r, xsa)" using step(2) pending_step_data [OF Cons.prems(2)] by simp
  obtain rsa where run: "run_pending st0 xsa ops = (rsa, xs')" "rs = r # rsa"
    using Cons.prems(4) ps by (cases "run_pending st0 xsa ops") auto
  have "enqueues_fresh st0 xsa ops" using Cons.prems(3) ps by simp
  from Cons.IH [OF step(3) same_data_trans [OF Cons.prems(2) step(4)] this run(1), of na]
  obtain st' ln' n' where "run_lanes (sta, lna, na) ops = Some (rsa, st', ln', n')"
    "lane_repr st' ln' xs'" "n' = na + of_nat (length xs') - of_nat (length xsa)" by blast
  with step(1,5) run(2) show ?case by simp
qed simp

text \<open>
  C10.  The linked priority buckets with their occupancy bitmap implement a list of
  pending tasks: for every sequence of enqueues of nodes not already queued, bounded
  dequeues and cancellations by id or by user data, every operation returns; a dequeue with
  bound \<open>m\<close> returns the earliest task of the numerically smallest pending priority if that
  is at most \<open>m\<close>; a cancellation unlinks the first match in that order; nothing else is
  lost or moved, and \<open>queue_len\<close> changes with the number of pending tasks.
\<close>

theorem lanes_refine_pending:
  assumes "enqueues_fresh st [] ops" and "run_pending st [] ops = (rs, xs)"
  shows "\<exists>st' ln' n'. run_lanes (st, lanes_new, n) ops = Some (rs, st', ln', n') \<and>
           lane_repr st' ln' xs \<and> n' = n + of_nat (length xs)"
  using run_lanes_refines [OF lane_repr_new same_data_refl assms, of n] by simp

definition lane_store :: store where
  "lane_store a = \<lparr>tk_fn = 1, tk_user_data = of_nat a, tk_cancelled = False, tk_task_id = of_nat a,
     tk_priority = (if a = 3 then 0 else if a = 4 then 255 else 5), tk_next = None, tk_free_data = False,
     tk_is_future = False, tk_is_coro = False, tk_coro_fn = 0, tk_stack_size = 0, tk_completion = None\<rparr>"

theorem lanes_refine_pending_witness:
  "map_option fst (run_lanes (lane_store, lanes_new, 0)
     [LEnq 1, LEnq 2, LEnq 3, LEnq 4, LEnq 6, LCancelId 2, LDeq 4, LDeq 4, LDeq 255, LCancelData 4, LDeq 255, LDeq 255]) =
   Some [None, None, None, None, None, Some 2, Some 3, None, Some 1, Some 4, Some 6, None]"
proof -
  let ?ops = "[LEnq 1, LEnq 2, LEnq 3, LEnq 4, LEnq 6, LCancelId 2, LDeq 4, LDeq 4, LDeq 255, LCancelData 4, LDeq 255, LDeq 255]"
  have "enqueues_fresh lane_store [] ?ops" by code_simp
  moreover have "run_pending lane_store [] ?ops =
      ([None, None, None, None, None, Some 2, Some 3, None, Some 1, Some 4, Some 6, None], [])" by code_simp
  ultimately show ?thesis using lanes_refine_pending [of lane_store ?ops] by fastforce
qed

end
