(* ===== verification/Node_Pool.thy ===== *)
theory Node_Pool
  imports Task_Node
begin

text \<open>
  The node allocator of \<^verbatim>\<open>src/src/thread_pool.c\<close>: a free list of slot indices kept as a stack
  whose 64-bit head packs the slot (low half) with a tag (high half).  A node of the pool
  is the address \<open>np_base + slot\<close>; the C code divides byte distances by the node size.
  Calls are one step each here.  A missing pool has capacity \<open>0\<close>.
\<close>

definition NODE_FREE_END :: u32 where
  "NODE_FREE_END = - 1"

definition LOOMWORKS_NODE_POOL_CAP :: nat where
  "LOOMWORKS_NODE_POOL_CAP = 4096"

record node_pool =
  np_base :: addr
  np_cap :: nat
  np_next :: "u32 list"
  np_stack :: u64

definition stack_slot :: "u64 \<Rightarrow> u32" where
  "stack_slot h = ucast h"

definition stack_tag :: "u64 \<Rightarrow> u32" where
  "stack_tag h = ucast (drop_bit 32 h)"

text \<open>\<open>(((uint64_t)((uint32_t)(head >> 32) + 1) << 32) | slot)\<close>\<close>

definition stack_update :: "u64 \<Rightarrow> u32 \<Rightarrow> u64" where
  "stack_update head slot = push_bit 32 (ucast (stack_tag head + 1)) OR ucast slot"

definition node_from_pool :: "node_pool \<Rightarrow> addr \<Rightarrow> bool" where
  "node_from_pool p a \<longleftrightarrow> np_cap p \<noteq> 0 \<and> np_base p \<le> a \<and> a < np_base p + np_cap p"

text \<open>The read-only walk: the last slot to detach and how many slots that makes.\<close>

function pop_walk :: "u32 list \<Rightarrow> u32 \<Rightarrow> nat \<Rightarrow> nat \<Rightarrow> u32 \<times> nat" where
  "pop_walk nx cur n want =
     (if n < want then
        (let link = nx ! unat cur in
         if link = NODE_FREE_END then (cur, n) else pop_walk nx link (n + 1) want)
      else (cur, n))"
  by pat_completeness auto
termination by (relation "measure (\<lambda>(nx, cur, n, want). want - n)") auto

declare pop_walk.simps [simp del]

text \<open>The second walk that hands out the detached slots.\<close>

fun pop_collect :: "u32 list \<Rightarrow> u32 \<Rightarrow> nat \<Rightarrow> u32 list" where
  "pop_collect nx det 0 = []"
| "pop_collect nx det (Suc n) = det # pop_collect nx (nx ! unat det) n"

definition node_stack_batch_pop :: "node_pool \<Rightarrow> nat \<Rightarrow> addr list \<times> node_pool" where
  "node_stack_batch_pop p want =
     (if np_cap p = 0 \<or> want = 0 then ([], p)
      else
        (let head = np_stack p; slot = stack_slot head in
         if slot = NODE_FREE_END then ([], p)
         else
           (case pop_walk (np_next p) slot 1 want of
              (cur, n) \<Rightarrow>
                let successor = np_next p ! unat cur in
                (map (\<lambda>s. np_base p + unat s) (pop_collect (np_next p) slot n),
                 p\<lparr>np_stack := stack_update head successor\<rparr>))))"

definition slot_of :: "node_pool \<Rightarrow> addr \<Rightarrow> u32" where
  "slot_of p a = of_nat (a - np_base p)"

text \<open>Linking the nodes of a batch one after the other; the last link is set at the end.\<close>

fun link_batch :: "node_pool \<Rightarrow> u32 list \<Rightarrow> addr list \<Rightarrow> u32 list" where
  "link_batch p nx (a # b # xs) = link_batch p (nx[unat (slot_of p a) := slot_of p b]) (b # xs)"
| "link_batch p nx xs = nx"

definition node_stack_batch_push :: "node_pool \<Rightarrow> addr list \<Rightarrow> bool \<times> node_pool" where
  "node_stack_batch_push p ins =
     (if ins = [] then (True, p)
      else if np_cap p = 0 then (False, p)
      else if \<not> list_all (node_from_pool p) ins then (False, p)
      else
        (let nx = link_batch p (np_next p) ins;
             first = slot_of p (hd ins);
             last = slot_of p (last ins);
             head = np_stack p;
             old_head = stack_slot head
         in (True, p\<lparr>np_next := nx[unat last := old_head], np_stack := stack_update head first\<rparr>)))"

text \<open>
  The pool after \<open>pool_init\<close>: the chain \<open>0, 1, \<dots>, cap - 1\<close>, or the empty chain when an
  allocation failed (\<open>cap = 0\<close>).
\<close>

definition node_pool_new :: "addr \<Rightarrow> nat \<Rightarrow> node_pool" where
  "node_pool_new base cap =
     \<lparr>np_base = base, np_cap = cap,
      np_next = map (\<lambda>i. if i + 1 < cap then of_nat (i + 1) else NODE_FREE_END) [0..<cap],
      np_stack = (if cap = 0 then ucast NODE_FREE_END else 0)\<rparr>"

subsection \<open>The packed head\<close>

lemma stack_slot_update [simp]: "stack_slot (stack_update h s) = s"
  by (rule bit_word_eqI) (auto simp: stack_slot_def stack_update_def bit_simps)

lemma stack_tag_update [simp]: "stack_tag (stack_update h s) = stack_tag h + 1"
proof -
  have "stack_tag (push_bit 32 (ucast x) OR ucast s) = x" for x :: u32
    by (rule bit_word_eqI) (auto simp: stack_tag_def bit_simps dest: bit_imp_le_length)
  then show ?thesis by (simp add: stack_update_def)
qed

subsection \<open>The free list\<close>

fun chain :: "u32 list \<Rightarrow> u32 \<Rightarrow> u32 list \<Rightarrow> bool" where
  "chain nx h [] \<longleftrightarrow> h = NODE_FREE_END"
| "chain nx h (s # ss) \<longleftrightarrow> h = s \<and> s \<noteq> NODE_FREE_END \<and> unat s < length nx \<and> chain nx (nx ! unat s) ss"

definition pool_free :: "node_pool \<Rightarrow> u32 list \<Rightarrow> bool" where
  "pool_free p ss \<longleftrightarrow> length (np_next p) = np_cap p \<and> np_cap p < 2 ^ 32 \<and>
     (np_cap p = 0 \<longrightarrow> ss = []) \<and> chain (np_next p) (stack_slot (np_stack p)) ss \<and> distinct ss"

lemma chain_frame:
  "(\<And>s. s \<in> set ss \<Longrightarrow> nx' ! unat s = nx ! unat s) \<Longrightarrow> length nx' = length nx \<Longrightarrow>
   chain nx' h ss = chain nx h ss"
proof (induction ss arbitrary: h)
  case (Cons s ss)
  have "nx' ! unat s = nx ! unat s" by (rule Cons.prems) simp
  moreover have "chain nx' (nx ! unat s) ss = chain nx (nx ! unat s) ss"
    by (rule Cons.IH) (use Cons.prems in simp_all)
  ultimately show ?case using Cons.prems(2) by simp
qed simp

lemma chain_unique: "chain nx h ss \<Longrightarrow> chain nx h ts \<Longrightarrow> ss = ts"
proof (induction ss arbitrary: h ts)
  case Nil
  then show ?case by (cases ts) auto
next
  case (Cons s ss)
  then show ?case by (cases ts) auto
qed

lemma pop_walk_spec:
  "chain nx s (s # ss) \<Longrightarrow> n \<le> want \<Longrightarrow>
   pop_walk nx s n want =
     (last (take (Suc (want - n)) (s # ss)), n + length (take (want - n) ss))"
proof (induction ss arbitrary: s n)
  case Nil
  then show ?case by (simp add: pop_walk.simps [of nx s n want])
next
  case (Cons t ss)
  show ?case
  proof (cases "n < want")
    case True
    then obtain k where k: "want - n = Suc k" "want - Suc n = k" by (metis Suc_diff_Suc)
    have "nx ! unat s = t" "t \<noteq> NODE_FREE_END" using Cons.prems by auto
    then have "pop_walk nx s n want = pop_walk nx t (Suc n) want"
      using True by (simp add: pop_walk.simps [of nx s n want])
    also have "\<dots> = (last (take (Suc k) (t # ss)), Suc n + length (take k ss))"
      using Cons.IH [of t "Suc n"] Cons.prems True k by simp
    finally show ?thesis using k by simp
  next
    case False
    then show ?thesis
      using Cons.prems by (simp add: pop_walk.simps [of nx s n want] pop_walk.simps [of nx s want want])
  qed
qed

lemma pop_collect_spec: "chain nx h ss \<Longrightarrow> n \<le> length ss \<Longrightarrow> pop_collect nx h n = take n ss"
proof (induction n arbitrary: h ss)
  case (Suc n)
  then show ?case by (cases ss) auto
qed simp

lemma chain_drop:
  "chain nx h ss \<Longrightarrow> 0 < n \<Longrightarrow> n \<le> length ss \<Longrightarrow> chain nx (nx ! unat (last (take n ss))) (drop n ss)"
proof (induction n arbitrary: h ss)
  case (Suc n)
  then obtain s ts where ss: "ss = s # ts" by (cases ss) auto
  show ?case
  proof (cases "n = 0")
    case True
    with Suc.prems ss show ?thesis by simp
  next
    case False
    then obtain m where m: "n = Suc m" by (cases n) auto
    with Suc.prems ss have "take n ts \<noteq> []" by auto
    with Suc.IH [of "nx ! unat s" ts] Suc.prems ss False show ?thesis by simp
  qed
qed simp

definition slot_node :: "node_pool \<Rightarrow> u32 \<Rightarrow> addr" where
  "slot_node p s = np_base p + unat s"

lemma batch_pop_spec:
  assumes "pool_free p ss"
  shows "\<exists>p'. node_stack_batch_pop p want = (map (slot_node p) (take want ss), p') \<and>
           pool_free p' (drop want ss) \<and> np_base p' = np_base p \<and> np_cap p' = np_cap p"
proof (cases "np_cap p = 0 \<or> want = 0 \<or> ss = []")
  case True
  with assms have "node_stack_batch_pop p want = ([], p)" "take want ss = []" "drop want ss = ss"
    by (auto simp: node_stack_batch_pop_def pool_free_def)
  with assms show ?thesis by simp
next
  case False
  then obtain s ts where ss: "ss = s # ts" by (cases ss) auto
  have ch: "chain (np_next p) s (s # ts)" and sl: "stack_slot (np_stack p) = s" "s \<noteq> NODE_FREE_END"
    using assms ss by (auto simp: pool_free_def)
  let ?n = "length (take want ss)"
  have n: "0 < ?n" "?n \<le> length ss" "take ?n ss = take want ss" "drop ?n ss = drop want ss"
    using False ss by (auto simp: min_def)
  obtain k where k: "want = Suc k" using False by (cases want) auto
  have walk: "pop_walk (np_next p) s 1 want = (last (take want ss), ?n)"
    using pop_walk_spec [OF ch, of 1 want] k ss by simp
  have col: "pop_collect (np_next p) s ?n = take want ss"
    using pop_collect_spec [of "np_next p" s ss ?n] ch n ss by simp
  define p' where "p' = p\<lparr>np_stack := stack_update (np_stack p) (np_next p ! unat (last (take want ss)))\<rparr>"
  have "node_stack_batch_pop p want = (map (slot_node p) (take want ss), p')"
    using False sl walk col
    by (simp add: node_stack_batch_pop_def Let_def slot_node_def p'_def)
  moreover have "pool_free p' (drop want ss)"
    using chain_drop [of "np_next p" s ss ?n] ch n assms ss by (simp add: pool_free_def p'_def)
  ultimately show ?thesis by (simp add: p'_def)
qed

lemma slot_of_props:
  assumes "node_from_pool p a" "np_cap p < 2 ^ 32"
  shows "unat (slot_of p a) = a - np_base p" "unat (slot_of p a) < np_cap p" "slot_of p a \<noteq> NODE_FREE_END"
    "slot_node p (slot_of p a) = a"
proof -
  have lt: "a - np_base p < np_cap p" "np_base p \<le> a" using assms(1) by (auto simp: node_from_pool_def)
  then show u: "unat (slot_of p a) = a - np_base p"
    using assms(2) unat_u32_of_nat [of "a - np_base p"] by (simp only: slot_of_def)
  with lt show "unat (slot_of p a) < np_cap p" by simp
  then show "slot_of p a \<noteq> NODE_FREE_END" using assms(2) by (auto simp: NODE_FREE_END_def unat_u32_max)
  show "slot_node p (slot_of p a) = a" using u lt by (simp add: slot_node_def)
qed

lemma link_batch_length [simp]: "length (link_batch p nx xs) = length nx"
  by (induction p nx xs rule: link_batch.induct) auto

lemma link_batch_other:
  "s \<notin> slot_of p ` set xs \<Longrightarrow> link_batch p nx xs ! unat s = nx ! unat s"
proof (induction p nx xs rule: link_batch.induct)
  case (1 p nx a b xs)
  then have "unat (slot_of p a) \<noteq> unat s" by (auto simp: word_unat_eq_iff [symmetric])
  with 1 show ?case by simp
qed auto

lemma link_batch_chain:
  "ins \<noteq> [] \<Longrightarrow> (\<And>a. a \<in> set ins \<Longrightarrow> node_from_pool p a) \<Longrightarrow> np_cap p < 2 ^ 32 \<Longrightarrow>
   length nx = np_cap p \<Longrightarrow> distinct (map (slot_of p) ins @ ss) \<Longrightarrow> chain nx h ss \<Longrightarrow>
   chain ((link_batch p nx ins)[unat (slot_of p (last ins)) := h]) (slot_of p (hd ins))
     (map (slot_of p) ins @ ss)"
proof (induction ins arbitrary: nx)
  case (Cons a ins)
  have a: "unat (slot_of p a) < length nx" "slot_of p a \<noteq> NODE_FREE_END"
    using slot_of_props [of p a] Cons.prems by auto
  have out: "slot_of p a \<notin> set ss" using Cons.prems(5) by auto
  have frame: "chain (nx[unat (slot_of p a) := v]) h ss" for v
    using chain_frame [of ss "nx[unat (slot_of p a) := v]" nx h] out Cons.prems(6)
    by (metis length_list_update nth_list_update_neq word_unat_eq_iff)
  show ?case
  proof (cases ins)
    case Nil
    with a frame show ?thesis by simp
  next
    case (Cons b xs)
    let ?nx = "nx[unat (slot_of p a) := slot_of p b]"
    let ?r = "(link_batch p ?nx ins)[unat (slot_of p (last ins)) := h]"
    have "chain ?r (slot_of p (hd ins)) (map (slot_of p) ins @ ss)"
      using Cons.prems frame Cons by (intro Cons.IH) auto
    moreover have "slot_of p a \<notin> slot_of p ` set ins" using Cons.prems(5) by auto
    moreover from this have "slot_of p (last ins) \<noteq> slot_of p a"
      by (metis Cons image_eqI last_in_set list.discI)
    then have "unat (slot_of p (last ins)) \<noteq> unat (slot_of p a)" by (simp add: word_unat_eq_iff)
    ultimately have cell: "?r ! unat (slot_of p a) = slot_of p b"
      using link_batch_other [of "slot_of p a" p ins ?nx] a by simp
    with a \<open>chain ?r _ _\<close> Cons show ?thesis by simp
  qed
qed simp

lemma batch_push_spec:
  assumes "pool_free p ss" "list_all (node_from_pool p) ins"
    "distinct (map (slot_of p) ins @ ss)"
  shows "\<exists>p'. node_stack_batch_push p ins = (True, p') \<and> pool_free p' (map (slot_of p) ins @ ss) \<and>
           np_base p' = np_base p \<and> np_cap p' = np_cap p"
proof (cases "ins = []")
  case True
  with assms show ?thesis by (simp add: node_stack_batch_push_def)
next
  case False
  then have cap: "np_cap p \<noteq> 0" using assms(2) by (cases ins) (auto simp: node_from_pool_def)
  define p' where "p' = p\<lparr>np_next := (link_batch p (np_next p) ins)
      [unat (slot_of p (last ins)) := stack_slot (np_stack p)],
      np_stack := stack_update (np_stack p) (slot_of p (hd ins))\<rparr>"
  have "node_stack_batch_push p ins = (True, p')"
    using False cap assms(2) by (simp add: node_stack_batch_push_def Let_def p'_def)
  moreover have "pool_free p' (map (slot_of p) ins @ ss)"
    using link_batch_chain [OF False, of p "np_next p" ss "stack_slot (np_stack p)"] assms cap
    by (simp add: pool_free_def p'_def list_all_iff)
  ultimately show ?thesis by (simp add: p'_def)
qed

lemma chain_upto:
  assumes "cap < 2 ^ 32" "nx = map (\<lambda>i. if i + 1 < cap then of_nat (i + 1) else NODE_FREE_END) [0..<cap]"
  shows "i < cap \<Longrightarrow> chain nx (of_nat i) (map of_nat [i..<cap])"
proof (induction "cap - i" arbitrary: i)
  case (Suc n)
  have i: "unat (of_nat i :: u32) = i" "(of_nat i :: u32) \<noteq> NODE_FREE_END"
    using Suc.prems assms(1) by (auto simp: unat_u32_of_nat NODE_FREE_END_def unat_u32_max word_unat_eq_iff)
  have up: "[i..<cap] = i # [Suc i..<cap]" using Suc.prems by (simp add: upt_conv_Cons)
  show ?case
  proof (cases "Suc i < cap")
    case True
    with Suc.hyps(1) [of "Suc i"] Suc.hyps(2) i up Suc.prems assms(2) show ?thesis by simp
  next
    case False
    with i up Suc.prems assms(2) show ?thesis by simp
  qed
qed simp

lemma node_pool_new_free:
  assumes "cap < 2 ^ 32"
  shows "pool_free (node_pool_new base cap) (map of_nat [0..<cap])"
proof (cases "cap = 0")
  case True
  have "stack_slot (ucast NODE_FREE_END) = NODE_FREE_END"
    by (rule bit_word_eqI) (auto simp: stack_slot_def bit_simps)
  with True show ?thesis by (simp add: pool_free_def node_pool_new_def)
next
  case False
  have "inj_on (of_nat :: nat \<Rightarrow> u32) {0..<cap}"
    using assms(1) by (intro inj_onI) (metis atLeastLessThan_iff less_trans unat_u32_of_nat)
  then have "distinct (map (of_nat :: nat \<Rightarrow> u32) [0..<cap])" by (simp add: distinct_map)
  moreover have "chain (np_next (node_pool_new base cap)) (of_nat 0) (map of_nat [0..<cap])"
    using assms False by (intro chain_upto) (auto simp: node_pool_new_def)
  ultimately show ?thesis
    using assms False by (simp add: pool_free_def node_pool_new_def stack_slot_def)
qed

end
