(* ===== verification/Node_Cache.thy ===== *)
theory Node_Cache
  imports Node_Pool "HOL-Library.Disjoint_Sets"
begin



record pool_reg_entry =
  pe_id :: u64
  pe_pool :: addr

record tls_cache =
  tls_nodes :: "ptr list"
  tls_owner_id :: u64
  tls_next :: nat

text \<open>The fields of a pool the allocator uses.\<close>

record pool_alloc =
  pa_id :: u64
  pa_nodes :: node_pool
  pa_next_task_id :: u64

record alloc_state =
  g_pool_reg :: "pool_reg_entry list"
  g_pool_next_id :: u64
  as_pool :: "addr \<Rightarrow> pool_alloc"
  as_tls :: "nat \<Rightarrow> tls_cache"
  as_store :: store

subsection \<open>The registry of live pools\<close>




subsection \<open>The cache of a thread\<close>





definition set_tls :: "alloc_state \<Rightarrow> nat \<Rightarrow> tls_cache \<Rightarrow> alloc_state" where
  "set_tls s th c = s\<lparr>as_tls := (as_tls s)(th := c)\<rparr>"




subsection \<open>Creating and destroying a task node\<close>






subsection \<open>Runs of the allocator\<close>




definition live_pools :: "alloc_state \<Rightarrow> addr list" where
  "live_pools s = map pe_pool (g_pool_reg s)"

abbreviation nodes_of :: "alloc_state \<Rightarrow> addr \<Rightarrow> node_pool" where
  "nodes_of s p \<equiv> pa_nodes (as_pool s p)"





subsection \<open>Who holds a node\<close>



















subsection \<open>The invariant of the allocator\<close>


abbreviation owner_of :: "alloc_state \<Rightarrow> nat \<Rightarrow> u64" where
  "owner_of s th \<equiv> tls_owner_id (as_tls s th)"

abbreviation ident :: "alloc_state \<Rightarrow> addr \<Rightarrow> u64" where
  "ident s p \<equiv> pa_id (as_pool s p)"














text \<open>What the operations of a thread leave alone: the live pools, their ids and their arrays.\<close>

definition same_pools :: "alloc_state \<Rightarrow> alloc_state \<Rightarrow> bool" where
  "same_pools s s' \<longleftrightarrow> live_pools s' = live_pools s \<and>
     (\<forall>q. ident s' q = ident s q \<and> node_from_pool (nodes_of s' q) = node_from_pool (nodes_of s q))"

lemma same_pools_refl [simp]: "same_pools s s"
  by (simp add: same_pools_def)

lemma same_pools_set_tls [simp]: "same_pools s (set_tls s' th c) = same_pools s s'"
  by (simp add: same_pools_def set_tls_def live_pools_def)


lemma owner_set_tls [simp]: "owner_of (set_tls s th c) th = tls_owner_id c"
  by (simp add: set_tls_def)






subsection \<open>Every operation keeps the invariant\<close>























end
