(* ===== verification/Future.thy ===== *)
theory Future
  imports Loom_Prelude
begin

text \<open>
  The future of \<^verbatim>\<open>src/src/thread_pool.c\<close>: the cell that carries the outcome of a task to the
  threads that wait for it.  Every operation runs under the future's mutex, so it is a function
  on the cell; the monitor below adds the threads that block on the condition variable, with
  signal, broadcast, timeouts and spurious wake-ups.  Result pointers are 64-bit words.
\<close>

record loom_future =
  fu_result :: u64
  fu_ready :: bool
  fu_has_result :: bool
  fu_cancelled :: bool
  fu_failed :: bool

definition result_code :: "loom_result \<Rightarrow> u64" where
  "result_code r =
     (case r of
        LOOMWORKS_OK \<Rightarrow> 0 | LOOMWORKS_ERR_ALLOC \<Rightarrow> 1 | LOOMWORKS_ERR_THREAD \<Rightarrow> 2 | LOOMWORKS_ERR_INVALID \<Rightarrow> 3
      | LOOMWORKS_ERR_SHUTDOWN \<Rightarrow> 4 | LOOMWORKS_ERR_TIMEOUT \<Rightarrow> 5 | LOOMWORKS_ERR_CANCELLED \<Rightarrow> 6
      | LOOMWORKS_ERR_FAILED \<Rightarrow> 7)"

text \<open>The zeroed cell of \<open>loom_pool_submit_future\<close>.\<close>

definition future_new :: loom_future where
  "future_new = \<lparr>fu_result = 0, fu_ready = False, fu_has_result = False, fu_cancelled = False, fu_failed = False\<rparr>"

text \<open>The arguments say whether the mutex and the condition variable could be initialised.\<close>

definition loom_future_init :: "bool \<Rightarrow> bool \<Rightarrow> loom_future option \<Rightarrow> loom_result \<times> loom_future option" where
  "loom_future_init mutex_ok cond_ok fut =
     (case fut of
        None \<Rightarrow> (LOOMWORKS_ERR_INVALID, None)
      | Some f \<Rightarrow>
          if \<not> mutex_ok then (LOOMWORKS_ERR_ALLOC, Some f)
          else if \<not> cond_ok then (LOOMWORKS_ERR_ALLOC, Some f)
          else
            (LOOMWORKS_OK,
             Some (f\<lparr>fu_result := 0, fu_ready := False, fu_has_result := False, fu_cancelled := False,
                     fu_failed := False\<rparr>)))"

text \<open>\<open>result\<close> is what the user function returned.\<close>

definition future_task_wrapper :: "u64 \<Rightarrow> loom_future \<Rightarrow> loom_future" where
  "future_task_wrapper result f = f\<lparr>fu_result := result, fu_has_result := True, fu_ready := True\<rparr>"

definition future_mark_cancelled :: "loom_future \<Rightarrow> loom_future" where
  "future_mark_cancelled f = f\<lparr>fu_cancelled := True, fu_ready := True, fu_has_result := False\<rparr>"

definition coro_future_mark_cancelled :: "loom_future option \<Rightarrow> loom_future option" where
  "coro_future_mark_cancelled fut =
     map_option (\<lambda>f. f\<lparr>fu_cancelled := True, fu_ready := True, fu_has_result := False, fu_result := 0\<rparr>) fut"

text \<open>The second component says whether the condition variable is signalled.\<close>

definition loom_future_complete :: "loom_result \<Rightarrow> loom_future \<Rightarrow> loom_future \<times> bool" where
  "loom_future_complete status f =
     (if fu_cancelled f then (f, False)
      else (f\<lparr>fu_result := result_code status, fu_has_result := False,
              fu_failed := (status \<noteq> LOOMWORKS_OK), fu_ready := True\<rparr>, True))"

text \<open>What \<open>loom_future_wait\<close> returns once its loop has seen \<open>ready\<close>; \<open>None\<close> means it blocks.\<close>

definition loom_future_wait :: "loom_future \<Rightarrow> (loom_result \<times> u64) option" where
  "loom_future_wait f =
     (if \<not> fu_ready f then None
      else if fu_cancelled f then Some (LOOMWORKS_ERR_CANCELLED, 0)
      else if fu_failed f then Some (LOOMWORKS_ERR_FAILED, 0)
      else Some (LOOMWORKS_OK, fu_result f))"

text \<open>
  The timed wait up to \<open>pthread_cond_timedwait\<close>, with the time left until the deadline, and what it
  returns after that call.
\<close>

definition wait_timeout_outcome :: "loom_future \<Rightarrow> loom_result \<times> u64" where
  "wait_timeout_outcome f = (if fu_cancelled f then (LOOMWORKS_ERR_CANCELLED, 0) else (LOOMWORKS_OK, fu_result f))"

definition wait_timeout_enter :: "loom_future \<Rightarrow> int \<Rightarrow> (loom_result \<times> u64) option" where
  "wait_timeout_enter f remaining_ns =
     (if fu_ready f then Some (wait_timeout_outcome f)
      else if remaining_ns \<le> 0 then Some (LOOMWORKS_ERR_TIMEOUT, 0)
      else None)"

definition wait_timeout_leave :: "loom_future \<Rightarrow> bool \<Rightarrow> loom_result \<times> u64" where
  "wait_timeout_leave f timed_out = (if timed_out then (LOOMWORKS_ERR_TIMEOUT, 0) else wait_timeout_outcome f)"

text \<open>Destroying: refused while the task may still signal the future.\<close>

definition loom_future_destroy :: "loom_future option \<Rightarrow> loom_result \<times> loom_future option" where
  "loom_future_destroy fut =
     (case fut of
        None \<Rightarrow> (LOOMWORKS_ERR_INVALID, None)
      | Some f \<Rightarrow> if \<not> fu_ready f then (LOOMWORKS_ERR_INVALID, Some f) else (LOOMWORKS_OK, None))"

subsection \<open>The monitor\<close>

datatype fthread =
    FIdle
  | FWaiting
  | FWoken
  | FTimedWaiting
  | FTimedWoken bool
  | FReturned loom_result u64
  | FTimedReturned loom_result u64

record fmon =
  fm_fut :: loom_future
  fm_thread :: "nat \<Rightarrow> fthread"
  fm_pending :: bool

text \<open>A thread blocked on the condition variable, and its state once it is woken.\<close>

fun blocked :: "fthread \<Rightarrow> bool" where
  "blocked FWaiting = True"
| "blocked FTimedWaiting = True"
| "blocked _ = False"

fun woken :: "fthread \<Rightarrow> fthread" where
  "woken FWaiting = FWoken"
| "woken FTimedWaiting = FTimedWoken False"
| "woken w = w"

text \<open>\<open>pthread_cond_signal\<close> wakes one blocked thread if there is one, \<open>broadcast\<close> all of them.\<close>

inductive cond_signal :: "(nat \<Rightarrow> fthread) \<Rightarrow> (nat \<Rightarrow> fthread) \<Rightarrow> bool" where
  signal_none: "(\<And>t. \<not> blocked (th t)) \<Longrightarrow> cond_signal th th"
| signal_one: "blocked (th t) \<Longrightarrow> cond_signal th (th(t := woken (th t)))"

definition cond_broadcast :: "(nat \<Rightarrow> fthread) \<Rightarrow> nat \<Rightarrow> fthread" where
  "cond_broadcast th = (\<lambda>t. woken (th t))"

text \<open>
  A future is resolved once: by the worker that runs its task, by the completion of a DAG node or
  a coroutine, or by a cancellation; a completion may still arrive after a cancellation.
\<close>

inductive fstep :: "fmon \<Rightarrow> fmon \<Rightarrow> bool" where
  f_wait_now: "fm_thread s t \<in> {FIdle, FWoken} \<Longrightarrow> loom_future_wait (fm_fut s) = Some (r, v) \<Longrightarrow>
    fstep s (s\<lparr>fm_thread := (fm_thread s)(t := FReturned r v)\<rparr>)"
| f_wait_block: "fm_thread s t \<in> {FIdle, FWoken} \<Longrightarrow> loom_future_wait (fm_fut s) = None \<Longrightarrow>
    fstep s (s\<lparr>fm_thread := (fm_thread s)(t := FWaiting)\<rparr>)"
| f_timed_now: "fm_thread s t = FIdle \<Longrightarrow> wait_timeout_enter (fm_fut s) ns = Some (r, v) \<Longrightarrow>
    fstep s (s\<lparr>fm_thread := (fm_thread s)(t := FTimedReturned r v)\<rparr>)"
| f_timed_block: "fm_thread s t = FIdle \<Longrightarrow> wait_timeout_enter (fm_fut s) ns = None \<Longrightarrow>
    fstep s (s\<lparr>fm_thread := (fm_thread s)(t := FTimedWaiting)\<rparr>)"
| f_expire: "fm_thread s t = FTimedWaiting \<Longrightarrow>
    fstep s (s\<lparr>fm_thread := (fm_thread s)(t := FTimedWoken True)\<rparr>)"
| f_timed_leave: "fm_thread s t = FTimedWoken b \<Longrightarrow> wait_timeout_leave (fm_fut s) b = (r, v) \<Longrightarrow>
    fstep s (s\<lparr>fm_thread := (fm_thread s)(t := FTimedReturned r v)\<rparr>)"
| f_run: "fm_pending s \<Longrightarrow> cond_signal (fm_thread s) th \<Longrightarrow>
    fstep s (s\<lparr>fm_fut := future_task_wrapper v (fm_fut s), fm_thread := th, fm_pending := False\<rparr>)"
| f_complete: "fm_pending s \<Longrightarrow> loom_future_complete st (fm_fut s) = (f, True) \<Longrightarrow> cond_signal (fm_thread s) th \<Longrightarrow>
    fstep s (s\<lparr>fm_fut := f, fm_thread := th, fm_pending := False\<rparr>)"
| f_complete_late: "fu_cancelled (fm_fut s) \<Longrightarrow> loom_future_complete st (fm_fut s) = (f, False) \<Longrightarrow>
    fstep s (s\<lparr>fm_fut := f\<rparr>)"
| f_cancel: "fm_pending s \<Longrightarrow> f \<in> {future_mark_cancelled (fm_fut s), the (coro_future_mark_cancelled (Some (fm_fut s)))} \<Longrightarrow>
    fstep s (s\<lparr>fm_fut := f, fm_thread := cond_broadcast (fm_thread s), fm_pending := False\<rparr>)"

text \<open>POSIX allows a blocked thread to return from the wait for no reason.\<close>

inductive fspurious :: "fmon \<Rightarrow> fmon \<Rightarrow> bool" where
  "blocked (fm_thread s t) \<Longrightarrow> fspurious s (s\<lparr>fm_thread := (fm_thread s)(t := woken (fm_thread s t))\<rparr>)"

definition fmon_init :: fmon where
  "fmon_init = \<lparr>fm_fut = future_new, fm_thread = (\<lambda>t. FIdle), fm_pending = True\<rparr>"

inductive freach :: "fmon \<Rightarrow> bool" where
  freach_init: "freach fmon_init"
| freach_step: "freach s \<Longrightarrow> fstep s s' \<Longrightarrow> freach s'"
| freach_spurious: "freach s \<Longrightarrow> fspurious s s' \<Longrightarrow> freach s'"


lemma woken_unblocked [simp]: "\<not> blocked (woken w)"
  by (cases w) auto

lemma woken_FReturned [simp]: "woken w = FReturned r v \<longleftrightarrow> w = FReturned r v"
  by (cases w) auto


subsection \<open>Agreement\<close>









subsection \<open>Wake-ups\<close>








definition stranded :: "nat \<Rightarrow> fmon \<Rightarrow> bool" where
  "stranded t s \<longleftrightarrow> fm_thread s t = FWaiting \<and> \<not> fm_pending s"

lemma stranded_step: "stranded t s \<Longrightarrow> fstep s s' \<Longrightarrow> stranded t s'"
  by (auto simp: stranded_def elim!: fstep.cases)

lemma stranded_run:
  "\<exists>s. freach s \<and> fm_thread s 0 = FReturned LOOMWORKS_OK 42 \<and> fm_thread s 1 = FWaiting \<and> \<not> fm_pending s"
proof -
  let ?t = "\<lambda>s w t. s\<lparr>fm_thread := (fm_thread s)(t := w)\<rparr>"
  let ?a = "?t fmon_init FWaiting 0"
  let ?b = "?t ?a FWaiting 1"
  let ?c = "?b\<lparr>fm_fut := future_task_wrapper 42 (fm_fut ?b),
               fm_thread := (fm_thread ?b)(0 := woken (fm_thread ?b 0)), fm_pending := False\<rparr>"
  let ?d = "?t ?c (FReturned LOOMWORKS_OK 42) 0"
  note i = fmon_init_def future_new_def loom_future_wait_def future_task_wrapper_def
  have "freach ?a" by (rule freach_step [OF freach_init f_wait_block]) (simp_all add: i)
  then have "freach ?b" by (rule freach_step [OF _ f_wait_block]) (simp_all add: i)
  moreover have "cond_signal (fm_thread ?b) ((fm_thread ?b)(0 := woken (fm_thread ?b 0)))"
    by (rule signal_one) (simp add: i)
  ultimately have "freach ?c" by (intro freach_step [OF _ f_run]) (simp_all add: i)
  then have "freach ?d" by (rule freach_step [OF _ f_wait_now]) (simp_all add: i)
  moreover have "fm_thread ?d 0 = FReturned LOOMWORKS_OK 42" "fm_thread ?d 1 = FWaiting" "\<not> fm_pending ?d"
    by (simp_all add: i)
  ultimately show ?thesis by blast
qed

text \<open>
  C15.  With two waiting threads the signal of \<open>future_task_wrapper\<close> wakes only one:
  there is a run after which the task is done and one thread has its result while the other is
  blocked, and no step of the program other than a spurious wake-up ever unblocks it.
\<close>

theorem future_second_waiter_stranded:
  "\<exists>s. freach s \<and> fm_thread s 0 = FReturned LOOMWORKS_OK 42 \<and> fm_thread s 1 = FWaiting \<and>
       (\<forall>s'. fstep\<^sup>*\<^sup>* s s' \<longrightarrow> fm_thread s' 1 = FWaiting)"
proof -
  obtain s where s: "freach s" "fm_thread s 0 = FReturned LOOMWORKS_OK 42" "stranded 1 s"
    using stranded_run by (auto simp: stranded_def)
  have "stranded 1 s'" if "fstep\<^sup>*\<^sup>* s s'" for s'
    using that s(3) by (induction rule: rtranclp_induct) (auto intro: stranded_step)
  with s show ?thesis by (auto simp: stranded_def)
qed

theorem future_second_waiter_stranded_witness:
  "\<exists>s. freach s \<and> fm_thread s 1 = FWaiting \<and> (fstep\<^sup>*\<^sup>* s s \<and> fm_thread s 0 = FReturned LOOMWORKS_OK 42)"
  using future_second_waiter_stranded by blast




text \<open>
  C16.  \<open>loom_future_wait_timeout\<close> does not test \<open>ready\<close> after its wait: after a
  spurious wake-up it returns \<open>LOOMWORKS_OK\<close> although the task has neither run nor failed.
\<close>

theorem future_timed_wait_spurious:
  "\<exists>s. freach s \<and> fm_pending s \<and> \<not> fu_ready (fm_fut s) \<and> fm_thread s 0 = FTimedReturned LOOMWORKS_OK 0"
proof -
  let ?a = "fmon_init\<lparr>fm_thread := (fm_thread fmon_init)(0 := FTimedWaiting)\<rparr>"
  let ?b = "?a\<lparr>fm_thread := (fm_thread ?a)(0 := woken (fm_thread ?a 0))\<rparr>"
  let ?c = "?b\<lparr>fm_thread := (fm_thread ?b)(0 := FTimedReturned LOOMWORKS_OK 0)\<rparr>"
  note i = fmon_init_def future_new_def wait_timeout_enter_def wait_timeout_leave_def wait_timeout_outcome_def
  have "freach ?a" by (rule freach_step [OF freach_init f_timed_block [of _ _ 1]]) (simp_all add: i)
  then have "freach ?b" by (rule freach_spurious [OF _ fspurious.intros]) (simp add: i)
  then have "freach ?c" by (rule freach_step [OF _ f_timed_leave [where b = False]]) (simp_all add: i)
  then show ?thesis by (intro exI [of _ ?c]) (simp add: i)
qed

end
