(* ===== verification/Dag_Build.thy ===== *)
theory Dag_Build
  imports Future
begin

text \<open>
  The build phase of the task DAG of \<^verbatim>\<open>src/src/dag.c\<close>: creating the graph, adding nodes and
  edges, and the pass of Kahn's algorithm by which \<open>loom_dag_submit\<close> rejects a cyclic graph.  A
  node is named by its id, which is its index in the node array, and a successor pointer is the
  index it points to.  \<open>in_degree\<close> counts distinct predecessors, so it stays below the capacity,
  a 32-bit number, and is a natural number here; the decrement of the Kahn pass keeps its width.
\<close>

record dag_node =
  dn_node_id :: nat
  dn_fn :: u64
  dn_user_data :: u64
  dn_priority :: u8
  dn_in_degree :: nat
  dn_future :: loom_future
  dn_status :: loom_result
  dn_pending_preds :: nat
  dn_future_owner :: bool
  dn_succs :: "nat list"
  dn_succs_cap :: nat

record dag =
  dg_nodes :: "dag_node list option"
  dg_node_capacity :: nat
  dg_submitted :: bool
  dg_destroyed :: bool
  dg_failed :: bool
  dg_fail_error :: loom_result
  dg_in_flight :: nat
  dg_released_total :: nat
  dg_added_count :: nat

text \<open>A node as \<open>calloc\<close> leaves it.\<close>

definition dag_node_blank :: dag_node where
  "dag_node_blank =
     \<lparr>dn_node_id = 0, dn_fn = 0, dn_user_data = 0, dn_priority = 0, dn_in_degree = 0, dn_future = future_new,
      dn_status = LOOMWORKS_OK, dn_pending_preds = 0, dn_future_owner = False, dn_succs = [], dn_succs_cap = 0\<rparr>"

text \<open>
  The arguments after the capacity say which of the allocations and initialisations succeed:
  the structure, its two mutexes, the condition attribute, its clock, the condition variable.
\<close>

definition loom_dag_create ::
    "bool \<Rightarrow> bool \<Rightarrow> nat \<Rightarrow> bool \<Rightarrow> bool \<Rightarrow> bool \<Rightarrow> bool \<Rightarrow> bool \<Rightarrow> bool \<Rightarrow> loom_result \<times> dag option" where
  "loom_dag_create pool_ok out_ok node_capacity alloc_ok lock_ok done_mu_ok cattr_ok clock_ok cv_ok =
     (if \<not> pool_ok \<or> \<not> out_ok \<or> node_capacity = 0 then (LOOMWORKS_ERR_INVALID, None)
      else if \<not> alloc_ok then (LOOMWORKS_ERR_ALLOC, None)
      else if \<not> lock_ok then (LOOMWORKS_ERR_ALLOC, None)
      else if \<not> done_mu_ok then (LOOMWORKS_ERR_ALLOC, None)
      else if \<not> cattr_ok then (LOOMWORKS_ERR_ALLOC, None)
      else if \<not> clock_ok then (LOOMWORKS_ERR_ALLOC, None)
      else if \<not> cv_ok then (LOOMWORKS_ERR_ALLOC, None)
      else
        (LOOMWORKS_OK,
         Some \<lparr>dg_nodes = None, dg_node_capacity = node_capacity, dg_submitted = False, dg_destroyed = False,
               dg_failed = False, dg_fail_error = LOOMWORKS_OK, dg_in_flight = 0, dg_released_total = 0,
               dg_added_count = 0\<rparr>))"

text \<open>The lazy allocation of the node array.\<close>

definition dag_alloc_nodes :: "bool \<Rightarrow> dag \<Rightarrow> (dag_node list \<times> dag) option" where
  "dag_alloc_nodes calloc_ok d =
     (case dg_nodes d of
        Some ns \<Rightarrow> Some (ns, d)
      | None \<Rightarrow>
          if calloc_ok then
            (let ns = replicate (dg_node_capacity d) dag_node_blank in Some (ns, d\<lparr>dg_nodes := Some ns\<rparr>))
          else None)"

definition loom_dag_add_node ::
    "bool \<Rightarrow> dag \<Rightarrow> nat \<Rightarrow> u64 \<Rightarrow> u64 \<Rightarrow> u8 \<Rightarrow> loom_result \<times> dag" where
  "loom_dag_add_node calloc_ok d node_id fn user_data priority =
     (if fn = 0 then (LOOMWORKS_ERR_INVALID, d)
      else if node_id \<ge> dg_node_capacity d then (LOOMWORKS_ERR_INVALID, d)
      else if dg_submitted d \<or> dg_destroyed d then (LOOMWORKS_ERR_INVALID, d)
      else
        (case dag_alloc_nodes calloc_ok d of
           None \<Rightarrow> (LOOMWORKS_ERR_ALLOC, d)
         | Some (ns, d) \<Rightarrow>
             if dn_fn (ns ! node_id) \<noteq> 0 then (LOOMWORKS_ERR_INVALID, d)
             else
               (LOOMWORKS_OK,
                d\<lparr>dg_nodes := Some (ns[node_id := (ns ! node_id)
                     \<lparr>dn_node_id := node_id, dn_fn := fn, dn_user_data := user_data, dn_priority := priority,
                      dn_in_degree := 0, dn_status := LOOMWORKS_OK, dn_succs := [], dn_succs_cap := 0,
                      dn_pending_preds := 0, dn_future_owner := False\<rparr>]),
                  dg_added_count := dg_added_count d + 1\<rparr>)))"

definition loom_dag_add_edge :: "bool \<Rightarrow> bool \<Rightarrow> dag \<Rightarrow> nat \<Rightarrow> nat \<Rightarrow> loom_result \<times> dag" where
  "loom_dag_add_edge calloc_ok realloc_ok d from_id to_id =
     (if from_id \<ge> dg_node_capacity d \<or> to_id \<ge> dg_node_capacity d then (LOOMWORKS_ERR_INVALID, d)
      else if dg_submitted d \<or> dg_destroyed d then (LOOMWORKS_ERR_INVALID, d)
      else
        (case dag_alloc_nodes calloc_ok d of
           None \<Rightarrow> (LOOMWORKS_ERR_ALLOC, d)
         | Some (ns, d) \<Rightarrow>
             (let f = ns ! from_id; t = ns ! to_id in
              if dn_fn f = 0 \<or> dn_fn t = 0 then (LOOMWORKS_ERR_INVALID, d)
              else if from_id = to_id then (LOOMWORKS_ERR_INVALID, d)
              else if to_id \<in> set (dn_succs f) then (LOOMWORKS_ERR_INVALID, d)
              else if length (dn_succs f) = dn_succs_cap f \<and> \<not> realloc_ok then (LOOMWORKS_ERR_ALLOC, d)
              else
                (let cap = (if length (dn_succs f) = dn_succs_cap f
                            then (if dn_succs_cap f \<noteq> 0 then dn_succs_cap f * 2 else 4)
                            else dn_succs_cap f);
                     ns = ns[from_id := f\<lparr>dn_succs := dn_succs f @ [to_id], dn_succs_cap := cap\<rparr>];
                     ns = ns[to_id := (ns ! to_id)\<lparr>dn_in_degree := dn_in_degree (ns ! to_id) + 1\<rparr>]
                 in (LOOMWORKS_OK, d\<lparr>dg_nodes := Some ns\<rparr>)))))"

subsection \<open>The Kahn pass\<close>

definition dec32 :: "nat \<Rightarrow> nat" where
  "dec32 x = (if x = 0 then 2 ^ 32 - 1 else x - 1)"

text \<open>The inner loop over the successors of the node taken from the queue.\<close>

fun kahn_relax :: "dag_node list \<Rightarrow> nat \<Rightarrow> nat list \<Rightarrow> nat list \<Rightarrow> nat list \<Rightarrow> nat list \<times> nat list \<times> bool" where
  "kahn_relax ns added indeg queue [] = (indeg, queue, True)"
| "kahn_relax ns added indeg queue (s # ss) =
     (let sid = dn_node_id (ns ! s); indeg = indeg[sid := dec32 (indeg ! sid)] in
      if indeg ! sid \<noteq> 0 then kahn_relax ns added indeg queue ss
      else if length queue \<ge> added then (indeg, queue, False)
      else kahn_relax ns added indeg (queue @ [sid]) ss)"

lemma kahn_relax_bound:
  "kahn_relax ns added indeg queue ss = (indeg', queue', b) \<Longrightarrow> length queue' \<le> max added (length queue)"
  by (induction ns added indeg queue ss rule: kahn_relax.induct) (fastforce simp: Let_def split: if_splits)+

text \<open>The outer loop; \<open>qh\<close> is the read position in the queue.\<close>

function kahn_loop :: "dag_node list \<Rightarrow> nat \<Rightarrow> nat list \<Rightarrow> nat list \<Rightarrow> nat \<Rightarrow> nat list \<times> bool" where
  "kahn_loop ns added indeg queue qh =
     (if qh < length queue then
        (case kahn_relax ns added indeg queue (dn_succs (ns ! (queue ! qh))) of
           (indeg, queue, bounded) \<Rightarrow>
             if bounded then kahn_loop ns added indeg queue (qh + 1) else (queue, False))
      else (queue, True))"
  by pat_completeness auto
termination
  by (relation "measure (\<lambda>(ns, added, indeg, queue, qh). max added (length queue) - qh)")
     (auto dest!: kahn_relax_bound [OF sym])

declare kahn_loop.simps [simp del]

definition dag_added :: "dag_node list \<Rightarrow> nat" where
  "dag_added ns = length (filter (\<lambda>n. dn_fn n \<noteq> 0) ns)"

definition kahn_indeg :: "dag_node list \<Rightarrow> nat list" where
  "kahn_indeg ns = map (\<lambda>n. if dn_fn n \<noteq> 0 then dn_in_degree n else 0) ns"

definition kahn_queue :: "dag_node list \<Rightarrow> nat list" where
  "kahn_queue ns = filter (\<lambda>i. dn_fn (ns ! i) \<noteq> 0 \<and> kahn_indeg ns ! i = 0) [0..<length ns]"

definition dag_has_cycle :: "dag_node list \<Rightarrow> bool" where
  "dag_has_cycle ns =
     (case kahn_loop ns (dag_added ns) (kahn_indeg ns) (kahn_queue ns) 0 of
        (queue, bounded) \<Rightarrow> \<not> bounded \<or> length queue \<noteq> dag_added ns)"

text \<open>
  \<open>loom_dag_submit\<close> up to the release of the roots: \<open>Some r\<close> means it returns \<open>r\<close> at once.
\<close>

definition dag_submit_prepare :: "bool \<Rightarrow> dag \<Rightarrow> loom_result option \<times> dag" where
  "dag_submit_prepare alloc_ok d =
     (if dg_submitted d \<or> dg_destroyed d then (Some LOOMWORKS_ERR_INVALID, d)
      else
        (let ns = (case dg_nodes d of None \<Rightarrow> [] | Some ns \<Rightarrow> ns); added = dag_added ns in
         if added = 0 then (Some LOOMWORKS_OK, d\<lparr>dg_added_count := 0, dg_submitted := True\<rparr>)
         else if \<not> alloc_ok then
           (Some LOOMWORKS_ERR_ALLOC, d\<lparr>dg_submitted := True, dg_fail_error := LOOMWORKS_ERR_ALLOC, dg_failed := True\<rparr>)
         else if dag_has_cycle ns then
           (Some LOOMWORKS_ERR_INVALID, d\<lparr>dg_submitted := True, dg_fail_error := LOOMWORKS_ERR_INVALID, dg_failed := True\<rparr>)
         else
           (None,
            d\<lparr>dg_nodes := Some (map (\<lambda>n. if dn_fn n \<noteq> 0 then n\<lparr>dn_pending_preds := dn_in_degree n\<rparr> else n) ns),
              dg_added_count := added, dg_submitted := True\<rparr>)))"

subsection \<open>Well-formed graphs\<close>

definition dag_edge :: "dag_node list \<Rightarrow> nat \<Rightarrow> nat \<Rightarrow> bool" where
  "dag_edge ns u v \<longleftrightarrow> u < length ns \<and> v \<in> set (dn_succs (ns ! u))"

definition dag_edges :: "dag_node list \<Rightarrow> (nat \<times> nat) set" where
  "dag_edges ns = {(u, v). dag_edge ns u v}"

definition dag_vertices :: "dag_node list \<Rightarrow> nat set" where
  "dag_vertices ns = {i. i < length ns \<and> dn_fn (ns ! i) \<noteq> 0}"

definition node_wf :: "dag_node list \<Rightarrow> nat \<Rightarrow> bool" where
  "node_wf ns i \<longleftrightarrow>
     (dn_fn (ns ! i) \<noteq> 0 \<longrightarrow> dn_node_id (ns ! i) = i) \<and>
     (dn_fn (ns ! i) = 0 \<longrightarrow> dn_succs (ns ! i) = []) \<and>
     distinct (dn_succs (ns ! i)) \<and> i \<notin> set (dn_succs (ns ! i)) \<and>
     set (dn_succs (ns ! i)) \<subseteq> dag_vertices ns \<and>
     dn_in_degree (ns ! i) = card {u. dag_edge ns u i}"

definition graph_wf :: "dag_node list \<Rightarrow> bool" where
  "graph_wf ns \<longleftrightarrow> (\<forall>i<length ns. node_wf ns i)"

lemma finite_preds [simp]: "finite {u. dag_edge ns u v}" "finite {u. dag_edge ns u v \<and> P u}"
  by (rule finite_subset [of _ "{..<length ns}"]; auto simp: dag_edge_def)+

lemma finite_edges [simp]: "graph_wf ns \<Longrightarrow> finite (dag_edges ns)"
  by (rule finite_subset [of _ "{..<length ns} \<times> {..<length ns}"])
     (auto simp: dag_edges_def dag_edge_def graph_wf_def node_wf_def dag_vertices_def)

lemma finite_vertices [simp]: "finite (dag_vertices ns)"
  by (simp add: dag_vertices_def)

lemma dag_added_card: "dag_added ns = card (dag_vertices ns)"
  unfolding dag_added_def dag_vertices_def by (rule length_filter_conv_card)

lemma edge_vertices: "graph_wf ns \<Longrightarrow> dag_edge ns u v \<Longrightarrow> u \<in> dag_vertices ns \<and> v \<in> dag_vertices ns"
  by (auto simp: graph_wf_def node_wf_def dag_edge_def dag_vertices_def)

subsection \<open>Correctness of the Kahn pass\<close>

text \<open>Predecessors of \<open>v\<close> outside a set.\<close>

definition preds_out :: "dag_node list \<Rightarrow> nat set \<Rightarrow> nat \<Rightarrow> nat set" where
  "preds_out ns P v = {u. dag_edge ns u v \<and> u \<notin> P}"

text \<open>
  The state of the pass while the successors \<open>ss\<close> of the current node remain: \<open>P\<close> are the
  nodes taken from the queue, the current one included.
\<close>

definition kahn_inv :: "dag_node list \<Rightarrow> nat set \<Rightarrow> nat list \<Rightarrow> nat list \<Rightarrow> nat list \<Rightarrow> bool" where
  "kahn_inv ns P indeg queue ss \<longleftrightarrow>
     length indeg = length ns \<and> distinct queue \<and> set queue \<subseteq> dag_vertices ns \<and> P \<subseteq> set queue \<and>
     (\<forall>v\<in>dag_vertices ns. indeg ! v = card (preds_out ns P v) + (if v \<in> set ss then 1 else 0)) \<and>
     (\<forall>v\<in>dag_vertices ns. v \<in> set queue \<longleftrightarrow> indeg ! v = 0) \<and>
     (\<forall>i<length queue. \<forall>u. dag_edge ns u (queue ! i) \<longrightarrow> u \<in> set (take i queue))"

lemma finite_preds_out [simp]: "finite (preds_out ns P v)"
  by (simp add: preds_out_def)

lemma queue_room:
  assumes "distinct queue" "set queue \<subseteq> dag_vertices ns" "s \<in> dag_vertices ns" "s \<notin> set queue"
  shows "length queue < dag_added ns"
proof -
  have "set queue \<subset> dag_vertices ns" using assms(2-4) by blast
  then have "card (set queue) < card (dag_vertices ns)" by (rule psubset_card_mono [OF finite_vertices])
  then show ?thesis using assms(1) by (simp add: dag_added_card distinct_card)
qed

lemma kahn_relax_inv:
  assumes wf: "graph_wf ns"
  shows "kahn_inv ns P indeg queue ss \<Longrightarrow> distinct ss \<Longrightarrow> set ss \<subseteq> dag_vertices ns \<Longrightarrow>
   \<exists>indeg' more. kahn_relax ns (dag_added ns) indeg queue ss = (indeg', queue @ more, True) \<and>
     kahn_inv ns P indeg' (queue @ more) []"
proof (induction ss arbitrary: indeg queue)
  case Nil
  then show ?case by auto
next
  case (Cons s ss)
  note inv = Cons.prems(1)
  have s: "s \<in> dag_vertices ns" "s < length indeg" "dn_node_id (ns ! s) = s"
    using Cons.prems wf by (auto simp: dag_vertices_def kahn_inv_def graph_wf_def node_wf_def)
  have cnt: "indeg ! s = Suc (card (preds_out ns P s))" "s \<notin> set queue"
    using inv s(1) by (auto simp: kahn_inv_def)
  let ?c = "card (preds_out ns P s)" and ?i = "indeg[s := card (preds_out ns P s)]"
  have dec: "dec32 (indeg ! s) = ?c" using cnt by (simp add: dec32_def)
  have get: "?i ! v = (if v = s then ?c else indeg ! v)" for v using s(2) by simp
  show ?case
  proof (cases "?c = 0")
    case False
    have "kahn_inv ns P ?i queue ss"
      using inv False cnt s Cons.prems(2) unfolding kahn_inv_def get by auto
    from Cons.IH [OF this] Cons.prems False s dec show ?thesis by (simp add: Let_def)
  next
    case True
    then have preds: "\<And>u. dag_edge ns u s \<Longrightarrow> u \<in> set queue"
      using inv by (auto simp: preds_out_def kahn_inv_def)
    have room: "length queue < dag_added ns"
      using inv s(1) cnt(2) by (intro queue_room) (auto simp: kahn_inv_def)
    have "kahn_inv ns P ?i (queue @ [s]) ss"
      using inv True cnt s Cons.prems(2) preds unfolding kahn_inv_def get
      by (auto simp: nth_append less_Suc_eq)
    from Cons.IH [OF this] Cons.prems True s dec room show ?thesis by (force simp: Let_def)
  qed
qed

lemma preds_out_insert:
  assumes "u \<notin> P"
  shows "card (preds_out ns P v) = card (preds_out ns (insert u P) v) + (if dag_edge ns u v then 1 else 0)"
proof (cases "dag_edge ns u v")
  case True
  then have "preds_out ns P v = insert u (preds_out ns (insert u P) v)" "u \<notin> preds_out ns (insert u P) v"
    using assms by (auto simp: preds_out_def)
  with True show ?thesis by simp
next
  case False
  then have "preds_out ns P v = preds_out ns (insert u P) v" by (auto simp: preds_out_def)
  with False show ?thesis by simp
qed

lemma kahn_loop_inv:
  assumes wf: "graph_wf ns"
  shows "kahn_inv ns (set (take qh queue)) indeg queue [] \<Longrightarrow> qh \<le> length queue \<Longrightarrow>
   \<exists>indeg' queue'. kahn_loop ns (dag_added ns) indeg queue qh = (queue', True) \<and>
     kahn_inv ns (set queue') indeg' queue' []"
proof (induction "dag_added ns - qh" arbitrary: indeg queue qh rule: less_induct)
  case less
  show ?case
  proof (cases "qh < length queue")
    case False
    with less.prems show ?thesis by (auto simp: kahn_loop.simps)
  next
    case True
    let ?u = "queue ! qh" and ?ss = "dn_succs (ns ! (queue ! qh))"
    have inv: "kahn_inv ns (set (take qh queue)) indeg queue []" by (rule less.prems(1))
    then have q: "distinct queue" "set queue \<subseteq> dag_vertices ns" by (auto simp: kahn_inv_def)
    have u: "?u \<in> dag_vertices ns" "?u < length ns" using q(2) True by (auto simp: dag_vertices_def dest: nth_mem)
    have set: "set (take (Suc qh) queue) = insert ?u (set (take qh queue))" "?u \<notin> set (take qh queue)"
      using True q(1) by (auto simp: take_Suc_conv_app_nth in_set_conv_nth nth_eq_iff_index_eq)
    have ss: "distinct ?ss" "set ?ss \<subseteq> dag_vertices ns" "\<And>v. dag_edge ns ?u v \<longleftrightarrow> v \<in> set ?ss"
      using wf u by (auto simp: graph_wf_def node_wf_def dag_edge_def)
    have "kahn_inv ns (set (take (Suc qh) queue)) indeg queue ?ss"
      using inv preds_out_insert [OF set(2), of ns] ss(3) set_take_subset [of "Suc qh" queue]
      unfolding kahn_inv_def set(1) [symmetric] by auto
    from kahn_relax_inv [OF wf this ss(1,2)]
    obtain indeg1 more where r: "kahn_relax ns (dag_added ns) indeg queue ?ss = (indeg1, queue @ more, True)"
      "kahn_inv ns (set (take (Suc qh) queue)) indeg1 (queue @ more) []" by blast
    have "length queue \<le> dag_added ns"
      using q by (metis dag_added_card card_mono distinct_card finite_vertices)
    then have "dag_added ns - Suc qh < dag_added ns - qh" using True by linarith
    from less.hyps [OF this, of "queue @ more" indeg1] r(2) True r(1) show ?thesis
      by (subst kahn_loop.simps) simp
  qed
qed

lemma kahn_start_inv:
  assumes "graph_wf ns"
  shows "kahn_inv ns {} (kahn_indeg ns) (kahn_queue ns) []"
proof -
  have deg: "kahn_indeg ns ! v = card (preds_out ns {} v)" if "v \<in> dag_vertices ns" for v
    using assms that by (simp add: kahn_indeg_def dag_vertices_def graph_wf_def node_wf_def preds_out_def)
  have zero: "\<not> dag_edge ns u v" if "v \<in> dag_vertices ns" "kahn_indeg ns ! v = 0" for u v
    using deg [OF that(1)] that(2) by (auto simp: preds_out_def)
  have "set (kahn_queue ns) = {v \<in> dag_vertices ns. kahn_indeg ns ! v = 0}"
    by (auto simp: kahn_queue_def dag_vertices_def)
  moreover from this have "\<not> dag_edge ns u (kahn_queue ns ! i)" if "i < length (kahn_queue ns)" for i u
    using zero nth_mem [OF that] by auto
  ultimately show ?thesis
    using deg by (auto simp: kahn_inv_def kahn_queue_def kahn_indeg_def)
qed

text \<open>A queue in which every node comes after its predecessors orders the graph.\<close>

definition rank_in :: "nat list \<Rightarrow> nat \<Rightarrow> nat" where
  "rank_in q v = length (takeWhile (\<lambda>x. x \<noteq> v) q)"

lemma rank_in_take: "u \<in> set (take i q) \<Longrightarrow> rank_in q u < i"
proof (induction q arbitrary: i)
  case (Cons x q)
  then show ?case by (cases i) (auto simp: rank_in_def)
qed simp

lemma rank_in_nth: "distinct q \<Longrightarrow> i < length q \<Longrightarrow> rank_in q (q ! i) = i"
proof (induction q arbitrary: i)
  case (Cons x q)
  then show ?case by (cases i) (auto simp: rank_in_def)
qed simp

lemma kahn_full_acyclic:
  assumes wf: "graph_wf ns" and inv: "kahn_inv ns (set queue) indeg queue []" and len: "length queue = dag_added ns"
  shows "acyclic (dag_edges ns)"
proof -
  have q: "distinct queue" "set queue \<subseteq> dag_vertices ns"
    and pre: "\<And>i u. i < length queue \<Longrightarrow> dag_edge ns u (queue ! i) \<Longrightarrow> u \<in> set (take i queue)"
    using inv by (auto simp: kahn_inv_def)
  have "set queue = dag_vertices ns"
    using q len by (intro card_subset_eq) (auto simp: dag_added_card distinct_card)
  then have "rank_in queue u < rank_in queue v" if "dag_edge ns u v" for u v
  proof -
    have "v \<in> set queue" using edge_vertices [OF wf that] \<open>set queue = _\<close> by simp
    then obtain i where i: "i < length queue" "v = queue ! i" by (auto simp: in_set_conv_nth)
    with pre that rank_in_take rank_in_nth [OF q(1)] show ?thesis by metis
  qed
  then have "dag_edges ns \<subseteq> measure (rank_in queue)" by (auto simp: dag_edges_def)
  then show ?thesis using acyclic_subset wf_acyclic wf_measure by blast
qed

lemma kahn_partial_cyclic:
  assumes wf: "graph_wf ns" and inv: "kahn_inv ns (set queue) indeg queue []" and len: "length queue \<noteq> dag_added ns"
  shows "\<not> acyclic (dag_edges ns)"
proof
  assume "acyclic (dag_edges ns)"
  then have w: "wf (dag_edges ns)" using finite_acyclic_wf finite_edges [OF wf] by blast
  have q: "distinct queue" "set queue \<subseteq> dag_vertices ns"
    and cnt: "\<And>v. v \<in> dag_vertices ns \<Longrightarrow> v \<notin> set queue \<Longrightarrow> card (preds_out ns (set queue) v) \<noteq> 0"
    using inv by (auto simp: kahn_inv_def)
  let ?W = "dag_vertices ns - set queue"
  have "?W \<noteq> {}" using q len by (metis Diff_eq_empty_iff dag_added_card distinct_card subset_antisym)
  then obtain v where v: "v \<in> ?W" "\<And>u. (u, v) \<in> dag_edges ns \<Longrightarrow> u \<notin> ?W" by (metis wfE_min w all_not_in_conv)
  then have "preds_out ns (set queue) v \<noteq> {}" using cnt [of v] by auto
  then obtain u where "dag_edge ns u v" "u \<notin> set queue" by (auto simp: preds_out_def)
  with v edge_vertices [OF wf] show False by (auto simp: dag_edges_def)
qed

lemma dag_has_cycle_iff:
  assumes "graph_wf ns"
  shows "dag_has_cycle ns \<longleftrightarrow> \<not> acyclic (dag_edges ns)"
proof -
  obtain indeg queue where "kahn_loop ns (dag_added ns) (kahn_indeg ns) (kahn_queue ns) 0 = (queue, True)"
    "kahn_inv ns (set queue) indeg queue []"
    using kahn_loop_inv [OF assms, of 0 "kahn_queue ns" "kahn_indeg ns"] kahn_start_inv [OF assms] by auto
  with kahn_full_acyclic [OF assms] kahn_partial_cyclic [OF assms] show ?thesis
    by (auto simp: dag_has_cycle_def)
qed

subsection \<open>The build operations keep the graph well formed\<close>

definition dag_wf :: "dag \<Rightarrow> bool" where
  "dag_wf d \<longleftrightarrow>
     (case dg_nodes d of
        None \<Rightarrow> dg_added_count d = 0
      | Some ns \<Rightarrow> length ns = dg_node_capacity d \<and> graph_wf ns \<and>
                   (\<not> dg_submitted d \<longrightarrow> dg_added_count d = dag_added ns))"

lemma blank_graph: "graph_wf (replicate n dag_node_blank)" "dag_added (replicate n dag_node_blank) = 0"
  by (auto simp: graph_wf_def node_wf_def dag_node_blank_def dag_edge_def dag_vertices_def dag_added_def)

lemma alloc_nodes_wf:
  assumes "dag_wf d" "dag_alloc_nodes ok d = Some (ns, d')"
  shows "dag_wf d' \<and> dg_nodes d' = Some ns \<and> graph_wf ns \<and> length ns = dg_node_capacity d' \<and>
     dg_node_capacity d' = dg_node_capacity d \<and> dg_submitted d' = dg_submitted d"
  using assms blank_graph by (auto simp: dag_alloc_nodes_def dag_wf_def Let_def split: option.splits if_splits)

lemma graph_wf_add_node:
  assumes wf: "graph_wf ns" and i: "i < length ns" "dn_fn (ns ! i) = 0" and n: "dn_fn n \<noteq> 0" "dn_node_id n = i"
    "dn_succs n = []" "dn_in_degree n = 0"
  shows "graph_wf (ns[i := n]) \<and> dag_added (ns[i := n]) = Suc (dag_added ns)"
proof -
  have edge: "dag_edge (ns[i := n]) u v \<longleftrightarrow> dag_edge ns u v" for u v
    using wf i n(3) by (cases "u = i") (auto simp: dag_edge_def graph_wf_def node_wf_def)
  have vs: "dag_vertices (ns[i := n]) = insert i (dag_vertices ns)"
    using i n(1) by (auto simp: dag_vertices_def nth_list_update)
  have no: "\<not> dag_edge ns u i" for u
    using edge_vertices [OF wf, of u i] i(2) by (auto simp: dag_vertices_def)
  have "node_wf (ns[i := n]) j" if "j < length ns" for j
  proof (cases "j = i")
    case True
    with i n no show ?thesis by (simp add: node_wf_def edge)
  next
    case False
    then have eq: "ns[i := n] ! j = ns ! j" by simp
    have "node_wf ns j" using wf that by (simp add: graph_wf_def)
    then show ?thesis unfolding node_wf_def eq edge vs by blast
  qed
  moreover have "i \<notin> dag_vertices ns" using i(2) by (simp add: dag_vertices_def)
  ultimately show ?thesis by (simp add: graph_wf_def dag_added_card vs)
qed

lemma graph_wf_add_edge:
  assumes wf: "graph_wf ns" and a: "a < length ns" "dn_fn (ns ! a) \<noteq> 0" and b: "b < length ns" "dn_fn (ns ! b) \<noteq> 0"
    and new: "a \<noteq> b" "b \<notin> set (dn_succs (ns ! a))"
    and ms: "ms = ns[a := (ns ! a)\<lparr>dn_succs := dn_succs (ns ! a) @ [b], dn_succs_cap := c\<rparr>,
                     b := (ns ! b)\<lparr>dn_in_degree := dn_in_degree (ns ! b) + 1\<rparr>]"
  shows "graph_wf ms \<and> dag_added ms = dag_added ns \<and> dag_vertices ms = dag_vertices ns \<and>
    dag_edges ms = insert (a, b) (dag_edges ns)"
proof -
  have nth: "ms ! j = (if j = b then (ns ! b)\<lparr>dn_in_degree := dn_in_degree (ns ! b) + 1\<rparr>
      else if j = a then (ns ! a)\<lparr>dn_succs := dn_succs (ns ! a) @ [b], dn_succs_cap := c\<rparr> else ns ! j)"
    if "j < length ns" for j
    using that a b new(1) by (auto simp: ms nth_list_update)
  have len: "length ms = length ns" by (simp add: ms)
  have edge: "dag_edge ms u v \<longleftrightarrow> dag_edge ns u v \<or> (u = a \<and> v = b)" for u v
  proof (cases "u < length ns")
    case True
    with nth [OF True] a(1) new(1) show ?thesis by (auto simp: dag_edge_def len)
  qed (use a(1) in \<open>auto simp: dag_edge_def len\<close>)
  have vs: "dag_vertices ms = dag_vertices ns"
    using nth a b by (auto simp: dag_vertices_def len split: if_splits)
  have deg: "card {u. dag_edge ms u j} = card {u. dag_edge ns u j} + (if j = b then 1 else 0)" for j
  proof (cases "j = b")
    case True
    then have "{u. dag_edge ms u j} = insert a {u. dag_edge ns u j}" by (auto simp: edge)
    moreover have "a \<notin> {u. dag_edge ns u j}" using new(2) True by (simp add: dag_edge_def)
    ultimately show ?thesis using True by simp
  qed (simp add: edge)
  have "node_wf ms j" if "j < length ns" for j
  proof -
    have old: "node_wf ns j" using wf that by (simp add: graph_wf_def)
    have "b \<in> dag_vertices ns" using b by (simp add: dag_vertices_def)
    with old a b new show ?thesis unfolding node_wf_def vs deg nth [OF that] by auto
  qed
  moreover have "dag_edges ms = insert (a, b) (dag_edges ns)" using edge by (auto simp: dag_edges_def)
  ultimately show ?thesis by (simp add: graph_wf_def len dag_added_card vs)
qed

subsection \<open>Refinement of an abstract graph\<close>

datatype build_op = AddNode nat u64 u64 u8 | AddEdge nat nat

fun build_step :: "dag \<Rightarrow> build_op \<Rightarrow> loom_result \<times> dag" where
  "build_step d (AddNode i fn data prio) = loom_dag_add_node True d i fn data prio"
| "build_step d (AddEdge a b) = loom_dag_add_edge True True d a b"

fun graph_step :: "nat \<Rightarrow> nat list \<times> (nat \<times> nat) list \<Rightarrow> build_op \<Rightarrow> loom_result \<times> nat list \<times> (nat \<times> nat) list" where
  "graph_step cap (V, E) (AddNode i fn data prio) =
     (if fn = 0 \<or> cap \<le> i \<or> i \<in> set V then (LOOMWORKS_ERR_INVALID, V, E) else (LOOMWORKS_OK, i # V, E))"
| "graph_step cap (V, E) (AddEdge a b) =
     (if a \<notin> set V \<or> b \<notin> set V \<or> a = b \<or> (a, b) \<in> set E then (LOOMWORKS_ERR_INVALID, V, E)
      else (LOOMWORKS_OK, V, (a, b) # E))"

fun run_build :: "dag \<Rightarrow> build_op list \<Rightarrow> loom_result list \<times> dag" where
  "run_build d [] = ([], d)"
| "run_build d (op # ops) = (case build_step d op of (r, d') \<Rightarrow> apfst (Cons r) (run_build d' ops))"

fun run_graph ::
    "nat \<Rightarrow> nat list \<times> (nat \<times> nat) list \<Rightarrow> build_op list \<Rightarrow> loom_result list \<times> nat list \<times> (nat \<times> nat) list" where
  "run_graph cap g [] = ([], g)"
| "run_graph cap g (op # ops) = (case graph_step cap g op of (r, g') \<Rightarrow> apfst (Cons r) (run_graph cap g' ops))"

definition dag_new :: "nat \<Rightarrow> dag" where
  "dag_new cap = the (snd (loom_dag_create True True cap True True True True True True))"

definition dag_graph :: "dag \<Rightarrow> dag_node list" where
  "dag_graph d = (case dg_nodes d of None \<Rightarrow> replicate (dg_node_capacity d) dag_node_blank | Some ns \<Rightarrow> ns)"

definition dag_represents :: "nat \<Rightarrow> dag \<Rightarrow> nat list \<Rightarrow> (nat \<times> nat) list \<Rightarrow> bool" where
  "dag_represents cap d V E \<longleftrightarrow> dag_wf d \<and> dg_node_capacity d = cap \<and> \<not> dg_submitted d \<and> \<not> dg_destroyed d \<and>
     set V = dag_vertices (dag_graph d) \<and> set E = dag_edges (dag_graph d)"

lemma dag_represents_alloc:
  assumes "dag_represents cap d V E"
  obtains d' where "dag_alloc_nodes True d = Some (dag_graph d, d')" "dg_nodes d' = Some (dag_graph d)"
    "graph_wf (dag_graph d)" "length (dag_graph d) = cap" "dg_node_capacity d' = cap" "\<not> dg_submitted d'"
    "\<not> dg_destroyed d'" "dg_added_count d' = dag_added (dag_graph d)"
  using assms blank_graph
  by (cases "dg_nodes d") (auto simp: dag_represents_def dag_alloc_nodes_def dag_graph_def dag_wf_def Let_def)

lemma representsI:
  assumes "graph_wf ns" "length ns = cap" "dg_nodes d = Some ns" "dg_node_capacity d = cap" "\<not> dg_submitted d"
    "\<not> dg_destroyed d" "dg_added_count d = dag_added ns" "set V = dag_vertices ns" "set E = dag_edges ns"
  shows "dag_represents cap d V E"
  using assms by (simp add: dag_represents_def dag_wf_def dag_graph_def)

lemma add_node_sim:
  assumes rep: "dag_represents cap d V E" and g: "graph_step cap (V, E) (AddNode i fn data prio) = (r, V', E')"
  shows "\<exists>d'. loom_dag_add_node True d i fn data prio = (r, d') \<and> dag_represents cap d' V' E'"
proof -
  obtain d1 where d1: "dag_alloc_nodes True d = Some (dag_graph d, d1)" "dg_nodes d1 = Some (dag_graph d)"
    "graph_wf (dag_graph d)" "length (dag_graph d) = cap" "dg_node_capacity d1 = cap" "\<not> dg_submitted d1"
    "\<not> dg_destroyed d1" "dg_added_count d1 = dag_added (dag_graph d)"
    using dag_represents_alloc [OF rep] by metis
  let ?ns = "dag_graph d"
  have d: "dg_node_capacity d = cap" "\<not> dg_submitted d" "\<not> dg_destroyed d"
    and V: "set V = dag_vertices ?ns" "set E = dag_edges ?ns" using rep by (auto simp: dag_represents_def)
  have rep1: "dag_represents cap d1 V E" using d1 V by (intro representsI [of ?ns]) auto
  show ?thesis
  proof (cases "fn = 0 \<or> cap \<le> i \<or> i \<in> set V")
    case True
    then show ?thesis
      using g d d1 rep rep1 V(1) by (auto simp: loom_dag_add_node_def dag_vertices_def)
  next
    case False
    then have new: "i < length ?ns" "dn_fn (?ns ! i) = 0" "fn \<noteq> 0" using V d1 by (auto simp: dag_vertices_def)
    define n where "n = (?ns ! i)\<lparr>dn_node_id := i, dn_fn := fn, dn_user_data := data, dn_priority := prio,
      dn_in_degree := 0, dn_status := LOOMWORKS_OK, dn_succs := [], dn_succs_cap := 0,
      dn_pending_preds := 0, dn_future_owner := False\<rparr>"
    have wf: "graph_wf (?ns[i := n]) \<and> dag_added (?ns[i := n]) = Suc (dag_added ?ns)"
      using new d1(3) by (intro graph_wf_add_node) (auto simp: n_def)
    have old: "dn_succs (?ns ! i) = []" using d1(3) new by (simp add: graph_wf_def node_wf_def)
    have sets: "dag_vertices (?ns[i := n]) = insert i (dag_vertices ?ns)" "dag_edges (?ns[i := n]) = dag_edges ?ns"
      using new old by (auto simp: dag_vertices_def dag_edges_def dag_edge_def nth_list_update n_def split: if_splits)
    have "loom_dag_add_node True d i fn data prio =
        (LOOMWORKS_OK, d1\<lparr>dg_nodes := Some (?ns[i := n]), dg_added_count := dg_added_count d1 + 1\<rparr>)"
      using d d1(1,4) new by (simp add: loom_dag_add_node_def n_def)
    moreover have "dag_represents cap (d1\<lparr>dg_nodes := Some (?ns[i := n]), dg_added_count := dg_added_count d1 + 1\<rparr>) (i # V) E"
      using wf d1 V sets by (intro representsI [of "?ns[i := n]"]) auto
    ultimately show ?thesis using g False by auto
  qed
qed

lemma add_edge_sim:
  assumes rep: "dag_represents cap d V E" and g: "graph_step cap (V, E) (AddEdge a b) = (r, V', E')"
  shows "\<exists>d'. loom_dag_add_edge True True d a b = (r, d') \<and> dag_represents cap d' V' E'"
proof -
  obtain d1 where d1: "dag_alloc_nodes True d = Some (dag_graph d, d1)" "dg_nodes d1 = Some (dag_graph d)"
    "graph_wf (dag_graph d)" "length (dag_graph d) = cap" "dg_node_capacity d1 = cap" "\<not> dg_submitted d1"
    "\<not> dg_destroyed d1" "dg_added_count d1 = dag_added (dag_graph d)"
    using dag_represents_alloc [OF rep] by metis
  let ?ns = "dag_graph d"
  have d: "dg_node_capacity d = cap" "\<not> dg_submitted d" "\<not> dg_destroyed d"
    and V: "set V = dag_vertices ?ns" "set E = dag_edges ?ns" using rep by (auto simp: dag_represents_def)
  have rep1: "dag_represents cap d1 V E" using d1 V by (intro representsI [of ?ns]) auto
  have edge: "(a, b) \<in> set E \<longleftrightarrow> a < cap \<and> b \<in> set (dn_succs (?ns ! a))"
    using V(2) d1(4) by (simp add: dag_edges_def dag_edge_def)
  show ?thesis
  proof (cases "a \<notin> set V \<or> b \<notin> set V \<or> a = b \<or> (a, b) \<in> set E")
    case True
    then have r: "r = LOOMWORKS_ERR_INVALID" "V' = V" "E' = E" using g by simp_all
    show ?thesis
    proof (cases "cap \<le> a \<or> cap \<le> b")
      case True
      with r d rep show ?thesis by (simp add: loom_dag_add_edge_def)
    next
      case False
      then have "a \<in> set V \<longleftrightarrow> dn_fn (?ns ! a) \<noteq> 0" "b \<in> set V \<longleftrightarrow> dn_fn (?ns ! b) \<noteq> 0"
        using V(1) d1(4) by (auto simp: dag_vertices_def)
      with False \<open>a \<notin> set V \<or> _\<close> edge have "loom_dag_add_edge True True d a b = (LOOMWORKS_ERR_INVALID, d1)"
        using d d1(1) by (simp add: loom_dag_add_edge_def Let_def) blast
      with r rep1 show ?thesis by simp
    qed
  next
    case False
    then have a: "a < length ?ns" "dn_fn (?ns ! a) \<noteq> 0" and b: "b < length ?ns" "dn_fn (?ns ! b) \<noteq> 0"
      and new: "a \<noteq> b" "b \<notin> set (dn_succs (?ns ! a))"
      using V(1) edge d1(4) by (auto simp: dag_vertices_def)
    define c where "c = (if length (dn_succs (?ns ! a)) = dn_succs_cap (?ns ! a)
        then (if dn_succs_cap (?ns ! a) \<noteq> 0 then dn_succs_cap (?ns ! a) * 2 else 4) else dn_succs_cap (?ns ! a))"
    define ms where "ms = ?ns[a := (?ns ! a)\<lparr>dn_succs := dn_succs (?ns ! a) @ [b], dn_succs_cap := c\<rparr>,
        b := (?ns ! b)\<lparr>dn_in_degree := dn_in_degree (?ns ! b) + 1\<rparr>]"
    note wf = graph_wf_add_edge [OF d1(3) a b new ms_def]
    have "loom_dag_add_edge True True d a b = (LOOMWORKS_OK, d1\<lparr>dg_nodes := Some ms\<rparr>)"
      using d d1(1,4) a b new by (simp add: loom_dag_add_edge_def Let_def ms_def c_def)
    moreover have "dag_represents cap (d1\<lparr>dg_nodes := Some ms\<rparr>) V ((a, b) # E)"
      using wf d1 V by (intro representsI [of ms]) (simp_all add: ms_def)
    ultimately show ?thesis using g False by auto
  qed
qed

lemma run_build_sim:
  "dag_represents cap d V E \<Longrightarrow> run_graph cap (V, E) ops = (rs, V', E') \<Longrightarrow>
   \<exists>d'. run_build d ops = (rs, d') \<and> dag_represents cap d' V' E'"
proof (induction ops arbitrary: d V E rs)
  case (Cons op ops)
  obtain r V1 E1 where g: "graph_step cap (V, E) op = (r, V1, E1)" by (cases "graph_step cap (V, E) op") auto
  have "\<exists>d1. build_step d op = (r, d1) \<and> dag_represents cap d1 V1 E1"
  proof (cases op)
    case (AddNode i fn data prio)
    with add_node_sim [OF Cons.prems(1) g [unfolded AddNode]] show ?thesis by simp
  next
    case (AddEdge a b)
    with add_edge_sim [OF Cons.prems(1) g [unfolded AddEdge]] show ?thesis by simp
  qed
  then obtain d1 where d1: "build_step d op = (r, d1)" "dag_represents cap d1 V1 E1" by blast
  obtain rs1 where "run_graph cap (V1, E1) ops = (rs1, V', E')" "rs = r # rs1"
    using Cons.prems(2) g by (cases "run_graph cap (V1, E1) ops") auto
  with Cons.IH [OF d1(2)] d1(1) show ?case by fastforce
qed auto

lemma dag_new_represents: "cap \<noteq> 0 \<Longrightarrow> dag_represents cap (dag_new cap) [] []"
  using blank_graph
  by (auto simp: dag_represents_def dag_new_def loom_dag_create_def dag_wf_def dag_graph_def dag_vertices_def
      dag_edges_def dag_edge_def dag_node_blank_def)

text \<open>
  C17.  For every sequence of \<open>loom_dag_add_node\<close> and \<open>loom_dag_add_edge\<close> calls that
  get the memory they ask for, the calls return what a plain set of nodes and edges dictates
  (unknown ids, duplicates and self-edges are refused), and \<open>loom_dag_submit\<close> then rejects the
  graph exactly when its accepted edges form a cycle; an empty graph is accepted at once.
\<close>

theorem dag_build_and_submit:
  assumes "cap \<noteq> 0" and "run_graph cap ([], []) ops = (rs, V, E)"
  shows "\<exists>d. run_build (dag_new cap) ops = (rs, d) \<and>
           fst (dag_submit_prepare True d) =
             (if V = [] then Some LOOMWORKS_OK
              else if acyclic (set E) then None else Some LOOMWORKS_ERR_INVALID)"
proof -
  obtain d where d: "run_build (dag_new cap) ops = (rs, d)" "dag_represents cap d V E"
    using run_build_sim [OF dag_new_represents [OF assms(1)] assms(2)] by blast
  let ?ns = "case dg_nodes d of None \<Rightarrow> [] | Some ns \<Rightarrow> ns"
  have V: "set V = dag_vertices ?ns" "set E = dag_edges ?ns" "graph_wf ?ns" "\<not> dg_submitted d" "\<not> dg_destroyed d"
    using d(2) by (auto simp: dag_represents_def dag_graph_def dag_wf_def dag_vertices_def dag_edges_def dag_edge_def
        dag_node_blank_def graph_wf_def split: option.splits)
  have "dag_added ?ns = 0 \<longleftrightarrow> V = []" using V(1) by (auto simp: dag_added_card)
  with dag_has_cycle_iff [OF V(3)] V d(1) show ?thesis
    by (auto simp: dag_submit_prepare_def Let_def)
qed

theorem dag_build_and_submit_witness:
  "\<exists>d. run_build (dag_new 4) [AddNode 0 9 0 5, AddNode 1 9 0 5, AddNode 1 9 0 5, AddEdge 0 1, AddEdge 1 2, AddEdge 1 0] =
       ([LOOMWORKS_OK, LOOMWORKS_OK, LOOMWORKS_ERR_INVALID, LOOMWORKS_OK, LOOMWORKS_ERR_INVALID, LOOMWORKS_OK], d) \<and>
     fst (dag_submit_prepare True d) = Some LOOMWORKS_ERR_INVALID"
proof -
  let ?ops = "[AddNode 0 9 0 5, AddNode 1 9 0 5, AddNode 1 9 0 5, AddEdge 0 1, AddEdge 1 2, AddEdge 1 0]"
  let ?rs = "[LOOMWORKS_OK, LOOMWORKS_OK, LOOMWORKS_ERR_INVALID, LOOMWORKS_OK, LOOMWORKS_ERR_INVALID, LOOMWORKS_OK]"
  have "(0, 0) \<in> (set [(1, 0), (0, 1 :: nat)])\<^sup>+" by (rule trancl_trans [of _ 1]) auto
  then have n: "\<not> acyclic (set [(1, 0), (0, 1 :: nat)])" unfolding acyclic_def by blast
  have "run_graph 4 ([], []) ?ops = (?rs, [1, 0], [(1, 0), (0, 1)])" by simp
  then obtain d where "run_build (dag_new 4) ?ops = (?rs, d)"
    "fst (dag_submit_prepare True d) = (if [1, 0 :: nat] = [] then Some LOOMWORKS_OK
       else if acyclic (set [(1, 0), (0, 1 :: nat)]) then None else Some LOOMWORKS_ERR_INVALID)"
    using dag_build_and_submit [of 4 ?ops] by (metis zero_neq_numeral)
  then show ?thesis unfolding if_not_P [OF n] by (intro exI [of _ d] conjI) simp_all
qed

end
