(* ===== verification/Dag_Run.thy ===== *)
theory Dag_Run
  imports Dag_Build
begin

text \<open>
  The execution of a submitted task DAG (\<^verbatim>\<open>src/src/dag.c\<close>) as a step relation.  The agents are the
  thread inside \<open>loom_dag_submit\<close>, which releases the roots (\<open>None\<close>), and the runner of every node
  (\<open>Some v\<close>, \<open>dag_runner_fn\<close> on a pool worker).  Every section under \<open>done_mu\<close> and every atomic access
  is one step; the steps interleave arbitrarily.  The pool may refuse a task and allocations may
  fail at any release.  One thread joins (\<open>dag_wait_internal\<close>); it may wake up spuriously.
\<close>

datatype apc =
    AIdle
  | AQueued
  | ARunning
  | ALoop
  | ADec
  | ARel nat
  | AInit nat
  | ACounted nat
  | ASubmitted nat
  | ARejected nat loom_result
  | ADrain
  | ADone

datatype joiner = JIdle | JBlocked | JWoken | JReturned loom_result

text \<open>
  \<open>dr_pos\<close> is the loop variable of an agent, over the node ids for the submitting thread and over the
  successors for a runner.  \<open>dr_owner\<close>, \<open>dr_ready\<close> and \<open>dr_status\<close> are \<open>future_owner\<close>, the embedded
  future's \<open>ready\<close> and the status of a node.  \<open>dr_begun\<close>, \<open>dr_bumped\<close> and \<open>dr_runs\<close> are ghost: whether the release of
  a node has begun, whether it is counted in \<open>released_total\<close>, and how often its function ran.
\<close>

record drun =
  dr_pending :: "nat \<Rightarrow> nat"
  dr_pc :: "nat option \<Rightarrow> apc"
  dr_pos :: "nat option \<Rightarrow> nat"
  dr_failed :: bool
  dr_error :: loom_result
  dr_in_flight :: nat
  dr_released :: nat
  dr_join :: joiner
  dr_owner :: "nat \<Rightarrow> bool"
  dr_ready :: "nat \<Rightarrow> bool"
  dr_status :: "nat \<Rightarrow> loom_result"
  dr_begun :: "nat \<Rightarrow> bool"
  dr_bumped :: "nat \<Rightarrow> bool"
  dr_runs :: "nat \<Rightarrow> nat"

definition dag_drained :: "dag_node list \<Rightarrow> drun \<Rightarrow> bool" where
  "dag_drained ns s \<longleftrightarrow> dr_in_flight s = 0 \<and> (dr_failed s \<or> dr_released s = dag_added ns)"

definition signal_done :: "dag_node list \<Rightarrow> drun \<Rightarrow> drun" where
  "signal_done ns s =
     (if dag_drained ns s \<and> dr_join s = JBlocked then s\<lparr>dr_join := JWoken\<rparr> else s)"

definition dag_record_release_failure :: "dag_node list \<Rightarrow> loom_result \<Rightarrow> nat \<Rightarrow> drun \<Rightarrow> drun" where
  "dag_record_release_failure ns rc v s =
     (let s = (if \<not> dr_failed s then s\<lparr>dr_error := rc, dr_failed := True\<rparr> else s)
      in signal_done ns (s\<lparr>dr_released := dr_released s + 1, dr_bumped := (dr_bumped s)(v := True)\<rparr>))"

text \<open>After a release the runner goes on with its loop; the submitting thread stops at a failure.\<close>

definition after_release :: "nat option \<Rightarrow> bool \<Rightarrow> apc" where
  "after_release ag ok = (if ok \<or> ag \<noteq> None then ALoop else ADone)"

definition set_pc :: "drun \<Rightarrow> nat option \<Rightarrow> apc \<Rightarrow> drun" where
  "set_pc s ag pc = s\<lparr>dr_pc := (dr_pc s)(ag := pc)\<rparr>"

abbreviation succs_of :: "dag_node list \<Rightarrow> nat \<Rightarrow> nat list" where
  "succs_of ns u \<equiv> dn_succs (ns ! u)"

definition is_root :: "dag_node list \<Rightarrow> nat \<Rightarrow> bool" where
  "is_root ns v \<longleftrightarrow> dn_fn (ns ! v) \<noteq> 0 \<and> dn_in_degree (ns ! v) = 0"

inductive dstep :: "dag_node list \<Rightarrow> drun \<Rightarrow> drun \<Rightarrow> bool" for ns :: "dag_node list" where
  s_root: "dr_pc s None = ALoop \<Longrightarrow> i = dr_pos s None \<Longrightarrow> i < length ns \<Longrightarrow> is_root ns i \<Longrightarrow>
    dstep ns s (s\<lparr>dr_pc := (dr_pc s)(None := ARel i), dr_pos := (dr_pos s)(None := i + 1),
                  dr_begun := (dr_begun s)(i := True)\<rparr>)"
| s_skip: "dr_pc s None = ALoop \<Longrightarrow> i = dr_pos s None \<Longrightarrow> i < length ns \<Longrightarrow> \<not> is_root ns i \<Longrightarrow>
    dstep ns s (s\<lparr>dr_pos := (dr_pos s)(None := i + 1)\<rparr>)"
| s_end: "dr_pc s None = ALoop \<Longrightarrow> length ns \<le> dr_pos s None \<Longrightarrow>
    dstep ns s (set_pc s None ADone)"
| r_nomem: "dr_pc s ag = ARel v \<Longrightarrow> rc \<noteq> LOOMWORKS_OK \<Longrightarrow>
    dstep ns s (set_pc (dag_record_release_failure ns rc v s) ag (after_release ag False))"
| r_init: "dr_pc s ag = ARel v \<Longrightarrow>
    dstep ns s (s\<lparr>dr_owner := (dr_owner s)(v := True), dr_pc := (dr_pc s)(ag := AInit v)\<rparr>)"
| r_count: "dr_pc s ag = AInit v \<Longrightarrow>
    dstep ns s (s\<lparr>dr_in_flight := dr_in_flight s + 1, dr_pc := (dr_pc s)(ag := ACounted v)\<rparr>)"
| r_submit: "dr_pc s ag = ACounted v \<Longrightarrow>
    dstep ns s (s\<lparr>dr_pc := (dr_pc s)(ag := ASubmitted v, Some v := AQueued)\<rparr>)"
| r_reject: "dr_pc s ag = ACounted v \<Longrightarrow> rc \<noteq> LOOMWORKS_OK \<Longrightarrow>
    dstep ns s (s\<lparr>dr_status := (dr_status s)(v := rc), dr_ready := (dr_ready s)(v := True),
                  dr_pc := (dr_pc s)(ag := ARejected v rc)\<rparr>)"
| r_undo: "dr_pc s ag = ARejected v rc \<Longrightarrow>
    dstep ns s (set_pc (dag_record_release_failure ns rc v (s\<lparr>dr_in_flight := dr_in_flight s - 1\<rparr>))
                  ag (after_release ag False))"
| r_done: "dr_pc s ag = ASubmitted v \<Longrightarrow>
    dstep ns s (set_pc (signal_done ns (s\<lparr>dr_released := dr_released s + 1, dr_bumped := (dr_bumped s)(v := True)\<rparr>))
                  ag (after_release ag True))"
| n_start: "dr_pc s (Some u) = AQueued \<Longrightarrow> dstep ns s (set_pc s (Some u) ARunning)"
| n_ran: "dr_pc s (Some u) = ARunning \<Longrightarrow>
    dstep ns s (s\<lparr>dr_pc := (dr_pc s)(Some u := ALoop), dr_runs := (dr_runs s)(u := dr_runs s u + 1),
                  dr_status := (dr_status s)(u := rc), dr_ready := (dr_ready s)(u := True)\<rparr>)"
| n_check: "dr_pc s (Some u) = ALoop \<Longrightarrow> dr_pos s (Some u) < length (succs_of ns u) \<Longrightarrow> \<not> dr_failed s \<Longrightarrow>
    dstep ns s (set_pc s (Some u) ADec)"
| n_frozen: "dr_pc s (Some u) = ALoop \<Longrightarrow> dr_pos s (Some u) < length (succs_of ns u) \<Longrightarrow> dr_failed s \<Longrightarrow>
    dstep ns s (set_pc s (Some u) ADrain)"
| n_end: "dr_pc s (Some u) = ALoop \<Longrightarrow> dr_pos s (Some u) \<ge> length (succs_of ns u) \<Longrightarrow>
    dstep ns s (set_pc s (Some u) ADrain)"
| n_dec: "dr_pc s (Some u) = ADec \<Longrightarrow> v = succs_of ns u ! dr_pos s (Some u) \<Longrightarrow>
    dstep ns s (s\<lparr>dr_pending := (dr_pending s)(v := dr_pending s v - 1),
                  dr_pos := (dr_pos s)(Some u := dr_pos s (Some u) + 1),
                  dr_pc := (dr_pc s)(Some u := (if dr_pending s v = 1 then ARel v else ALoop)),
                  dr_begun := (dr_begun s)(v := dr_begun s v \<or> dr_pending s v = 1)\<rparr>)"
| n_drain: "dr_pc s (Some u) = ADrain \<Longrightarrow>
    dstep ns s (set_pc (signal_done ns (s\<lparr>dr_in_flight := dr_in_flight s - 1\<rparr>)) (Some u) ADone)"

text \<open>The joining thread.\<close>

inductive jstep :: "dag_node list \<Rightarrow> drun \<Rightarrow> drun \<Rightarrow> bool" for ns :: "dag_node list" where
  j_return: "dr_join s \<in> {JIdle, JWoken} \<Longrightarrow> dag_drained ns s \<Longrightarrow>
    jstep ns s (s\<lparr>dr_join := JReturned (if dr_failed s then dr_error s else LOOMWORKS_OK)\<rparr>)"
| j_block: "dr_join s \<in> {JIdle, JWoken} \<Longrightarrow> \<not> dag_drained ns s \<Longrightarrow> jstep ns s (s\<lparr>dr_join := JBlocked\<rparr>)"
| j_spurious: "dr_join s = JBlocked \<Longrightarrow> jstep ns s (s\<lparr>dr_join := JWoken\<rparr>)"
| j_timeout: "dr_join s = JBlocked \<Longrightarrow> jstep ns s (s\<lparr>dr_join := JReturned LOOMWORKS_ERR_TIMEOUT\<rparr>)"
| j_again: "dr_join s = JReturned r \<Longrightarrow> jstep ns s (s\<lparr>dr_join := JIdle\<rparr>)"

text \<open>The state in which \<open>loom_dag_submit\<close> starts to release the roots.\<close>

definition drun_init :: "dag_node list \<Rightarrow> drun" where
  "drun_init ns =
     \<lparr>dr_pending = (\<lambda>v. dn_pending_preds (ns ! v)), dr_pc = (\<lambda>ag. if ag = None then ALoop else AIdle),
      dr_pos = (\<lambda>ag. 0), dr_failed = False, dr_error = LOOMWORKS_OK, dr_in_flight = 0, dr_released = 0,
      dr_join = JIdle, dr_owner = (\<lambda>v. False), dr_ready = (\<lambda>v. False),
      dr_status = (\<lambda>v. LOOMWORKS_OK), dr_begun = (\<lambda>v. False), dr_bumped = (\<lambda>v. False), dr_runs = (\<lambda>v. 0)\<rparr>"

inductive dreach :: "dag_node list \<Rightarrow> drun \<Rightarrow> bool" for ns :: "dag_node list" where
  dreach_init: "dreach ns (drun_init ns)"
| dreach_step: "dreach ns s \<Longrightarrow> dstep ns s s' \<Longrightarrow> dreach ns s'"
| dreach_join: "dreach ns s \<Longrightarrow> jstep ns s s' \<Longrightarrow> dreach ns s'"

subsection \<open>What the bookkeeping functions leave alone\<close>

lemma signal_done_simps [simp, frame_simps]:
  "dr_owner (signal_done ns s) = dr_owner s" "dr_ready (signal_done ns s) = dr_ready s"
  "dr_status (signal_done ns s) = dr_status s" "dr_pending (signal_done ns s) = dr_pending s" "dr_pc (signal_done ns s) = dr_pc s"
  "dr_pos (signal_done ns s) = dr_pos s" "dr_failed (signal_done ns s) = dr_failed s"
  "dr_error (signal_done ns s) = dr_error s" "dr_in_flight (signal_done ns s) = dr_in_flight s"
  "dr_released (signal_done ns s) = dr_released s" "dr_begun (signal_done ns s) = dr_begun s"
  "dr_bumped (signal_done ns s) = dr_bumped s" "dr_runs (signal_done ns s) = dr_runs s"
  by (simp_all add: signal_done_def)

lemma record_failure_simps [simp, frame_simps]:
  "dr_owner (dag_record_release_failure ns rc v s) = dr_owner s" "dr_ready (dag_record_release_failure ns rc v s) = dr_ready s"
  "dr_status (dag_record_release_failure ns rc v s) = dr_status s" "dr_pending (dag_record_release_failure ns rc v s) = dr_pending s"
  "dr_pc (dag_record_release_failure ns rc v s) = dr_pc s"
  "dr_pos (dag_record_release_failure ns rc v s) = dr_pos s"
  "dr_failed (dag_record_release_failure ns rc v s)"
  "dr_error (dag_record_release_failure ns rc v s) = (if dr_failed s then dr_error s else rc)"
  "dr_in_flight (dag_record_release_failure ns rc v s) = dr_in_flight s"
  "dr_released (dag_record_release_failure ns rc v s) = dr_released s + 1"
  "dr_begun (dag_record_release_failure ns rc v s) = dr_begun s"
  "dr_bumped (dag_record_release_failure ns rc v s) = (dr_bumped s)(v := True)"
  "dr_runs (dag_record_release_failure ns rc v s) = dr_runs s"
  by (simp_all add: dag_record_release_failure_def)

lemma set_pc_simps [simp, frame_simps]:
  "dr_owner (set_pc s ag pc) = dr_owner s" "dr_ready (set_pc s ag pc) = dr_ready s"
  "dr_status (set_pc s ag pc) = dr_status s" "dr_pending (set_pc s ag pc) = dr_pending s" "dr_pc (set_pc s ag pc) = (dr_pc s)(ag := pc)"
  "dr_pos (set_pc s ag pc) = dr_pos s" "dr_failed (set_pc s ag pc) = dr_failed s"
  "dr_error (set_pc s ag pc) = dr_error s" "dr_in_flight (set_pc s ag pc) = dr_in_flight s"
  "dr_released (set_pc s ag pc) = dr_released s" "dr_begun (set_pc s ag pc) = dr_begun s"
  "dr_bumped (set_pc s ag pc) = dr_bumped s" "dr_runs (set_pc s ag pc) = dr_runs s"
  "dr_join (set_pc s ag pc) = dr_join s"
  by (simp_all add: set_pc_def)

subsection \<open>The invariant\<close>

text \<open>The node an agent is releasing, and whether that release is counted in \<open>in_flight\<close>.\<close>

fun target :: "apc \<Rightarrow> nat option" where
  "target (ARel v) = Some v"
| "target (AInit v) = Some v"
| "target (ACounted v) = Some v"
| "target (ASubmitted v) = Some v"
| "target (ARejected v rc) = Some v"
| "target _ = None"

fun counting :: "apc \<Rightarrow> nat option" where
  "counting (ACounted v) = Some v"
| "counting (ARejected v rc) = Some v"
| "counting _ = None"

lemma after_release_simps [simp]: "target (after_release ag ok) = None" "counting (after_release ag ok) = None"
  "after_release (Some u) ok = ALoop" "after_release None True = ALoop" "after_release None False = ADone"
  by (simp_all add: after_release_def)

text \<open>A runner that has not yet run its function.\<close>

definition fresh_pc :: "apc \<Rightarrow> bool" where
  "fresh_pc pc \<longleftrightarrow> pc = AIdle \<or> pc = AQueued \<or> pc = ARunning"

definition active :: "drun \<Rightarrow> nat \<Rightarrow> bool" where
  "active s v \<longleftrightarrow> dr_pc s (Some v) \<noteq> AIdle \<and> dr_pc s (Some v) \<noteq> ADone \<or> (\<exists>ag. counting (dr_pc s ag) = Some v)"

text \<open>Loop positions.\<close>

fun agent_ok :: "dag_node list \<Rightarrow> nat option \<Rightarrow> apc \<Rightarrow> nat \<Rightarrow> bool" where
  "agent_ok ns None pc i \<longleftrightarrow> i \<le> length ns \<and> \<not> fresh_pc pc \<and> pc \<noteq> ADec \<and> pc \<noteq> ADrain"
| "agent_ok ns (Some u) pc i \<longleftrightarrow> i \<le> length (succs_of ns u) \<and> (fresh_pc pc \<longrightarrow> i = 0) \<and>
     (pc = ADec \<longrightarrow> i < length (succs_of ns u))"

definition pos_inv :: "dag_node list \<Rightarrow> drun \<Rightarrow> bool" where
  "pos_inv ns s \<longleftrightarrow> (\<forall>ag. agent_ok ns ag (dr_pc s ag) (dr_pos s ag))"

text \<open>\<open>u\<close> has not yet told its successor \<open>v\<close>.\<close>

definition waiting_for :: "dag_node list \<Rightarrow> drun \<Rightarrow> nat \<Rightarrow> nat set" where
  "waiting_for ns s v = {u. dag_edge ns u v \<and> v \<notin> set (take (dr_pos s (Some u)) (succs_of ns u))}"

definition count_inv :: "dag_node list \<Rightarrow> drun \<Rightarrow> bool" where
  "count_inv ns s \<longleftrightarrow> (\<forall>v\<in>dag_vertices ns.
     dr_pending s v = card (waiting_for ns s v) \<and>
     dr_begun s v = (if is_root ns v then v < dr_pos s None else dr_pending s v = 0))"

text \<open>
  A node is released by one agent: nobody holds it before its release has begun and after it was
  counted in \<open>released_total\<close>; in between exactly one agent does.
\<close>

definition rel_by :: "drun \<Rightarrow> nat \<Rightarrow> nat option set" where
  "rel_by s v = {ag. target (dr_pc s ag) = Some v}"

definition own_ok :: "dag_node list \<Rightarrow> drun \<Rightarrow> nat \<Rightarrow> bool" where
  "own_ok ns s v \<longleftrightarrow>
     (if \<not> dr_begun s v then rel_by s v = {} \<and> dr_pc s (Some v) = AIdle \<and> \<not> dr_bumped s v
      else v \<in> dag_vertices ns \<and>
        (if dr_bumped s v then rel_by s v = {}
         else \<exists>ag. rel_by s v = {ag} \<and> (dr_pc s ag = ASubmitted v \<longleftrightarrow> dr_pc s (Some v) \<noteq> AIdle)))"

definition own_inv :: "dag_node list \<Rightarrow> drun \<Rightarrow> bool" where
  "own_inv ns s \<longleftrightarrow> (\<forall>v. own_ok ns s v)"

lemma finite_waiting [simp]: "finite (waiting_for ns s v)"
  by (simp add: waiting_for_def)

lemma agent_ok_mono:
  "agent_ok ns ag pc i \<Longrightarrow> \<not> fresh_pc pc' \<Longrightarrow> pc' \<noteq> ADec \<Longrightarrow> pc' \<noteq> ADrain \<Longrightarrow> agent_ok ns ag pc' i"
  by (cases ag) auto

lemma fresh_pc_simps [simp]:
  "fresh_pc AIdle" "fresh_pc AQueued" "fresh_pc ARunning" "\<not> fresh_pc ALoop" "\<not> fresh_pc ADec" "\<not> fresh_pc (ARel v)" "\<not> fresh_pc (AInit v)"
  "\<not> fresh_pc (ACounted v)" "\<not> fresh_pc (ASubmitted v)" "\<not> fresh_pc (ARejected v rc)" "\<not> fresh_pc ADrain" "\<not> fresh_pc ADone"
  "\<not> fresh_pc (after_release ag ok)" "after_release ag ok \<noteq> ADec" "after_release ag ok \<noteq> ADrain"
  "after_release ag ok \<noteq> AIdle" "after_release ag ok \<noteq> AQueued" "after_release ag ok \<noteq> ARunning"
  by (simp_all add: fresh_pc_def after_release_def)

lemma pos_inv_upd:
  assumes "pos_inv ns s" "\<And>a. a \<noteq> ag \<Longrightarrow> dr_pc s' a = dr_pc s a \<and> dr_pos s' a = dr_pos s a"
    "agent_ok ns ag (dr_pc s' ag) (dr_pos s' ag)"
  shows "pos_inv ns s'"
  using assms unfolding pos_inv_def by metis

lemma pos_inv_pc:
  assumes "pos_inv ns s" "dr_pc s' = (dr_pc s)(ag := pc)" "dr_pos s' = dr_pos s"
    "\<not> fresh_pc pc" "pc \<noteq> ADec" "pc \<noteq> ADrain"
  shows "pos_inv ns s'"
proof (rule pos_inv_upd [OF assms(1), of ag])
  show "agent_ok ns ag (dr_pc s' ag) (dr_pos s' ag)"
    using assms agent_ok_mono [of ns ag "dr_pc s ag" "dr_pos s ag" pc] by (simp add: pos_inv_def)
qed (use assms(2,3) in auto)

lemma own_idle:
  assumes "own_inv ns s" "target (dr_pc s ag) = Some v"
  shows "v \<in> dag_vertices ns" "dr_begun s v" "\<not> dr_bumped s v" "rel_by s v = {ag}"
    "dr_pc s (Some v) \<noteq> AIdle \<longleftrightarrow> dr_pc s ag = ASubmitted v"
proof -
  have ok: "own_ok ns s v" and ag: "ag \<in> rel_by s v" using assms by (auto simp: own_inv_def rel_by_def)
  then show b: "dr_begun s v" "\<not> dr_bumped s v" "v \<in> dag_vertices ns" by (auto simp: own_ok_def split: if_splits)
  with ok obtain a where "rel_by s v = {a}" "dr_pc s a = ASubmitted v \<longleftrightarrow> dr_pc s (Some v) \<noteq> AIdle"
    by (auto simp: own_ok_def)
  with ag show "rel_by s v = {ag}" "dr_pc s (Some v) \<noteq> AIdle \<longleftrightarrow> dr_pc s ag = ASubmitted v" by auto
qed

lemma pos_inv_step:
  assumes inv: "pos_inv ns s" and own: "own_inv ns s" and st: "dstep ns s s'"
  shows "pos_inv ns s'"
proof -
  have ok: "agent_ok ns ag (dr_pc s ag) (dr_pos s ag)" for ag using inv by (simp add: pos_inv_def)
  from st show ?thesis
  proof cases
    case (s_root i)
    then show ?thesis using ok [of None] by (intro pos_inv_upd [OF inv, of None]) simp_all
  next
    case (s_skip i)
    then show ?thesis using ok [of None] by (intro pos_inv_upd [OF inv, of None]) simp_all
  next
    case s_end
    then show ?thesis using ok [of None] by (intro pos_inv_upd [OF inv, of None]) simp_all
  next
    case (r_nomem ag v rc)
    then show ?thesis by (intro pos_inv_pc [OF inv, of _ ag "after_release ag False"]) simp_all
  next
    case (r_init ag v)
    then show ?thesis by (intro pos_inv_pc [OF inv, of _ ag "AInit v"]) simp_all
  next
    case (r_count ag v)
    then show ?thesis by (intro pos_inv_pc [OF inv, of _ ag "ACounted v"]) simp_all
  next
    case (r_submit ag v)
    let ?m = "set_pc s ag (ASubmitted v)"
    have "dr_pc s (Some v) = AIdle" using own_idle(5) [OF own, of ag v] r_submit by auto
    then have q: "agent_ok ns (Some v) AQueued (dr_pos s (Some v))" using ok [of "Some v"] by simp
    have m: "pos_inv ns ?m" by (rule pos_inv_pc [OF inv, of _ ag "ASubmitted v"]) simp_all
    show ?thesis using q r_submit by (intro pos_inv_upd [OF m, of "Some v"]) simp_all
  next
    case (r_reject ag v rc)
    then show ?thesis by (intro pos_inv_pc [OF inv, of _ ag "ARejected v rc"]) simp_all
  next
    case (r_undo ag v rc)
    then show ?thesis by (intro pos_inv_pc [OF inv, of _ ag "after_release ag False"]) simp_all
  next
    case (r_done ag v)
    then show ?thesis by (intro pos_inv_pc [OF inv, of _ ag "after_release ag True"]) simp_all
  next
    case (n_start u)
    then show ?thesis using ok [of "Some u"] by (intro pos_inv_upd [OF inv, of "Some u"]) simp_all
  next
    case (n_ran u rc)
    then show ?thesis using ok [of "Some u"] by (intro pos_inv_upd [OF inv, of "Some u"]) simp_all
  next
    case (n_check u)
    then show ?thesis using ok [of "Some u"] by (intro pos_inv_upd [OF inv, of "Some u"]) simp_all
  next
    case (n_frozen u)
    then show ?thesis using ok [of "Some u"] by (intro pos_inv_upd [OF inv, of "Some u"]) simp_all
  next
    case (n_end u)
    then show ?thesis using ok [of "Some u"] by (intro pos_inv_upd [OF inv, of "Some u"]) simp_all
  next
    case (n_dec u v)
    then show ?thesis using ok [of "Some u"] by (intro pos_inv_upd [OF inv, of "Some u"]) simp_all
  next
    case (n_drain u)
    then show ?thesis using ok [of "Some u"] by (intro pos_inv_upd [OF inv, of "Some u"]) simp_all
  qed
qed

subsection \<open>The predecessor counters\<close>

lemma count_inv_frame:
  "count_inv ns s \<Longrightarrow> dr_pending s' = dr_pending s \<Longrightarrow> dr_pos s' = dr_pos s \<Longrightarrow> dr_begun s' = dr_begun s \<Longrightarrow>
   count_inv ns s'"
  by (simp add: count_inv_def waiting_for_def)

lemma waiting_mem:
  assumes wf: "graph_wf ns" and u: "u < length ns" "dr_pos s (Some u) < length (succs_of ns u)"
    "v = succs_of ns u ! dr_pos s (Some u)"
  shows "u \<in> waiting_for ns s v"
proof -
  have "distinct (succs_of ns u)" using wf u(1) by (simp add: graph_wf_def node_wf_def)
  then have "v \<notin> set (take (dr_pos s (Some u)) (succs_of ns u))"
    using u by (auto simp: in_set_conv_nth nth_eq_iff_index_eq)
  then show ?thesis using u by (auto simp: waiting_for_def dag_edge_def)
qed

lemma waiting_dec:
  assumes u: "i < length (succs_of ns u)" "v = succs_of ns u ! i"
    and pos: "dr_pos s (Some u) = i" "dr_pos s' = (dr_pos s)(Some u := i + 1)"
  shows "waiting_for ns s' w = (if w = v then waiting_for ns s v - {u} else waiting_for ns s w)"
proof -
  have "set (take (i + 1) (succs_of ns u)) = insert v (set (take i (succs_of ns u)))"
    using u by (simp add: take_Suc_conv_app_nth)
  then show ?thesis using pos by (auto simp: waiting_for_def)
qed

lemma not_root_succ: "graph_wf ns \<Longrightarrow> dag_edge ns u v \<Longrightarrow> \<not> is_root ns v"
proof
  assume wf: "graph_wf ns" and e: "dag_edge ns u v" and "is_root ns v"
  have "v < length ns" using edge_vertices [OF wf e] by (simp add: dag_vertices_def)
  then have "card {u. dag_edge ns u v} = 0"
    using wf \<open>is_root ns v\<close> by (simp add: graph_wf_def node_wf_def is_root_def)
  with e show False by simp
qed

lemma runner_vertex: "own_inv ns s \<Longrightarrow> dr_pc s (Some u) \<noteq> AIdle \<Longrightarrow> u \<in> dag_vertices ns \<and> dr_begun s u"
  by (force simp: own_inv_def own_ok_def split: if_splits)

lemma dec_facts:
  assumes wf: "graph_wf ns" and inv: "count_inv ns s" "pos_inv ns s" "own_inv ns s"
    and u: "dr_pc s (Some u) = ADec" "v = succs_of ns u ! dr_pos s (Some u)"
  shows "u < length ns" "dr_pos s (Some u) < length (succs_of ns u)" "dag_edge ns u v" "v \<in> dag_vertices ns"
    "\<not> is_root ns v" "0 < dr_pending s v" "\<not> dr_begun s v" "v \<noteq> u"
proof -
  show len: "u < length ns" using runner_vertex [OF inv(3), of u] u(1) by (simp add: dag_vertices_def)
  have "agent_ok ns (Some u) (dr_pc s (Some u)) (dr_pos s (Some u))" using inv(2) unfolding pos_inv_def by blast
  then show p: "dr_pos s (Some u) < length (succs_of ns u)" using u(1) by simp
  then show e: "dag_edge ns u v" using u(2) len by (simp add: dag_edge_def)
  show v: "v \<in> dag_vertices ns" using edge_vertices [OF wf e] by simp
  show r: "\<not> is_root ns v" by (rule not_root_succ [OF wf e])
  have "u \<in> waiting_for ns s v" by (rule waiting_mem [OF wf len p u(2)])
  then have "0 < card (waiting_for ns s v)" by (auto simp: card_gt_0_iff)
  then show "0 < dr_pending s v" "\<not> dr_begun s v" using inv(1) v r by (auto simp: count_inv_def)
  have "u \<notin> set (succs_of ns u)" using wf len by (simp add: graph_wf_def node_wf_def)
  then show "v \<noteq> u" using nth_mem [OF p] u(2) by auto
qed

lemma count_inv_root:
  assumes inv: "count_inv ns s" and i: "i = dr_pos s None" "dr_pos s' = (dr_pos s)(None := i + 1)"
    "dr_pending s' = dr_pending s" "dr_begun s' = (if is_root ns i then (dr_begun s)(i := True) else dr_begun s)"
  shows "count_inv ns s'"
proof -
  have w: "waiting_for ns s' v = waiting_for ns s v" for v using i by (simp add: waiting_for_def)
  have "dr_begun s' v = (if is_root ns v then v < dr_pos s' None else dr_pending s' v = 0)"
    if "v \<in> dag_vertices ns" for v
    using inv that i by (cases "v = i") (auto simp: count_inv_def less_Suc_eq)
  then show ?thesis using inv i(3) unfolding count_inv_def w by simp
qed

lemma count_inv_dec:
  assumes wf: "graph_wf ns" and inv: "count_inv ns s" "pos_inv ns s" "own_inv ns s"
    and u: "dr_pc s (Some u) = ADec" "v = succs_of ns u ! dr_pos s (Some u)"
    and s': "dr_pos s' = (dr_pos s)(Some u := dr_pos s (Some u) + 1)"
      "dr_pending s' = (dr_pending s)(v := dr_pending s v - 1)"
      "dr_begun s' = (dr_begun s)(v := dr_begun s v \<or> dr_pending s v = 1)"
  shows "count_inv ns s'"
proof -
  note d = dec_facts [OF wf inv u]
  have w: "waiting_for ns s' x = (if x = v then waiting_for ns s v - {u} else waiting_for ns s x)" for x
    by (rule waiting_dec [OF d(2) u(2) refl s'(1)])
  have mem: "u \<in> waiting_for ns s v" by (rule waiting_mem [OF wf d(1,2) u(2)])
  have "dr_pending s v = card (waiting_for ns s v)" using inv(1) d(4) by (simp add: count_inv_def)
  then have c: "card (waiting_for ns s v - {u}) = dr_pending s v - 1" using mem by simp
  have "dr_pending s' x = card (waiting_for ns s' x) \<and>
      dr_begun s' x = (if is_root ns x then x < dr_pos s' None else dr_pending s' x = 0)"
    if x: "x \<in> dag_vertices ns" for x
  proof (cases "x = v")
    case True
    have "dr_pending s' v = dr_pending s v - 1" "dr_begun s' v = (dr_pending s v = 1)"
      using s'(2,3) d(7) by simp_all
    then show ?thesis using True c w [of v] d(5,6) by (simp; linarith)
  next
    case False
    then show ?thesis using x inv(1) w [of x] s' by (simp add: count_inv_def)
  qed
  then show ?thesis by (simp add: count_inv_def)
qed

lemma count_inv_step:
  assumes wf: "graph_wf ns" and inv: "count_inv ns s" "pos_inv ns s" "own_inv ns s" and st: "dstep ns s s'"
  shows "count_inv ns s'"
  using st
proof cases
  case (s_root i)
  show ?thesis using s_root by (intro count_inv_root [OF inv(1), of i]) simp_all
next
  case (s_skip i)
  show ?thesis using s_skip by (intro count_inv_root [OF inv(1), of i]) simp_all
next
  case (n_dec u v)
  show ?thesis using n_dec by (intro count_inv_dec [OF wf inv, of u v]) simp_all
qed (simp_all add: count_inv_frame [OF inv(1)])

subsection \<open>One releaser per node\<close>

lemma rel_by_upd:
  assumes "dr_pc s' = (dr_pc s)(ag := pc)"
  shows "rel_by s' v = (if target pc = Some v then insert ag (rel_by s v) else rel_by s v - {ag})"
  using assms by (auto simp: rel_by_def)

lemma rel_by_other: "target (dr_pc s ag) \<noteq> Some v \<Longrightarrow> ag \<notin> rel_by s v"
  by (simp add: rel_by_def)

text \<open>A node whose releaser, runner and ghost flags are untouched keeps its invariant.\<close>

lemma own_ok_frame:
  assumes "own_ok ns s v" "rel_by s' v = rel_by s v" "dr_begun s' v = dr_begun s v" "dr_bumped s' v = dr_bumped s v"
    "(dr_pc s' (Some v) = AIdle) = (dr_pc s (Some v) = AIdle)"
    "\<And>ag. ag \<in> rel_by s v \<Longrightarrow> (dr_pc s' ag = ASubmitted v) = (dr_pc s ag = ASubmitted v)"
  shows "own_ok ns s' v"
  using assms(1) unfolding own_ok_def assms(2-5) using assms(6) by (auto split: if_splits)

lemma own_quiet:
  assumes inv: "own_inv ns s" and s': "dr_pc s' = (dr_pc s)(ag := pc)" "dr_begun s' = dr_begun s" "dr_bumped s' = dr_bumped s"
    and pc: "target pc = target (dr_pc s ag)" "pc \<noteq> AIdle" "dr_pc s ag \<noteq> AIdle"
      "\<And>v. pc = ASubmitted v \<longleftrightarrow> dr_pc s ag = ASubmitted v"
  shows "own_inv ns s'"
  unfolding own_inv_def
proof
  fix v
  have ok: "own_ok ns s v" using inv by (simp add: own_inv_def)
  have "target (dr_pc s' a) = target (dr_pc s a)" for a using s'(1) pc(1) by simp
  then have r: "rel_by s' v = rel_by s v" by (simp add: rel_by_def)
  have i: "(dr_pc s' (Some v) = AIdle) = (dr_pc s (Some v) = AIdle)" using s'(1) pc(2,3) by auto
  have "(dr_pc s' a = ASubmitted v) = (dr_pc s a = ASubmitted v)" for a using s'(1) pc(4) [of v] by simp
  then show "own_ok ns s' v" using r i s'(2,3) by (intro own_ok_frame [OF ok]) simp_all
qed

lemma own_begin:
  assumes inv: "own_inv ns s" and v: "v \<in> dag_vertices ns" "\<not> dr_begun s v"
    and s': "dr_pc s' = (dr_pc s)(ag := ARel v)" "dr_begun s' = (dr_begun s)(v := True)" "dr_bumped s' = dr_bumped s"
    and pc: "target (dr_pc s ag) = None" "dr_pc s ag \<noteq> AIdle"
  shows "own_inv ns s'"
  unfolding own_inv_def
proof
  fix w
  have r: "rel_by s' w = (if v = w then insert ag (rel_by s w) else rel_by s w)"
    using rel_by_other [of s ag w] pc(1) by (simp add: rel_by_upd [OF s'(1)])
  have ok: "own_ok ns s w" using inv by (simp add: own_inv_def)
  show "own_ok ns s' w"
  proof (cases "w = v")
    case True
    then have i: "rel_by s v = {}" "dr_pc s (Some v) = AIdle" "\<not> dr_bumped s v" using ok v(2) by (auto simp: own_ok_def)
    then have "Some v \<noteq> ag" using pc(2) by auto
    then show ?thesis using True i r v s' by (simp add: own_ok_def)
  next
    case False
    then show ?thesis using r s' pc by (intro own_ok_frame [OF ok]) (auto simp: rel_by_def)
  qed
qed

lemma own_finish:
  assumes inv: "own_inv ns s" and v: "target (dr_pc s ag) = Some v"
    and s': "dr_pc s' = (dr_pc s)(ag := after_release ag ok)" "dr_begun s' = dr_begun s"
      "dr_bumped s' = (dr_bumped s)(v := True)"
  shows "own_inv ns s'"
  unfolding own_inv_def
proof
  fix w
  have r: "rel_by s' w = rel_by s w - {ag}" by (simp add: rel_by_upd [OF s'(1)])
  have okw: "own_ok ns s w" using inv by (simp add: own_inv_def)
  show "own_ok ns s' w"
  proof (cases "w = v")
    case True
    then show ?thesis using own_idle [OF inv v] r s' by (simp add: own_ok_def)
  next
    case False
    then have "ag \<notin> rel_by s w" using v by (simp add: rel_by_def)
    moreover have "dr_pc s ag \<noteq> AIdle" using v by auto
    ultimately show ?thesis using False r s' by (intro own_ok_frame [OF okw]) auto
  qed
qed

lemma own_submit:
  assumes inv: "own_inv ns s" and v: "dr_pc s ag = ACounted v"
    and s': "dr_pc s' = (dr_pc s)(ag := ASubmitted v, Some v := AQueued)" "dr_begun s' = dr_begun s" "dr_bumped s' = dr_bumped s"
  shows "own_inv ns s'"
  unfolding own_inv_def
proof
  fix w
  have o: "v \<in> dag_vertices ns" "dr_begun s v" "\<not> dr_bumped s v" "rel_by s v = {ag}" "dr_pc s (Some v) = AIdle"
    using own_idle [OF inv, of ag v] v by simp_all
  have ne: "ag \<noteq> Some v" using v o(5) by auto
  have "target (dr_pc s' a) = target (dr_pc s a)" for a using s'(1) v o(5) by simp
  then have r: "rel_by s' w = rel_by s w" by (simp add: rel_by_def)
  have okw: "own_ok ns s w" using inv by (simp add: own_inv_def)
  show "own_ok ns s' w"
  proof (cases "w = v")
    case True
    then show ?thesis using o r s' ne by (simp add: own_ok_def)
  next
    case False
    have i: "(dr_pc s' (Some w) = AIdle) = (dr_pc s (Some w) = AIdle)" using s'(1) False v by auto
    have "(dr_pc s' a = ASubmitted w) = (dr_pc s a = ASubmitted w)" for a using s'(1) False v o(5) by auto
    then show ?thesis using r i s'(2,3) by (intro own_ok_frame [OF okw]) simp_all
  qed
qed

lemma own_inv_step:
  assumes wf: "graph_wf ns" and inv: "count_inv ns s" "pos_inv ns s" "own_inv ns s" and st: "dstep ns s s'"
  shows "own_inv ns s'"
  using st
proof cases
  case (s_root i)
  then have "i \<in> dag_vertices ns" by (simp add: is_root_def dag_vertices_def)
  moreover from this have "\<not> dr_begun s i" using inv(1) s_root by (simp add: count_inv_def)
  ultimately show ?thesis using s_root by (intro own_begin [OF inv(3), of i _ None]) simp_all
next
  case (r_nomem ag v rc)
  then show ?thesis by (intro own_finish [OF inv(3), of ag v _ False]) simp_all
next
  case (r_init ag v)
  then show ?thesis by (intro own_quiet [OF inv(3), of _ ag "AInit v"]) simp_all
next
  case (r_count ag v)
  then show ?thesis by (intro own_quiet [OF inv(3), of _ ag "ACounted v"]) simp_all
next
  case (r_submit ag v)
  then show ?thesis by (intro own_submit [OF inv(3), of ag v]) simp_all
next
  case (r_reject ag v rc)
  then show ?thesis by (intro own_quiet [OF inv(3), of _ ag "ARejected v rc"]) simp_all
next
  case (r_undo ag v rc)
  then show ?thesis by (intro own_finish [OF inv(3), of ag v _ False]) simp_all
next
  case (r_done ag v)
  then show ?thesis by (intro own_finish [OF inv(3), of ag v _ True]) simp_all
next
  case (n_dec u v)
  note d = dec_facts [OF wf inv n_dec(2,3)]
  show ?thesis
  proof (cases "dr_pending s v = 1")
    case True
    then show ?thesis using n_dec d by (intro own_begin [OF inv(3), of v _ "Some u"]) simp_all
  next
    case False
    then show ?thesis using n_dec d by (intro own_quiet [OF inv(3), of _ "Some u" ALoop]) (simp_all add: fun_upd_idem)
  qed
next
  case (s_skip i)
  then show ?thesis by (intro own_quiet [OF inv(3), of _ None ALoop]) (simp_all add: fun_upd_idem)
next
  case s_end
  then show ?thesis by (intro own_quiet [OF inv(3), of _ None ADone]) simp_all
next
  case (n_start u)
  then show ?thesis by (intro own_quiet [OF inv(3), of _ "Some u" ARunning]) simp_all
next
  case (n_ran u rc)
  then show ?thesis by (intro own_quiet [OF inv(3), of _ "Some u" ALoop]) simp_all
next
  case (n_check u)
  then show ?thesis by (intro own_quiet [OF inv(3), of _ "Some u" ADec]) simp_all
next
  case (n_frozen u)
  then show ?thesis by (intro own_quiet [OF inv(3), of _ "Some u" ADrain]) simp_all
next
  case (n_end u)
  then show ?thesis by (intro own_quiet [OF inv(3), of _ "Some u" ADrain]) simp_all
next
  case (n_drain u)
  then show ?thesis by (intro own_quiet [OF inv(3), of _ "Some u" ADone]) simp_all
qed

subsection \<open>The counters\<close>

definition flight_inv :: "dag_node list \<Rightarrow> drun \<Rightarrow> bool" where
  "flight_inv ns s \<longleftrightarrow> dr_in_flight s = card {v \<in> dag_vertices ns. active s v}"

definition released_inv :: "dag_node list \<Rightarrow> drun \<Rightarrow> bool" where
  "released_inv ns s \<longleftrightarrow> dr_released s = card {v \<in> dag_vertices ns. dr_bumped s v}"

lemma active_quiet:
  assumes "dr_pc s' = (dr_pc s)(ag := pc)" "counting pc = counting (dr_pc s ag)"
    "pc \<noteq> AIdle" "pc \<noteq> ADone" "dr_pc s ag \<noteq> AIdle" "dr_pc s ag \<noteq> ADone"
  shows "active s' v = active s v"
proof -
  have "counting (dr_pc s' a) = counting (dr_pc s a)" for a using assms(1,2) by simp
  moreover have "(dr_pc s' (Some v) \<noteq> AIdle \<and> dr_pc s' (Some v) \<noteq> ADone) = (dr_pc s (Some v) \<noteq> AIdle \<and> dr_pc s (Some v) \<noteq> ADone)"
    using assms by simp
  ultimately show ?thesis by (simp add: active_def)
qed

text \<open>The submitting thread is not a runner.\<close>

lemma active_submitter:
  assumes "dr_pc s' = (dr_pc s)(None := pc)" "counting pc = counting (dr_pc s None)"
  shows "active s' v = active s v"
proof -
  have "counting (dr_pc s' a) = counting (dr_pc s a)" for a using assms by simp
  then show ?thesis using assms(1) by (simp add: active_def)
qed

lemma flight_frame:
  "flight_inv ns s \<Longrightarrow> dr_in_flight s' = dr_in_flight s \<Longrightarrow> (\<And>v. active s' v = active s v) \<Longrightarrow> flight_inv ns s'"
  by (simp add: flight_inv_def)

lemma flight_add:
  assumes "flight_inv ns s" "v \<in> dag_vertices ns" "\<not> active s v" "dr_in_flight s' = dr_in_flight s + 1"
    "\<And>w. active s' w = (w = v \<or> active s w)"
  shows "flight_inv ns s'"
proof -
  have "{w \<in> dag_vertices ns. active s' w} = insert v {w \<in> dag_vertices ns. active s w}" using assms(2,5) by auto
  then show ?thesis using assms(1,3,4) by (simp add: flight_inv_def)
qed

lemma flight_del:
  assumes "flight_inv ns s" "v \<in> dag_vertices ns" "active s v" "dr_in_flight s' = dr_in_flight s - 1"
    "\<And>w. active s' w = (w \<noteq> v \<and> active s w)"
  shows "flight_inv ns s'"
proof -
  have "{w \<in> dag_vertices ns. active s' w} = {w \<in> dag_vertices ns. active s w} - {v}" using assms(5) by auto
  then show ?thesis using assms(1-4) by (simp add: flight_inv_def)
qed

lemma not_counted:
  assumes "own_inv ns s" "dr_pc s (Some v) \<noteq> AIdle"
  shows "counting (dr_pc s ag) \<noteq> Some v"
proof
  assume c: "counting (dr_pc s ag) = Some v"
  then have t: "target (dr_pc s ag) = Some v" "dr_pc s ag \<noteq> ASubmitted v" by (cases "dr_pc s ag"; simp)+
  show False using own_idle(5) [OF assms(1) t(1)] t(2) assms(2) by simp
qed

lemma counted_by:
  assumes "own_inv ns s" "target (dr_pc s ag) = Some v" "counting (dr_pc s a) = Some v"
  shows "a = ag"
proof -
  have "target (dr_pc s a) = Some v" using assms(3) by (cases "dr_pc s a") simp_all
  then have "a \<in> rel_by s v" by (simp add: rel_by_def)
  then show ?thesis using own_idle(4) [OF assms(1,2)] by simp
qed

lemma counted_new:
  "counting (f ag) = None \<Longrightarrow>
   (\<exists>a. counting ((f(ag := pc)) a) = Some w) \<longleftrightarrow> counting pc = Some w \<or> (\<exists>a. counting (f a) = Some w)"
  by (metis fun_upd_apply option.distinct(1))

lemma counted_gone:
  assumes "\<And>a. counting (f a) = Some v \<longleftrightarrow> a = ag" "counting pc = None"
  shows "(\<exists>a. counting ((f(ag := pc)) a) = Some w) \<longleftrightarrow> w \<noteq> v \<and> (\<exists>a. counting (f a) = Some w)"
  using assms by (metis fun_upd_apply option.distinct(1) option.inject)

lemma flight_inv_step:
  assumes inv: "own_inv ns s" "flight_inv ns s" and st: "dstep ns s s'"
  shows "flight_inv ns s'"
  using st
proof cases
  case (s_root i)
  then show ?thesis by (intro flight_frame [OF inv(2)] active_submitter [of _ _ "ARel i"]) simp_all
next
  case (s_skip i)
  then show ?thesis by (intro flight_frame [OF inv(2)]) (simp_all add: active_def)
next
  case s_end
  then show ?thesis by (intro flight_frame [OF inv(2)] active_submitter [of _ _ ADone]) simp_all
next
  case (r_init ag v)
  then show ?thesis by (intro flight_frame [OF inv(2)] active_quiet [of _ _ ag "AInit v"]) simp_all
next
  case (r_reject ag v rc)
  then show ?thesis by (intro flight_frame [OF inv(2)] active_quiet [of _ _ ag "ARejected v rc"]) simp_all
next
  case (n_start u)
  then show ?thesis by (intro flight_frame [OF inv(2)] active_quiet [of _ _ "Some u" ARunning]) simp_all
next
  case (n_ran u rc)
  then show ?thesis by (intro flight_frame [OF inv(2)] active_quiet [of _ _ "Some u" ALoop]) simp_all
next
  case (n_check u)
  then show ?thesis by (intro flight_frame [OF inv(2)] active_quiet [of _ _ "Some u" ADec]) simp_all
next
  case (n_frozen u)
  then show ?thesis by (intro flight_frame [OF inv(2)] active_quiet [of _ _ "Some u" ADrain]) simp_all
next
  case (n_end u)
  then show ?thesis by (intro flight_frame [OF inv(2)] active_quiet [of _ _ "Some u" ADrain]) simp_all
next
  case (n_dec u v)
  then show ?thesis
    by (intro flight_frame [OF inv(2)] active_quiet [of _ _ "Some u" "if dr_pending s v = 1 then ARel v else ALoop"]) simp_all
next
  case (r_nomem ag v rc)
  show ?thesis
  proof (cases ag)
    case None
    then show ?thesis using r_nomem by (intro flight_frame [OF inv(2)] active_submitter [of _ _ ADone]) simp_all
  next
    case (Some u)
    then show ?thesis using r_nomem by (intro flight_frame [OF inv(2)] active_quiet [of _ _ "Some u" ALoop]) simp_all
  qed
next
  case (r_done ag v)
  show ?thesis
  proof (cases ag)
    case None
    then show ?thesis using r_done by (intro flight_frame [OF inv(2)] active_submitter [of _ _ ALoop]) simp_all
  next
    case (Some u)
    then show ?thesis using r_done by (intro flight_frame [OF inv(2)] active_quiet [of _ _ "Some u" ALoop]) simp_all
  qed
next
  case (r_count ag v)
  have o: "v \<in> dag_vertices ns" "dr_pc s (Some v) = AIdle" using own_idle [OF inv(1), of ag v] r_count by simp_all
  have n: "counting (dr_pc s a) \<noteq> Some v" for a using counted_by [OF inv(1), of ag v a] r_count by auto
  have "active s' w = (w = v \<or> active s w)" for w
    using r_count o n counted_new [of "dr_pc s" ag "ACounted v" w] by (auto simp: active_def)
  then show ?thesis using o n r_count by (intro flight_add [OF inv(2), of v]) (simp_all add: active_def)
next
  case (r_submit ag v)
  have o: "v \<in> dag_vertices ns" "dr_pc s (Some v) = AIdle" using own_idle [OF inv(1), of ag v] r_submit by simp_all
  have n: "counting (dr_pc s a) = Some v \<longleftrightarrow> a = ag" for a using counted_by [OF inv(1), of ag v a] r_submit by auto
  have "active s' w = active s w" for w
    using r_submit o n counted_gone [of "dr_pc s" v ag "ASubmitted v" w]
      counted_new [of "(dr_pc s)(ag := ASubmitted v)" "Some v" AQueued w] by (cases "w = v") (auto simp: active_def)
  then show ?thesis using r_submit by (intro flight_frame [OF inv(2)]) simp_all
next
  case (r_undo ag v rc)
  have o: "v \<in> dag_vertices ns" "dr_pc s (Some v) = AIdle" using own_idle [OF inv(1), of ag v] r_undo by simp_all
  have n: "counting (dr_pc s a) = Some v \<longleftrightarrow> a = ag" for a using counted_by [OF inv(1), of ag v a] r_undo by auto
  have "active s' w = (w \<noteq> v \<and> active s w)" for w
    using r_undo o n counted_gone [of "dr_pc s" v ag "after_release ag False" w] by (cases ag) (auto simp: active_def)
  then show ?thesis using o n r_undo by (intro flight_del [OF inv(2), of v]) (auto simp: active_def)
next
  case (n_drain u)
  have o: "u \<in> dag_vertices ns" using runner_vertex [OF inv(1), of u] n_drain by simp
  have n: "counting (dr_pc s a) \<noteq> Some u" for a using not_counted [OF inv(1), of u a] n_drain by simp
  have "active s' w = (w \<noteq> u \<and> active s w)" for w
    using n_drain n counted_new [of "dr_pc s" "Some u" ADone w] by (auto simp: active_def)
  then show ?thesis using o n_drain by (intro flight_del [OF inv(2), of u]) (auto simp: active_def)
qed

lemma released_add:
  assumes "released_inv ns s" "v \<in> dag_vertices ns" "\<not> dr_bumped s v" "dr_released s' = dr_released s + 1"
    "dr_bumped s' = (dr_bumped s)(v := True)"
  shows "released_inv ns s'"
proof -
  have "{w \<in> dag_vertices ns. dr_bumped s' w} = insert v {w \<in> dag_vertices ns. dr_bumped s w}" using assms(2,5) by auto
  then show ?thesis using assms(1,3,4) by (simp add: released_inv_def)
qed

lemma released_inv_step:
  assumes inv: "own_inv ns s" "released_inv ns s" and st: "dstep ns s s'"
  shows "released_inv ns s'"
  using st
proof cases
  case (r_nomem ag v rc)
  then show ?thesis using own_idle [OF inv(1), of ag v] by (intro released_add [OF inv(2), of v]) simp_all
next
  case (r_undo ag v rc)
  then show ?thesis using own_idle [OF inv(1), of ag v] by (intro released_add [OF inv(2), of v]) simp_all
next
  case (r_done ag v)
  then show ?thesis using own_idle [OF inv(1), of ag v] by (intro released_add [OF inv(2), of v]) simp_all
qed (use inv(2) in \<open>simp_all add: released_inv_def\<close>)

subsection \<open>Runs, futures and failures\<close>

definition run_inv :: "drun \<Rightarrow> bool" where
  "run_inv s \<longleftrightarrow> (\<forall>v. dr_runs s v = (if fresh_pc (dr_pc s (Some v)) then 0 else 1))"

lemma run_inv_step:
  assumes inv: "own_inv ns s" "run_inv s" and st: "dstep ns s s'"
  shows "run_inv s'"
  using st
proof cases
  case (r_submit ag v)
  have "dr_pc s (Some v) = AIdle" using own_idle [OF inv(1), of ag v] r_submit by simp
  then show ?thesis using r_submit inv(2) by (auto simp: run_inv_def)
qed (use inv(2) in \<open>auto simp: run_inv_def\<close>)

text \<open>While nothing failed, a released node got its runner and a finished loop went to the end.\<close>

definition sound_inv :: "dag_node list \<Rightarrow> drun \<Rightarrow> bool" where
  "sound_inv ns s \<longleftrightarrow> \<not> dr_failed s \<longrightarrow>
     (\<forall>v. dr_bumped s v \<longrightarrow> dr_pc s (Some v) \<noteq> AIdle) \<and>
     (\<forall>u. dr_pc s (Some u) = ADrain \<or> dr_pc s (Some u) = ADone \<longrightarrow> length (succs_of ns u) \<le> dr_pos s (Some u)) \<and>
     (dr_pc s None = ADone \<longrightarrow> length ns \<le> dr_pos s None)"

lemma sound_inv_step:
  assumes inv: "own_inv ns s" "sound_inv ns s" and st: "dstep ns s s'"
  shows "sound_inv ns s'"
  using st
proof cases
  case (r_done ag v)
  have "dr_pc s (Some v) \<noteq> AIdle" using own_idle [OF inv(1), of ag v] r_done by simp
  then show ?thesis using r_done inv(2) by (cases ag) (auto simp: sound_inv_def)
qed (use inv(2) in \<open>auto simp: sound_inv_def\<close>)

definition err_inv :: "drun \<Rightarrow> bool" where
  "err_inv s \<longleftrightarrow> (dr_failed s \<longrightarrow> dr_error s \<noteq> LOOMWORKS_OK) \<and> (\<forall>ag v rc. dr_pc s ag = ARejected v rc \<longrightarrow> rc \<noteq> LOOMWORKS_OK)"

lemma after_release_not_rejected [simp]: "after_release ag ok \<noteq> ARejected v rc"
  by (simp add: after_release_def)

lemma err_inv_step: "err_inv s \<Longrightarrow> dstep ns s s' \<Longrightarrow> err_inv s'"
  by (erule dstep.cases) (auto simp: err_inv_def split: if_splits)

text \<open>The embedded future of a node is ready before its releaser or runner lets go of it.\<close>

definition future_pending :: "drun \<Rightarrow> nat \<Rightarrow> bool" where
  "future_pending s v \<longleftrightarrow> dr_pc s (Some v) = AQueued \<or> dr_pc s (Some v) = ARunning \<or>
     (\<exists>ag. dr_pc s ag = AInit v \<or> dr_pc s ag = ACounted v)"

definition nodefut_inv :: "drun \<Rightarrow> bool" where
  "nodefut_inv s \<longleftrightarrow> (\<forall>v. (dr_ready s v \<longrightarrow> dr_owner s v) \<and>
     (\<not> fresh_pc (dr_pc s (Some v)) \<longrightarrow> dr_ready s v) \<and>
     (dr_pc s (Some v) \<noteq> AIdle \<longrightarrow> dr_owner s v) \<and>
     (\<forall>ag. dr_pc s ag = AInit v \<or> dr_pc s ag = ACounted v \<longrightarrow> dr_owner s v))"

definition wait_inv :: "drun \<Rightarrow> bool" where
  "wait_inv s \<longleftrightarrow> (\<forall>v. dr_owner s v \<longrightarrow> dr_ready s v \<or> future_pending s v)"

lemma after_release_simps2 [simp]: "after_release ag ok \<noteq> AInit v" "after_release ag ok \<noteq> ACounted v"
  by (simp_all add: after_release_def)

lemma nodefut_inv_step: "nodefut_inv s \<Longrightarrow> dstep ns s s' \<Longrightarrow> nodefut_inv s'"
  by (erule dstep.cases) (auto simp: nodefut_inv_def split: if_splits)

lemma future_pending_keep:
  assumes "future_pending s v" "\<And>a. a \<noteq> ag \<Longrightarrow> dr_pc s' a = dr_pc s a"
    "dr_pc s ag \<noteq> AInit v" "dr_pc s ag \<noteq> ACounted v" "ag = Some v \<Longrightarrow> dr_pc s ag \<noteq> AQueued \<and> dr_pc s ag \<noteq> ARunning"
  shows "future_pending s' v"
  using assms unfolding future_pending_def by metis

lemma wait_keep:
  assumes "wait_inv s" "dr_owner s' = dr_owner s" "dr_ready s' = dr_ready s" "dr_pc s' = (dr_pc s)(ag := pc)"
    "\<And>v. dr_pc s ag \<noteq> AInit v" "\<And>v. dr_pc s ag \<noteq> ACounted v" "dr_pc s ag \<noteq> AQueued" "dr_pc s ag \<noteq> ARunning"
  shows "wait_inv s'"
  unfolding wait_inv_def
proof (intro allI impI)
  fix v assume "dr_owner s' v"
  then have "dr_ready s v \<or> future_pending s v" using assms(1,2) by (simp add: wait_inv_def)
  then show "dr_ready s' v \<or> future_pending s' v"
    using future_pending_keep [of s v ag s'] assms(3-) by auto
qed

text \<open>A step on behalf of node \<open>v\<close>.\<close>

lemma wait_at:
  assumes "wait_inv s" "\<And>w. w \<noteq> v \<Longrightarrow> dr_owner s' w = dr_owner s w" "\<And>w. w \<noteq> v \<Longrightarrow> dr_ready s' w = dr_ready s w"
    "dr_pc s' = (dr_pc s)(ag := pc)" "\<And>w. w \<noteq> v \<Longrightarrow> dr_pc s ag \<noteq> AInit w" "\<And>w. w \<noteq> v \<Longrightarrow> dr_pc s ag \<noteq> ACounted w"
    "ag = Some v \<or> dr_pc s ag \<noteq> AQueued \<and> dr_pc s ag \<noteq> ARunning" "dr_ready s' v \<or> future_pending s' v"
  shows "wait_inv s'"
  unfolding wait_inv_def
proof (intro allI impI)
  fix w assume o: "dr_owner s' w"
  show "dr_ready s' w \<or> future_pending s' w"
  proof (cases "w = v")
    case False
    then have "dr_ready s w \<or> future_pending s w" using o assms(1,2) by (simp add: wait_inv_def)
    then show ?thesis using False future_pending_keep [of s w ag s'] assms(3-7) by auto
  qed (use assms(8) in simp)
qed

lemma wait_inv_step:
  assumes inv: "own_inv ns s" "wait_inv s" and st: "dstep ns s s'"
  shows "wait_inv s'"
  using st
proof cases
  case (r_init ag v)
  then show ?thesis by (intro wait_at [OF inv(2), of v s' ag "AInit v"]) (auto simp: future_pending_def)
next
  case (r_count ag v)
  then show ?thesis by (intro wait_at [OF inv(2), of v s' ag "ACounted v"]) (auto simp: future_pending_def)
next
  case (r_submit ag v)
  have i: "dr_pc s (Some v) = AIdle" using own_idle [OF inv(1), of ag v] r_submit by simp
  let ?m = "set_pc s (Some v) AQueued"
  have w: "wait_inv ?m"
    using i by (intro wait_at [OF inv(2), of v _ "Some v" AQueued]) (simp_all add: future_pending_def)
  have ne: "ag \<noteq> Some v" using r_submit(2) i by auto
  then have "dr_pc s' = (dr_pc ?m)(ag := ASubmitted v)" using r_submit(1) by (simp add: fun_upd_twist)
  then show ?thesis using r_submit ne
    by (intro wait_at [OF w, of v s' ag "ASubmitted v"]) (simp_all add: future_pending_def)
next
  case (r_reject ag v rc)
  then show ?thesis by (intro wait_at [OF inv(2), of v s' ag "ARejected v rc"]) auto
next
  case (n_start u)
  then show ?thesis by (intro wait_at [OF inv(2), of u s' "Some u" ARunning]) (auto simp: future_pending_def)
next
  case (n_ran u rc)
  then show ?thesis by (intro wait_at [OF inv(2), of u s' "Some u" ALoop]) auto
next
  case (s_root i)
  then show ?thesis by (intro wait_keep [OF inv(2), of _ None "ARel i"]) auto
next
  case (s_skip i)
  then show ?thesis by (intro wait_keep [OF inv(2), of _ None ALoop]) (auto simp: fun_upd_idem)
next
  case s_end
  then show ?thesis by (intro wait_keep [OF inv(2), of _ None ADone]) auto
next
  case (r_nomem ag v rc)
  then show ?thesis by (intro wait_keep [OF inv(2), of _ ag "after_release ag False"]) auto
next
  case (r_undo ag v rc)
  then show ?thesis by (intro wait_keep [OF inv(2), of _ ag "after_release ag False"]) auto
next
  case (r_done ag v)
  then show ?thesis by (intro wait_keep [OF inv(2), of _ ag "after_release ag True"]) auto
next
  case (n_check u)
  then show ?thesis by (intro wait_keep [OF inv(2), of _ "Some u" ADec]) auto
next
  case (n_frozen u)
  then show ?thesis by (intro wait_keep [OF inv(2), of _ "Some u" ADrain]) auto
next
  case (n_end u)
  then show ?thesis by (intro wait_keep [OF inv(2), of _ "Some u" ADrain]) auto
next
  case (n_dec u v)
  then show ?thesis
    by (intro wait_keep [OF inv(2), of _ "Some u" "if dr_pending s v = 1 then ARel v else ALoop"]) auto
next
  case (n_drain u)
  then show ?thesis by (intro wait_keep [OF inv(2), of _ "Some u" ADone]) auto
qed

subsection \<open>The joining thread and the whole invariant\<close>

definition dag_complete :: "dag_node list \<Rightarrow> drun \<Rightarrow> bool" where
  "dag_complete ns s \<longleftrightarrow> \<not> dr_failed s \<and> (\<forall>v\<in>dag_vertices ns. dr_pc s (Some v) = ADone)"

definition join_inv :: "dag_node list \<Rightarrow> drun \<Rightarrow> bool" where
  "join_inv ns s \<longleftrightarrow> (dr_join s = JBlocked \<longrightarrow> \<not> dag_drained ns s) \<and>
     (dr_join s = JReturned LOOMWORKS_OK \<longrightarrow> dag_complete ns s)"

definition dag_inv :: "dag_node list \<Rightarrow> drun \<Rightarrow> bool" where
  "dag_inv ns s \<longleftrightarrow> count_inv ns s \<and> pos_inv ns s \<and> own_inv ns s \<and> flight_inv ns s \<and> released_inv ns s \<and>
     run_inv s \<and> sound_inv ns s \<and> err_inv s \<and> nodefut_inv s \<and> wait_inv s"

lemma dag_invD:
  assumes "dag_inv ns s"
  shows "count_inv ns s" "pos_inv ns s" "own_inv ns s" "flight_inv ns s" "released_inv ns s"
    "run_inv s" "sound_inv ns s" "err_inv s" "nodefut_inv s" "wait_inv s"
  using assms by (simp_all add: dag_inv_def)

lemma dag_inv_step:
  assumes "graph_wf ns" "dag_inv ns s" "dstep ns s s'"
  shows "dag_inv ns s'"
  unfolding dag_inv_def
  using count_inv_step [OF assms(1) dag_invD(1-3) [OF assms(2)] assms(3)] pos_inv_step [OF dag_invD(2,3) [OF assms(2)] assms(3)]
    own_inv_step [OF assms(1) dag_invD(1-3) [OF assms(2)] assms(3)] flight_inv_step [OF dag_invD(3,4) [OF assms(2)] assms(3)]
    released_inv_step [OF dag_invD(3,5) [OF assms(2)] assms(3)] run_inv_step [OF dag_invD(3,6) [OF assms(2)] assms(3)]
    sound_inv_step [OF dag_invD(3,7) [OF assms(2)] assms(3)] err_inv_step [OF dag_invD(8) [OF assms(2)] assms(3)]
    nodefut_inv_step [OF dag_invD(9) [OF assms(2)] assms(3)] wait_inv_step [OF dag_invD(3,10) [OF assms(2)] assms(3)]
  by (intro conjI)

text \<open>The joiner only touches its own state.\<close>

lemma jstep_frame: "jstep ns s s' \<Longrightarrow> \<exists>j. s' = s\<lparr>dr_join := j\<rparr>"
  by (erule jstep.cases) blast+

lemma join_simps [simp]:
  "count_inv ns (s\<lparr>dr_join := j\<rparr>) = count_inv ns s" "pos_inv ns (s\<lparr>dr_join := j\<rparr>) = pos_inv ns s"
  "flight_inv ns (s\<lparr>dr_join := j\<rparr>) = flight_inv ns s" "released_inv ns (s\<lparr>dr_join := j\<rparr>) = released_inv ns s"
  "run_inv (s\<lparr>dr_join := j\<rparr>) = run_inv s" "sound_inv ns (s\<lparr>dr_join := j\<rparr>) = sound_inv ns s"
  "err_inv (s\<lparr>dr_join := j\<rparr>) = err_inv s" "nodefut_inv (s\<lparr>dr_join := j\<rparr>) = nodefut_inv s"
  "wait_inv (s\<lparr>dr_join := j\<rparr>) = wait_inv s" "own_ok ns (s\<lparr>dr_join := j\<rparr>) v = own_ok ns s v"
  "dag_drained ns (s\<lparr>dr_join := j\<rparr>) = dag_drained ns s"
  by (simp_all add: count_inv_def waiting_for_def pos_inv_def flight_inv_def active_def released_inv_def run_inv_def
      sound_inv_def err_inv_def nodefut_inv_def wait_inv_def future_pending_def own_ok_def rel_by_def dag_drained_def)

lemma dag_inv_join: "dag_inv ns (s\<lparr>dr_join := j\<rparr>) = dag_inv ns s"
  by (simp add: dag_inv_def own_inv_def)

text \<open>A drained graph without a failed release has run to the end.\<close>

lemma drained_complete:
  assumes inv: "dag_inv ns s" and d: "dag_drained ns s" "\<not> dr_failed s"
  shows "dag_complete ns s"
proof -
  have "card {v \<in> dag_vertices ns. dr_bumped s v} = card (dag_vertices ns)"
    using d dag_invD(5) [OF inv] by (simp add: dag_drained_def released_inv_def dag_added_card)
  then have "{v \<in> dag_vertices ns. dr_bumped s v} = dag_vertices ns" by (intro card_subset_eq) auto
  then have b: "dr_pc s (Some v) \<noteq> AIdle" if "v \<in> dag_vertices ns" for v
    using dag_invD(7) [OF inv] d(2) that by (auto simp: sound_inv_def)
  have "card {v \<in> dag_vertices ns. active s v} = 0" using d(1) dag_invD(4) [OF inv] by (simp add: dag_drained_def flight_inv_def)
  then have "\<not> active s v" if "v \<in> dag_vertices ns" for v using that by auto
  then show ?thesis using b d(2) by (auto simp: dag_complete_def active_def)
qed

lemma dag_complete_step:
  assumes inv: "own_inv ns s" and c: "dag_complete ns s" and st: "dstep ns s s'"
  shows "dag_complete ns s'"
proof -
  have fin: "dr_pc s (Some u) = ADone \<or> dr_pc s (Some u) = AIdle" for u
    using runner_vertex [OF inv, of u] c by (auto simp: dag_complete_def)
  have held: "dr_pc s ag = ASubmitted v \<and> ag = None" if "target (dr_pc s ag) = Some v" for ag v
  proof (cases ag)
    case None
    then show ?thesis using own_idle(1,5) [OF inv that] c by (simp add: dag_complete_def)
  next
    case (Some a)
    then show ?thesis using fin [of a] that by auto
  qed
  from st show ?thesis
  proof cases
    case (r_nomem ag v rc)
    then show ?thesis using held [of ag v] by simp
  next
    case (r_init ag v)
    then show ?thesis using held [of ag v] by simp
  next
    case (r_count ag v)
    then show ?thesis using held [of ag v] by simp
  next
    case (r_submit ag v)
    then show ?thesis using held [of ag v] by simp
  next
    case (r_reject ag v rc)
    then show ?thesis using held [of ag v] by simp
  next
    case (r_undo ag v rc)
    then show ?thesis using held [of ag v] by simp
  next
    case (r_done ag v)
    then show ?thesis using held [of ag v] c by (simp add: dag_complete_def)
  next
    case (n_start u)
    then show ?thesis using fin [of u] by simp
  next
    case (n_ran u rc)
    then show ?thesis using fin [of u] by simp
  next
    case (n_check u)
    then show ?thesis using fin [of u] by simp
  next
    case (n_frozen u)
    then show ?thesis using fin [of u] by simp
  next
    case (n_end u)
    then show ?thesis using fin [of u] by simp
  next
    case (n_dec u v)
    then show ?thesis using fin [of u] by simp
  next
    case (n_drain u)
    then show ?thesis using fin [of u] by simp
  qed (use c in \<open>simp_all add: dag_complete_def\<close>)
qed

text \<open>No step makes the graph drained without waking a blocked joiner.\<close>

lemma signal_join: "dr_join (signal_done ns s) = JBlocked \<Longrightarrow> \<not> dag_drained ns (signal_done ns s)"
  by (auto simp: signal_done_def dag_drained_def split: if_splits)

lemma signal_join_returned: "dr_join (signal_done ns s) = JReturned r \<longleftrightarrow> dr_join s = JReturned r"
  by (simp add: signal_done_def)

lemma dag_drained_pc [simp]: "dag_drained ns (set_pc s ag pc) = dag_drained ns s"
  by (simp add: dag_drained_def)

lemma dstep_returned: "dstep ns s s' \<Longrightarrow> dr_join s' = JReturned r \<longleftrightarrow> dr_join s = JReturned r"
  by (erule dstep.cases) (auto simp: dag_record_release_failure_def Let_def signal_join_returned)

lemma dstep_blocked:
  assumes "dr_join s = JBlocked \<longrightarrow> \<not> dag_drained ns s" "dstep ns s s'" "dr_join s' = JBlocked"
  shows "\<not> dag_drained ns s'"
  using assms(2,1,3)
  by (cases) (auto simp: dag_record_release_failure_def Let_def dest!: signal_join, (simp add: dag_drained_def)+)

subsection \<open>Reachable states\<close>

text \<open>
  A graph as \<open>loom_dag_submit\<close> hands it to the release phase: built by \<open>loom_dag_add_node\<close> and
  \<open>loom_dag_add_edge\<close> and accepted by the checks.
\<close>

definition dag_submitted :: "dag_node list \<Rightarrow> bool" where
  "dag_submitted ns \<longleftrightarrow> (\<exists>cap ops d'. cap \<noteq> 0 \<and>
     dag_submit_prepare True (snd (run_build (dag_new cap) ops)) = (None, d') \<and> dg_nodes d' = Some ns)"

lemma graph_wf_pending:
  assumes "graph_wf ns" and "ms = map (\<lambda>n. if dn_fn n \<noteq> 0 then n\<lparr>dn_pending_preds := dn_in_degree n\<rparr> else n) ns"
  shows "graph_wf ms \<and> dag_edges ms = dag_edges ns \<and> (\<forall>v\<in>dag_vertices ms. dn_pending_preds (ms ! v) = dn_in_degree (ms ! v))"
proof -
  have n: "length ms = length ns" "\<And>i. i < length ns \<Longrightarrow> dn_succs (ms ! i) = dn_succs (ns ! i) \<and> dn_fn (ms ! i) = dn_fn (ns ! i) \<and>
      dn_node_id (ms ! i) = dn_node_id (ns ! i) \<and> dn_in_degree (ms ! i) = dn_in_degree (ns ! i)"
    using assms(2) by simp_all
  then have e: "dag_edge ms u v = dag_edge ns u v" and V: "dag_vertices ms = dag_vertices ns" for u v
    by (auto simp: dag_edge_def dag_vertices_def)
  have "graph_wf ms" using assms(1) n e V by (simp add: graph_wf_def node_wf_def)
  moreover have "\<forall>v\<in>dag_vertices ms. dn_pending_preds (ms ! v) = dn_in_degree (ms ! v)"
    unfolding V using assms(2) by (simp add: dag_vertices_def)
  ultimately show ?thesis using e by (simp add: dag_edges_def)
qed

lemma submitted_wf:
  assumes "dag_submitted ns"
  shows "graph_wf ns" "acyclic (dag_edges ns)" "v \<in> dag_vertices ns \<Longrightarrow> dn_pending_preds (ns ! v) = dn_in_degree (ns ! v)"
proof -
  obtain cap ops d' where p: "cap \<noteq> 0" "dag_submit_prepare True (snd (run_build (dag_new cap) ops)) = (None, d')" "dg_nodes d' = Some ns"
    using assms by (auto simp: dag_submitted_def)
  obtain rs V E where g: "run_graph cap ([], []) ops = (rs, V, E)" by (metis prod_cases3)
  then obtain d where d: "run_build (dag_new cap) ops = (rs, d)" "dag_represents cap d V E"
    using run_build_sim [OF dag_new_represents [OF p(1)]] by blast
  define ms where "ms = (case dg_nodes d of None \<Rightarrow> [] | Some ns \<Rightarrow> ns)"
  have wf: "graph_wf ms" using d(2) by (auto simp: ms_def dag_represents_def dag_wf_def graph_wf_def split: option.splits)
  have ns: "\<not> dag_has_cycle ms" "ns = map (\<lambda>n. if dn_fn n \<noteq> 0 then n\<lparr>dn_pending_preds := dn_in_degree n\<rparr> else n) ms"
    using p(2,3) d(1) by (auto simp: dag_submit_prepare_def Let_def ms_def split: if_splits)
  note gp = graph_wf_pending [OF wf ns(2)]
  show "graph_wf ns" "acyclic (dag_edges ns)" using gp dag_has_cycle_iff [OF wf] ns(1) by simp_all
  show "v \<in> dag_vertices ns \<Longrightarrow> dn_pending_preds (ns ! v) = dn_in_degree (ns ! v)" using gp by blast
qed

lemma dag_inv_init:
  assumes "dag_submitted ns"
  shows "dag_inv ns (drun_init ns)"
proof -
  note wf = submitted_wf(1,3) [OF assms]
  have "count_inv ns (drun_init ns)"
    using wf by (auto simp: count_inv_def drun_init_def waiting_for_def graph_wf_def node_wf_def dag_vertices_def is_root_def)
  moreover have "own_inv ns (drun_init ns)" by (simp add: own_inv_def own_ok_def rel_by_def drun_init_def)
  moreover have "pos_inv ns (drun_init ns)"
    unfolding pos_inv_def
  proof
    fix ag show "agent_ok ns ag (dr_pc (drun_init ns) ag) (dr_pos (drun_init ns) ag)" by (cases ag) (simp_all add: drun_init_def)
  qed
  moreover have "flight_inv ns (drun_init ns)" "released_inv ns (drun_init ns)" "run_inv (drun_init ns)" "sound_inv ns (drun_init ns)"
    "err_inv (drun_init ns)" "nodefut_inv (drun_init ns)" "wait_inv (drun_init ns)"
    by (simp_all add: flight_inv_def released_inv_def active_def run_inv_def sound_inv_def err_inv_def nodefut_inv_def wait_inv_def drun_init_def)
  ultimately show ?thesis by (simp add: dag_inv_def)
qed

lemma dreach_inv:
  assumes "dag_submitted ns" "dreach ns s"
  shows "dag_inv ns s \<and> join_inv ns s"
  using assms(2)
proof induction
  case dreach_init
  show ?case using dag_inv_init [OF assms(1)] by (simp add: join_inv_def drun_init_def)
next
  case (dreach_step s s')
  have "join_inv ns s'"
    using dreach_step dstep_blocked [of s ns s'] dstep_returned [of ns s s'] dag_complete_step [of ns s s'] dag_invD(3) [of ns s]
    by (simp add: join_inv_def)
  then show ?case using dag_inv_step [OF submitted_wf(1) [OF assms(1)]] dreach_step by blast
next
  case (dreach_join s s')
  then obtain j where s': "s' = s\<lparr>dr_join := j\<rparr>" using jstep_frame by blast
  have e: "dr_failed s \<Longrightarrow> dr_error s \<noteq> LOOMWORKS_OK" using dag_invD(8) [of ns s] dreach_join(3) by (simp add: err_inv_def)
  have c: "dag_drained ns s \<Longrightarrow> \<not> dr_failed s \<Longrightarrow> dag_complete ns s" using drained_complete dreach_join(3) by blast
  from dreach_join(2) have "join_inv ns s'"
    by cases (use e c dreach_join(3) in \<open>auto simp: join_inv_def dag_complete_def split: if_splits\<close>)
  then show ?case using dreach_join(3) s' by (simp add: dag_inv_join)
qed

lemmas reach_inv = dag_invD [OF conjunct1 [OF dreach_inv]]

subsection \<open>The steps as a function\<close>

text \<open>
  The next step of an agent: \<open>rc\<close> is what the environment answers in it, the result of the
  allocations at the start of a release, of the submission to the pool, or of the node's function.
\<close>

definition root_step :: "dag_node list \<Rightarrow> drun \<Rightarrow> drun" where
  "root_step ns s =
     (let i = dr_pos s None in
      if i < length ns then
        if is_root ns i then
          s\<lparr>dr_pc := (dr_pc s)(None := ARel i), dr_pos := (dr_pos s)(None := i + 1),
            dr_begun := (dr_begun s)(i := True)\<rparr>
        else s\<lparr>dr_pos := (dr_pos s)(None := i + 1)\<rparr>
      else set_pc s None ADone)"

definition release_step :: "dag_node list \<Rightarrow> loom_result \<Rightarrow> nat option \<Rightarrow> drun \<Rightarrow> drun option" where
  "release_step ns rc ag s =
     (case dr_pc s ag of
        ARel v \<Rightarrow>
          Some (if rc \<noteq> LOOMWORKS_OK then set_pc (dag_record_release_failure ns rc v s) ag (after_release ag False)
                else s\<lparr>dr_owner := (dr_owner s)(v := True), dr_pc := (dr_pc s)(ag := AInit v)\<rparr>)
      | AInit v \<Rightarrow> Some (s\<lparr>dr_in_flight := dr_in_flight s + 1, dr_pc := (dr_pc s)(ag := ACounted v)\<rparr>)
      | ACounted v \<Rightarrow>
          Some (if rc = LOOMWORKS_OK then s\<lparr>dr_pc := (dr_pc s)(ag := ASubmitted v, Some v := AQueued)\<rparr>
                else s\<lparr>dr_status := (dr_status s)(v := rc), dr_ready := (dr_ready s)(v := True),
                       dr_pc := (dr_pc s)(ag := ARejected v rc)\<rparr>)
      | ARejected v e \<Rightarrow>
          Some (set_pc (dag_record_release_failure ns e v (s\<lparr>dr_in_flight := dr_in_flight s - 1\<rparr>)) ag (after_release ag False))
      | ASubmitted v \<Rightarrow>
          Some (set_pc (signal_done ns (s\<lparr>dr_released := dr_released s + 1, dr_bumped := (dr_bumped s)(v := True)\<rparr>))
                  ag (after_release ag True))
      | _ \<Rightarrow> None)"

definition runner_step :: "dag_node list \<Rightarrow> loom_result \<Rightarrow> nat \<Rightarrow> drun \<Rightarrow> drun option" where
  "runner_step ns rc u s =
     (case dr_pc s (Some u) of
        AQueued \<Rightarrow> Some (set_pc s (Some u) ARunning)
      | ARunning \<Rightarrow>
          Some (s\<lparr>dr_pc := (dr_pc s)(Some u := ALoop), dr_runs := (dr_runs s)(u := dr_runs s u + 1),
                  dr_status := (dr_status s)(u := rc), dr_ready := (dr_ready s)(u := True)\<rparr>)
      | ALoop \<Rightarrow>
          Some (set_pc s (Some u)
            (if dr_pos s (Some u) < length (succs_of ns u) \<and> \<not> dr_failed s then ADec else ADrain))
      | ADec \<Rightarrow>
          (let v = succs_of ns u ! dr_pos s (Some u) in
           Some (s\<lparr>dr_pending := (dr_pending s)(v := dr_pending s v - 1),
                   dr_pos := (dr_pos s)(Some u := dr_pos s (Some u) + 1),
                   dr_pc := (dr_pc s)(Some u := (if dr_pending s v = 1 then ARel v else ALoop)),
                   dr_begun := (dr_begun s)(v := dr_begun s v \<or> dr_pending s v = 1)\<rparr>))
      | ADrain \<Rightarrow> Some (set_pc (signal_done ns (s\<lparr>dr_in_flight := dr_in_flight s - 1\<rparr>)) (Some u) ADone)
      | _ \<Rightarrow> release_step ns rc (Some u) s)"

definition dag_step :: "dag_node list \<Rightarrow> loom_result \<Rightarrow> nat option \<Rightarrow> drun \<Rightarrow> drun option" where
  "dag_step ns rc ag s =
     (case ag of
        None \<Rightarrow> if dr_pc s None = ALoop then Some (root_step ns s) else release_step ns rc None s
      | Some u \<Rightarrow> runner_step ns rc u s)"

lemmas dag_step_defs = dag_step_def root_step_def release_step_def runner_step_def

lemma dag_step_release: "target (dr_pc s ag) = Some v \<Longrightarrow> dag_step ns rc ag s = release_step ns rc ag s"
  by (cases "dr_pc s ag"; cases ag; simp add: dag_step_def runner_step_def)

lemma dag_step_halted: "dr_pc s ag = AIdle \<or> dr_pc s ag = ADone \<Longrightarrow> dag_step ns rc ag s = None"
  by (cases ag) (auto simp: dag_step_defs)

lemma dag_step_sound:
  assumes "dag_step ns rc ag s = Some s'"
  shows "dstep ns s s'"
proof (cases "dr_pc s ag")
  case ALoop
  show ?thesis
  proof (cases ag)
    case None
    then show ?thesis
      using assms ALoop s_root [of s "dr_pos s None" ns] s_skip [of s "dr_pos s None" ns] s_end [of s ns]
      by (auto simp: dag_step_defs Let_def simp del: set_pc_simps split: if_splits)
  next
    case (Some u)
    then show ?thesis using assms ALoop n_check [of s u ns] n_frozen [of s u ns] n_end [of s u ns]
      by (cases "dr_pos s (Some u) < length (succs_of ns u)") (auto simp: dag_step_defs split: if_splits)
  qed
next
  case (ARel v)
  then show ?thesis using assms r_nomem [OF ARel, of rc ns] r_init [OF ARel, of ns]
    by (auto simp: dag_step_release release_step_def split: if_splits)
next
  case (AInit v)
  then show ?thesis using assms r_count [OF AInit, of ns] by (simp add: dag_step_release release_step_def)
next
  case (ACounted v)
  then show ?thesis using assms r_submit [OF ACounted, of ns] r_reject [OF ACounted, of rc ns]
    by (auto simp: dag_step_release release_step_def split: if_splits)
next
  case (ARejected v e)
  then show ?thesis using assms r_undo [OF ARejected, of ns] by (simp add: dag_step_release release_step_def)
next
  case (ASubmitted v)
  then show ?thesis using assms r_done [OF ASubmitted, of ns] by (simp add: dag_step_release release_step_def)
next
  case AQueued
  then show ?thesis using assms n_start [of s _ ns] by (cases ag) (auto simp: dag_step_defs)
next
  case ARunning
  then show ?thesis using assms n_ran [of s _ ns rc] by (cases ag) (auto simp: dag_step_defs)
next
  case ADec
  then show ?thesis using assms n_dec [of s _ _ ns, OF _ refl] by (cases ag) (auto simp: dag_step_defs Let_def)
next
  case ADrain
  then show ?thesis using assms n_drain [of s _ ns] by (cases ag) (auto simp: dag_step_defs)
qed (use assms dag_step_halted [of s ag ns rc] in simp_all)

lemma dag_step_complete:
  assumes "dstep ns s s'"
  shows "\<exists>rc ag. dag_step ns rc ag s = Some s'"
  using assms
proof cases
  case (s_root i)
  then show ?thesis by (intro exI [of _ LOOMWORKS_OK] exI [of _ "None"]) (simp add: dag_step_defs Let_def)
next
  case (s_skip i)
  then show ?thesis by (intro exI [of _ LOOMWORKS_OK] exI [of _ "None"]) (simp add: dag_step_defs Let_def)
next
  case s_end
  then show ?thesis by (intro exI [of _ LOOMWORKS_OK] exI [of _ "None"]) (simp add: dag_step_defs Let_def)
next
  case (r_nomem ag v rc)
  then show ?thesis by (intro exI [of _ rc] exI [of _ "ag"]) (simp add: dag_step_release release_step_def)
next
  case (r_init ag v)
  then show ?thesis by (intro exI [of _ LOOMWORKS_OK] exI [of _ "ag"]) (simp add: dag_step_release release_step_def)
next
  case (r_count ag v)
  then show ?thesis by (intro exI [of _ LOOMWORKS_OK] exI [of _ "ag"]) (simp add: dag_step_release release_step_def)
next
  case (r_submit ag v)
  then show ?thesis by (intro exI [of _ LOOMWORKS_OK] exI [of _ "ag"]) (simp add: dag_step_release release_step_def)
next
  case (r_reject ag v rc)
  then show ?thesis by (intro exI [of _ rc] exI [of _ "ag"]) (simp add: dag_step_release release_step_def)
next
  case (r_undo ag v rc)
  then show ?thesis by (intro exI [of _ LOOMWORKS_OK] exI [of _ "ag"]) (simp add: dag_step_release release_step_def)
next
  case (r_done ag v)
  then show ?thesis by (intro exI [of _ LOOMWORKS_OK] exI [of _ "ag"]) (simp add: dag_step_release release_step_def)
next
  case (n_start u)
  then show ?thesis by (intro exI [of _ LOOMWORKS_OK] exI [of _ "Some u"]) (simp add: dag_step_defs Let_def)
next
  case (n_ran u rc)
  then show ?thesis by (intro exI [of _ rc] exI [of _ "Some u"]) (simp add: dag_step_defs Let_def)
next
  case (n_check u)
  then show ?thesis by (intro exI [of _ LOOMWORKS_OK] exI [of _ "Some u"]) (simp add: dag_step_defs Let_def)
next
  case (n_frozen u)
  then show ?thesis by (intro exI [of _ LOOMWORKS_OK] exI [of _ "Some u"]) (simp add: dag_step_defs Let_def)
next
  case (n_end u)
  then show ?thesis by (intro exI [of _ LOOMWORKS_OK] exI [of _ "Some u"]) (simp add: dag_step_defs Let_def)
next
  case (n_dec u v)
  then show ?thesis by (intro exI [of _ LOOMWORKS_OK] exI [of _ "Some u"]) (simp add: dag_step_defs Let_def)
next
  case (n_drain u)
  then show ?thesis by (intro exI [of _ LOOMWORKS_OK] exI [of _ "Some u"]) (simp add: dag_step_defs Let_def)
qed

subsection \<open>What the release phase guarantees\<close>


text \<open>The sample graph \<open>0 \<rightarrow> 1\<close>, and a run of it up to the start of node \<open>1\<close>.\<close>

definition demo_dag :: "dag_node list" where
  "demo_dag = the (dg_nodes (snd (dag_submit_prepare True (snd (run_build (dag_new 2)
     [AddNode 0 9 0 5, AddNode 1 9 0 5, AddEdge 0 1])))))"

fun dag_exec :: "dag_node list \<Rightarrow> (loom_result \<times> nat option) list \<Rightarrow> drun \<Rightarrow> drun" where
  "dag_exec ns [] s = s"
| "dag_exec ns ((rc, ag) # sched) s = (case dag_step ns rc ag s of None \<Rightarrow> s | Some s' \<Rightarrow> dag_exec ns sched s')"

lemma dag_exec_reach: "dreach ns s \<Longrightarrow> dreach ns (dag_exec ns sched s)"
proof (induction ns sched s rule: dag_exec.induct)
  case (2 ns rc ag sched s)
  then show ?case using dreach_step [OF 2(2) dag_step_sound, of rc ag] by (auto split: option.splits)
qed simp


lemma demo_submitted: "dag_submitted demo_dag"
proof -
  let ?d = "dag_submit_prepare True (snd (run_build (dag_new 2) [AddNode 0 9 0 5, AddNode 1 9 0 5, AddEdge 0 1]))"
  have "fst ?d = None \<and> dg_nodes (snd ?d) \<noteq> None" by code_simp
  then have "?d = (None, snd ?d) \<and> dg_nodes (snd ?d) = Some demo_dag"
    by (metis demo_dag_def option.collapse prod.collapse)
  then show ?thesis unfolding dag_submitted_def by (metis zero_neq_numeral)
qed


text \<open>
  C19.  When \<open>loom_dag_wait\<close> has returned \<open>LOOMWORKS_OK\<close>, every node's function has run exactly
  once, its future is ready and its runner has finished.
\<close>

theorem dag_wait_ok:
  assumes "dag_submitted ns" "dreach ns s" and "dr_join s = JReturned LOOMWORKS_OK" and v: "v \<in> dag_vertices ns"
  shows "dr_runs s v = 1 \<and> dr_ready s v \<and> dr_pc s (Some v) = ADone"
proof -
  have "dag_complete ns s" using dreach_inv [OF assms(1,2)] assms(3) by (simp add: join_inv_def)
  then have "dr_pc s (Some v) = ADone" using v by (simp add: dag_complete_def)
  then show ?thesis using reach_inv(6,9) [OF assms(1,2)] by (simp add: run_inv_def nodefut_inv_def)
qed

definition demo_end :: drun where
  "demo_end = dag_exec demo_dag (replicate 7 (LOOMWORKS_OK, None) @ replicate 10 (LOOMWORKS_OK, Some 0) @ replicate 4 (LOOMWORKS_OK, Some 1))
     (drun_init demo_dag)"

theorem dag_wait_ok_witness:
  "1 \<in> dag_vertices demo_dag \<and> (\<exists>s. dreach demo_dag s \<and> dr_join s = JReturned LOOMWORKS_OK \<and> dr_runs s 1 = 1 \<and> dr_ready s 1)"
proof -
  have d: "dr_join demo_end = JIdle \<and> dag_drained demo_dag demo_end \<and> \<not> dr_failed demo_end" by code_simp
  have "1 < length demo_dag \<and> dn_fn (demo_dag ! 1) \<noteq> 0" by code_simp
  then have v: "1 \<in> dag_vertices demo_dag" by (simp add: dag_vertices_def)
  have r: "dreach demo_dag demo_end" unfolding demo_end_def by (rule dag_exec_reach [OF dreach_init])
  have j: "jstep demo_dag demo_end (demo_end\<lparr>dr_join := JReturned LOOMWORKS_OK\<rparr>)"
    using d j_return [of demo_end demo_dag] by simp
  from dag_wait_ok [OF demo_submitted dreach_join [OF r j] _ v] show ?thesis using v dreach_join [OF r j] by auto
qed

subsection \<open>The release phase ends\<close>

definition pc_weight :: "apc \<Rightarrow> nat" where
  "pc_weight pc = (case pc of AIdle \<Rightarrow> 10 | AQueued \<Rightarrow> 9 | ARunning \<Rightarrow> 8 | ARel v \<Rightarrow> 7 | AInit v \<Rightarrow> 6 | ACounted v \<Rightarrow> 5 |
     ASubmitted v \<Rightarrow> 4 | ARejected v rc \<Rightarrow> 4 | ALoop \<Rightarrow> 3 | ADec \<Rightarrow> 2 | ADrain \<Rightarrow> 1 | ADone \<Rightarrow> 0)"

lemma pc_weight_simps [simp]:
  "pc_weight AIdle = 10" "pc_weight AQueued = 9" "pc_weight ARunning = 8" "pc_weight (ARel v) = 7" "pc_weight (AInit v) = 6"
  "pc_weight (ACounted v) = 5" "pc_weight (ASubmitted v) = 4" "pc_weight (ARejected v rc) = 4" "pc_weight ALoop = 3"
  "pc_weight ADec = 2" "pc_weight ADrain = 1" "pc_weight ADone = 0"
  by (simp_all add: pc_weight_def)











lemma halted: "(\<And>ag. dr_pc s ag = AIdle \<or> dr_pc s ag = ADone) \<Longrightarrow> \<not> dstep ns s s'"
  using dag_step_complete [of ns s s'] dag_step_halted [of s _ ns] by fastforce



lemma demo_halted: "dreach demo_dag demo_end" "\<not> dstep demo_dag demo_end s'"
proof -
  have pc: "dr_pc demo_end None = ADone \<and> dr_pc demo_end (Some 0) = ADone \<and> dr_pc demo_end (Some 1) = ADone" by code_simp
  show r: "dreach demo_dag demo_end" unfolding demo_end_def by (rule dag_exec_reach [OF dreach_init])
  have "length demo_dag = 2" by code_simp
  then have "dr_pc demo_end ag = AIdle \<or> dr_pc demo_end ag = ADone" for ag
    using pc runner_vertex [OF reach_inv(3) [OF demo_submitted r]]
    by (cases ag) (auto simp: dag_vertices_def less_2_cases_iff)
  then show "\<not> dstep demo_dag demo_end s'" by (rule halted)
qed


subsection \<open>Results and destruction\<close>

definition loom_dag_node_future :: "drun \<Rightarrow> nat option \<Rightarrow> nat option" where
  "loom_dag_node_future s node =
     (case node of None \<Rightarrow> None | Some v \<Rightarrow> if \<not> dr_owner s v then None else Some v)"

definition loom_dag_node_status :: "drun \<Rightarrow> nat option \<Rightarrow> loom_result" where
  "loom_dag_node_status s node =
     (case node of None \<Rightarrow> LOOMWORKS_ERR_INVALID
      | Some v \<Rightarrow>
          if \<not> dr_owner s v then LOOMWORKS_ERR_INVALID
          else if dr_ready s v then dr_status s v else LOOMWORKS_ERR_INVALID)"

text \<open>
  \<open>loom_dag_wait\<close> on a graph that was never submitted, and the futures \<open>loom_dag_destroy\<close> destroys
  once its join has returned.
\<close>

definition dag_wait_entry :: "dag option \<Rightarrow> loom_result option" where
  "dag_wait_entry d =
     (case d of None \<Rightarrow> Some LOOMWORKS_ERR_INVALID
      | Some d \<Rightarrow> if \<not> dg_submitted d then Some LOOMWORKS_ERR_INVALID else None)"

definition dag_destroy_futures :: "dag_node list \<Rightarrow> drun \<Rightarrow> nat list" where
  "dag_destroy_futures ns s = filter (\<lambda>i. dn_fn (ns ! i) \<noteq> 0 \<and> dr_owner s i) [0..<length ns]"

text \<open>
  C21.  Once \<open>loom_dag_submit\<close> has returned, a drained graph is at rest: no releaser or runner
  will touch it any more, and every future that \<open>loom_dag_destroy\<close> destroys has been completed, so its
  status can be read.
\<close>

theorem dag_destroy_at_rest:
  assumes "dag_submitted ns" "dreach ns s" "dag_drained ns s" "dr_pc s None = ADone"
  shows "\<not> dstep ns s s' \<and>
         (\<forall>v \<in> set (dag_destroy_futures ns s). dr_ready s v \<and> loom_dag_node_status s (Some v) = dr_status s v)"
proof -
  note inv = reach_inv [OF assms(1,2)]
  have "card {v \<in> dag_vertices ns. active s v} = 0" using assms(3) inv(4) by (simp add: dag_drained_def flight_inv_def)
  then have "\<not> active s v" if "v \<in> dag_vertices ns" for v using that by auto
  then have pc: "dr_pc s ag = AIdle \<or> dr_pc s ag = ADone" for ag
    using runner_vertex [OF inv(3)] assms(4) by (cases ag) (auto simp: active_def)
  then have "\<not> future_pending s v" for v unfolding future_pending_def by (metis apc.distinct)
  then have "dr_owner s v \<Longrightarrow> dr_ready s v" for v using inv(10) by (auto simp: wait_inv_def)
  then show ?thesis using halted [OF pc] by (simp add: dag_destroy_futures_def loom_dag_node_status_def)
qed

theorem dag_destroy_at_rest_witness:
  "dag_destroy_futures demo_dag demo_end = [0, 1] \<and> loom_dag_node_status demo_end (Some 0) = LOOMWORKS_OK \<and>
   loom_dag_node_status demo_end (Some 1) = LOOMWORKS_OK"
proof -
  have "dag_drained demo_dag demo_end \<and> dr_pc demo_end None = ADone" by code_simp
  moreover have d: "dag_destroy_futures demo_dag demo_end = [0, 1]" by code_simp
  moreover have "dr_status demo_end 0 = LOOMWORKS_OK \<and> dr_status demo_end 1 = LOOMWORKS_OK" by code_simp
  ultimately show ?thesis using dag_destroy_at_rest [OF demo_submitted demo_halted(1), of undefined] by simp
qed

subsection \<open>A failed release while the roots are being released\<close>

definition early_dag :: "dag_node list" where
  "early_dag = the (dg_nodes (snd (dag_submit_prepare True (snd (run_build (dag_new 3)
     [AddNode 0 9 0 5, AddNode 1 9 0 5, AddNode 2 9 0 5, AddEdge 0 2])))))"

definition early_drain :: drun where
  "early_drain = dag_exec early_dag (replicate 6 (LOOMWORKS_OK, None) @ replicate 4 (LOOMWORKS_OK, Some 0) @
     [(LOOMWORKS_ERR_ALLOC, Some 0)] @ replicate 2 (LOOMWORKS_OK, Some 0)) (drun_init early_dag)"

lemma early_submitted: "dag_submitted early_dag"
proof -
  let ?d = "dag_submit_prepare True (snd (run_build (dag_new 3) [AddNode 0 9 0 5, AddNode 1 9 0 5, AddNode 2 9 0 5, AddEdge 0 2]))"
  have "fst ?d = None \<and> dg_nodes (snd ?d) \<noteq> None" by code_simp
  then have "?d = (None, snd ?d) \<and> dg_nodes (snd ?d) = Some early_dag"
    by (metis early_dag_def option.collapse prod.collapse)
  then show ?thesis unfolding dag_submitted_def by (metis zero_neq_numeral)
qed

text \<open>
  C22.  While \<open>loom_dag_submit\<close> still releases roots, a failed release of a successor can
  let another thread's \<open>loom_dag_wait\<close> return although a further root is started afterwards: the root
  loop does not look at \<open>failed\<close>.
\<close>

theorem dag_early_drain:
  "\<exists>ns s s'. dag_submitted ns \<and> dreach ns s \<and> dr_join s = JReturned LOOMWORKS_ERR_ALLOC \<and> dag_drained ns s \<and>
     dreach ns s' \<and> dr_join s' = JReturned LOOMWORKS_ERR_ALLOC \<and> dr_in_flight s' = 1 \<and> dr_pc s' (Some 1) = AQueued"
proof -
  let ?s = "early_drain\<lparr>dr_join := JReturned LOOMWORKS_ERR_ALLOC\<rparr>"
  let ?s' = "dag_exec early_dag (replicate 3 (LOOMWORKS_OK, None)) ?s"
  have r: "dreach early_dag early_drain" unfolding early_drain_def by (rule dag_exec_reach [OF dreach_init])
  have d: "dr_join early_drain = JIdle \<and> dag_drained early_dag early_drain \<and> dr_failed early_drain \<and>
    dr_error early_drain = LOOMWORKS_ERR_ALLOC" by code_simp
  have "jstep early_dag early_drain ?s" using d j_return [of early_drain early_dag] by simp
  then have s: "dreach early_dag ?s" by (rule dreach_join [OF r])
  have "dr_join ?s' = JReturned LOOMWORKS_ERR_ALLOC \<and> dr_in_flight ?s' = 1 \<and> dr_pc ?s' (Some 1) = AQueued" by code_simp
  then show ?thesis using early_submitted s d dag_exec_reach [OF s] by (intro exI [of _ early_dag] exI [of _ ?s] exI [of _ ?s']) simp
qed

end
