(* ===== verification/Pool_State.thy ===== *)
theory Pool_State
  imports Lane_Queue Vyukov_Ring Work_Deque Timer_Thread Future Complex_Main
begin

text \<open>
  The thread pool of \<^verbatim>\<open>src/src/thread_pool.c\<close> as one state: the priority lanes, the submission
  ring, the cancel index, the work-stealing deques, the coroutine and timer side, the futures, and
  the funnel through which every task enters.  Each function that runs under \<open>pool->lock\<close> is one
  step.  Effects that leave the pool (metric events, backpressure callbacks, signals of
  \<open>space_cond\<close>, calls of \<open>free\<close> and nodes taken from and handed back to the allocator) are appended to a log.  What
  \<open>task_create\<close> gets from the allocator is an argument.
\<close>

datatype loom_metric_event =
    METRIC_SUBMITTED | METRIC_STARTED | METRIC_COMPLETED | METRIC_CANCELLED | METRIC_FAILED

datatype loom_backpressure_event = BACKPRESSURE_QUEUE_HIGH | BACKPRESSURE_QUEUE_BLOCKED

datatype pool_event =
    EvMetric loom_metric_event
  | EvBackpressure loom_backpressure_event
  | EvSpace
  | EvFree u64
  | EvCreateNode addr
  | EvDestroyNode addr

text \<open>What a worker publishes while it runs a task: nothing, a plain task, or the context of a future task.\<close>

datatype reclaim = RNone | RPlain | RCtx u64

record pool =
  pl_worker_count :: nat
  pl_queue_capacity :: u32
  pl_shutdown :: bool
  pl_draining :: bool
  pl_joined :: bool
  pl_lanes :: lanes
  pl_queue_len :: u32
  pl_ring :: "ring option"
  pl_index :: cancel_index
  pl_active_workers :: u32
  pl_deques :: "work_deque list option"
  pl_deque_total :: u64
  pl_side :: timer_side
  pl_clean_exit :: "bool list"
  pl_reclaim :: "reclaim list"
  pl_bp_queue_warn_ratio :: rat
  pl_bp_queue_timeout_ns :: int
  pl_bp_callback :: u64
  pl_bp_last_fire_ns :: int
  pl_next_task_id :: u64
  pl_store :: store
  pl_ctx_future :: "u64 \<Rightarrow> addr"
  pl_future :: "addr \<Rightarrow> loom_future"
  pl_log :: "pool_event list"

definition LOOMWORKS_PRIORITY_NORMAL :: u8 where
  "LOOMWORKS_PRIORITY_NORMAL = 5"

definition emit :: "pool_event \<Rightarrow> pool \<Rightarrow> pool" where
  "emit e p = p\<lparr>pl_log := pl_log p @ [e]\<rparr>"

text \<open>A call of \<open>metrics_fire\<close>, and \<open>sem_post(&pool->work_sem)\<close>.\<close>

definition fire :: "loom_metric_event \<Rightarrow> pool \<Rightarrow> pool" where
  "fire e p = emit (EvMetric e) p"

definition post_work :: "pool \<Rightarrow> pool" where
  "post_work p = p\<lparr>pl_side := (pl_side p)\<lparr>ts_work_sem := ts_work_sem (pl_side p) + 1\<rparr>\<rparr>"

definition signal_space :: "pool \<Rightarrow> pool" where
  "signal_space p = (if pl_queue_capacity p > 0 then emit EvSpace p else p)"

subsection \<open>Backpressure\<close>

text \<open>\<open>now\<close> is the monotonic clock in nanoseconds; the callback address \<open>0\<close> is null.\<close>

definition fire_backpressure :: "int \<Rightarrow> loom_backpressure_event \<Rightarrow> pool \<Rightarrow> pool" where
  "fire_backpressure now event p =
     (if pl_bp_callback p = 0 then p
      else
        (let window_ns = (if pl_bp_queue_timeout_ns p > 0 then pl_bp_queue_timeout_ns p else 60000000000);
             last_ns = pl_bp_last_fire_ns p
         in
         if last_ns \<noteq> 0 \<and> now - last_ns < window_ns then p
         else emit (EvBackpressure event) (p\<lparr>pl_bp_last_fire_ns := now\<rparr>)))"

text \<open>The warning ratio is a C \<open>double\<close>; the product is taken exactly and truncated.\<close>

definition backpressure_hint :: "int \<Rightarrow> pool \<Rightarrow> pool" where
  "backpressure_hint now p =
     (if pl_bp_callback p \<noteq> 0 \<and> pl_bp_queue_warn_ratio p > 0 \<and> pl_queue_capacity p \<noteq> 0 \<and>
         nat \<lfloor>of_nat (unat (pl_queue_capacity p)) * pl_bp_queue_warn_ratio p\<rfloor> \<le> unat (pl_queue_len p)
      then fire_backpressure now BACKPRESSURE_QUEUE_HIGH p else p)"

definition loom_pool_set_backpressure_config :: "(rat \<times> int) option \<Rightarrow> pool \<Rightarrow> pool" where
  "loom_pool_set_backpressure_config cfg p =
     (case cfg of
        Some (ratio, timeout) \<Rightarrow> p\<lparr>pl_bp_queue_warn_ratio := ratio, pl_bp_queue_timeout_ns := timeout\<rparr>
      | None \<Rightarrow> p\<lparr>pl_bp_queue_warn_ratio := 8 / 10, pl_bp_queue_timeout_ns := 60000000000\<rparr>)"

definition loom_pool_set_backpressure_callback :: "u64 \<Rightarrow> pool \<Rightarrow> pool" where
  "loom_pool_set_backpressure_callback cb p = p\<lparr>pl_bp_callback := cb, pl_bp_last_fire_ns := 0\<rparr>"

subsection \<open>Creating and enqueueing tasks\<close>

definition pool_task_create :: "ptr \<Rightarrow> u64 \<Rightarrow> u64 \<Rightarrow> u8 \<Rightarrow> pool \<Rightarrow> (addr \<times> pool) option" where
  "pool_task_create node fn data priority p =
     (case node of
        None \<Rightarrow> None
      | Some a \<Rightarrow>
          (let tid = pl_next_task_id p + 1
           in Some (a, emit (EvCreateNode a)
                (p\<lparr>pl_next_task_id := tid, pl_store := (pl_store p)(a := task_init tid fn data priority)\<rparr>))))"

definition set_task :: "addr \<Rightarrow> (loom_task \<Rightarrow> loom_task) \<Rightarrow> pool \<Rightarrow> pool" where
  "set_task a f p = p\<lparr>pl_store := (pl_store p)(a := f (pl_store p a))\<rparr>"

definition pool_enqueue :: "addr \<Rightarrow> pool \<Rightarrow> pool" where
  "pool_enqueue a p =
     (case loom_enqueue_unlocked (pl_store p) (pl_lanes p) (pl_queue_len p) a of
        (st, lq, n) \<Rightarrow> p\<lparr>pl_store := st, pl_lanes := lq, pl_queue_len := n\<rparr>)"

text \<open>\<open>task_destroy\<close> as the pool sees it: the node goes back to the allocator.\<close>

definition pool_task_destroy :: "addr \<Rightarrow> pool \<Rightarrow> pool" where
  "pool_task_destroy a p = emit (EvDestroyNode a) p"

text \<open>The funnel returns the result code and, on success, the id of the task.\<close>

type_synonym submit_result = "loom_result \<times> u64"

definition queue_full :: "pool \<Rightarrow> bool" where
  "queue_full p \<longleftrightarrow> pl_queue_capacity p \<noteq> 0 \<and> pl_queue_len p \<ge> pl_queue_capacity p"

definition enqueue_lane_task :: "ptr \<Rightarrow> u64 \<Rightarrow> u64 \<Rightarrow> u8 \<Rightarrow> bool \<Rightarrow> pool \<Rightarrow> submit_result \<times> pool" where
  "enqueue_lane_task node fn data priority free_data p =
     (if pl_shutdown p \<or> pl_draining p then ((LOOMWORKS_ERR_SHUTDOWN, 0), p)
      else if queue_full p then ((LOOMWORKS_ERR_INVALID, 0), p)
      else
        (case pool_task_create node fn data priority p of
           None \<Rightarrow> ((LOOMWORKS_ERR_ALLOC, 0), p)
         | Some (a, p) \<Rightarrow>
             (let p = set_task a (\<lambda>t. t\<lparr>tk_free_data := free_data\<rparr>) p;
                  p = pool_enqueue a p;
                  id = tk_task_id (pl_store p a);
                  p = post_work p
              in ((LOOMWORKS_OK, id), fire METRIC_SUBMITTED p))))"

definition spill_to_normal_lane :: "addr \<Rightarrow> pool \<Rightarrow> submit_result \<times> pool" where
  "spill_to_normal_lane a p =
     (let id = tk_task_id (pl_store p a) in
      if pl_shutdown p \<or> pl_draining p then ((LOOMWORKS_ERR_SHUTDOWN, 0), pool_task_destroy a p)
      else if queue_full p then ((LOOMWORKS_ERR_INVALID, 0), pool_task_destroy a p)
      else ((LOOMWORKS_OK, id), fire METRIC_SUBMITTED (post_work (pool_enqueue a p))))"

definition enqueue_ring_task :: "ring \<Rightarrow> ptr \<Rightarrow> u64 \<Rightarrow> u64 \<Rightarrow> u8 \<Rightarrow> bool \<Rightarrow> pool \<Rightarrow> submit_result \<times> pool" where
  "enqueue_ring_task r node fn data priority free_data p =
     (case pool_task_create node fn data priority p of
        None \<Rightarrow> ((LOOMWORKS_ERR_ALLOC, 0), p)
      | Some (a, p) \<Rightarrow>
          (let p = set_task a (\<lambda>t. t\<lparr>tk_free_data := free_data\<rparr>) p;
               id = tk_task_id (pl_store p a);
               p = p\<lparr>pl_queue_len := pl_queue_len p + 1\<rparr>
           in
           case ring_try_enqueue r (pl_index p) a (pl_store p a) of
             (ok, r', idx) \<Rightarrow>
               if ok then
                 ((LOOMWORKS_OK, id), fire METRIC_SUBMITTED (post_work (p\<lparr>pl_ring := Some r', pl_index := idx\<rparr>)))
               else spill_to_normal_lane a (p\<lparr>pl_queue_len := pl_queue_len p - 1\<rparr>)))"

text \<open>
  \<open>wait_for_space\<close>: the list holds, for each return of \<open>pthread_cond_timedwait\<close>, whether it timed out
  and the pool as found then; the outcome is \<open>None\<close> while the thread is still waiting.
\<close>

fun wait_for_space :: "pool \<Rightarrow> (bool \<times> pool) list \<Rightarrow> (loom_result \<times> pool) option" where
  "wait_for_space p wakes =
     (if \<not> (pl_queue_len p \<ge> pl_queue_capacity p \<and> \<not> pl_shutdown p) then Some (LOOMWORKS_OK, p)
      else
        (case wakes of
           [] \<Rightarrow> None
         | (timed_out, q) # wakes \<Rightarrow>
             if timed_out \<or> pl_shutdown q \<or> pl_draining q then
               Some (if pl_shutdown q then LOOMWORKS_ERR_SHUTDOWN else LOOMWORKS_ERR_TIMEOUT, q)
             else wait_for_space q wakes))"

declare wait_for_space.simps [simp del]

text \<open>The route of a task that passed the gate: the ring for normal priority, else a lane.\<close>

definition enqueue_route :: "ptr \<Rightarrow> u64 \<Rightarrow> u64 \<Rightarrow> u8 \<Rightarrow> bool \<Rightarrow> pool \<Rightarrow> submit_result \<times> pool" where
  "enqueue_route node fn data priority free_data p =
     (case pl_ring p of
        Some r \<Rightarrow>
          if priority = LOOMWORKS_PRIORITY_NORMAL \<and> pl_deques p \<noteq> None
          then enqueue_ring_task r node fn data priority free_data p
          else enqueue_lane_task node fn data priority free_data p
      | None \<Rightarrow> enqueue_lane_task node fn data priority free_data p)"

definition enqueue_task ::
    "int \<Rightarrow> ptr \<Rightarrow> u64 \<Rightarrow> u64 \<Rightarrow> u8 \<Rightarrow> bool \<Rightarrow> (bool \<times> pool) list option \<Rightarrow> pool \<Rightarrow> (submit_result \<times> pool) option" where
  "enqueue_task now node fn data priority free_data block p =
     (if pl_shutdown p then Some ((LOOMWORKS_ERR_SHUTDOWN, 0), p)
      else if queue_full p then
        (case block of
           None \<Rightarrow> Some ((LOOMWORKS_ERR_INVALID, 0), p)
         | Some wakes \<Rightarrow>
             (case wait_for_space (fire_backpressure now BACKPRESSURE_QUEUE_BLOCKED p) wakes of
                None \<Rightarrow> None
              | Some (rc, q) \<Rightarrow>
                  if rc \<noteq> LOOMWORKS_OK then Some ((rc, 0), q)
                  else Some (enqueue_route node fn data priority free_data (backpressure_hint now q))))
      else Some (enqueue_route node fn data priority free_data (backpressure_hint now p)))"

text \<open>The public entry points; the function address \<open>0\<close> is null.\<close>

definition loom_pool_submit :: "int \<Rightarrow> ptr \<Rightarrow> u64 \<Rightarrow> u64 \<Rightarrow> pool \<Rightarrow> (submit_result \<times> pool) option" where
  "loom_pool_submit now node fn data p =
     (if fn = 0 then Some ((LOOMWORKS_ERR_INVALID, 0), p)
      else enqueue_task now node fn data LOOMWORKS_PRIORITY_NORMAL False None p)"

definition loom_pool_submit_blocking ::
    "int \<Rightarrow> ptr \<Rightarrow> u64 \<Rightarrow> u64 \<Rightarrow> (bool \<times> pool) list \<Rightarrow> pool \<Rightarrow> (submit_result \<times> pool) option" where
  "loom_pool_submit_blocking now node fn data wakes p =
     (if fn = 0 then Some ((LOOMWORKS_ERR_INVALID, 0), p)
      else enqueue_task now node fn data LOOMWORKS_PRIORITY_NORMAL False (Some wakes) p)"

definition loom_pool_submit_priority :: "int \<Rightarrow> ptr \<Rightarrow> u64 \<Rightarrow> u64 \<Rightarrow> u8 \<Rightarrow> pool \<Rightarrow> (submit_result \<times> pool) option" where
  "loom_pool_submit_priority now node fn data priority p =
     (if fn = 0 then Some ((LOOMWORKS_ERR_INVALID, 0), p)
      else enqueue_task now node fn data priority False None p)"

definition loom_pool_submit_internal :: "int \<Rightarrow> ptr \<Rightarrow> u64 \<Rightarrow> u64 \<Rightarrow> u8 \<Rightarrow> pool \<Rightarrow> (loom_result \<times> pool) option" where
  "loom_pool_submit_internal now node fn user priority p =
     (if fn = 0 then Some (LOOMWORKS_ERR_INVALID, p)
      else map_option (\<lambda>((rc, tid), q). (rc, q)) (enqueue_task now node fn user priority False None p))"

text \<open>
  The future variants: \<open>fut\<close> is what \<open>calloc\<close> and the two initialisations give, \<open>ctx\<close> the context
  block; on failure of the submission both are freed again.
\<close>

definition loom_pool_submit_future_priority ::
    "int \<Rightarrow> ptr \<Rightarrow> u64 \<Rightarrow> u8 \<Rightarrow> ptr \<Rightarrow> bool \<Rightarrow> bool \<Rightarrow> u64 option \<Rightarrow> pool \<Rightarrow> ((submit_result \<times> ptr) \<times> pool) option" where
  "loom_pool_submit_future_priority now node fn priority fut mutex_ok cond_ok ctx p =
     (if fn = 0 then Some (((LOOMWORKS_ERR_INVALID, 0), None), p)
      else
        (case fut of
           None \<Rightarrow> Some (((LOOMWORKS_ERR_ALLOC, 0), None), p)
         | Some f \<Rightarrow>
             if \<not> mutex_ok \<or> \<not> cond_ok then Some (((LOOMWORKS_ERR_ALLOC, 0), None), p)
             else
               (case ctx of
                  None \<Rightarrow> Some (((LOOMWORKS_ERR_ALLOC, 0), None), p)
                | Some c \<Rightarrow>
                    (let p = p\<lparr>pl_future := (pl_future p)(f := future_new), pl_ctx_future := (pl_ctx_future p)(c := f)\<rparr>
                     in
                     case enqueue_task now node future_task_wrapper_fn c priority True None p of
                       None \<Rightarrow> None
                     | Some ((rc, tid), p) \<Rightarrow>
                         if rc \<noteq> LOOMWORKS_OK then Some (((rc, 0), None), p)
                         else Some (((LOOMWORKS_OK, tid), Some f), p)))))"

definition loom_pool_submit_future ::
    "int \<Rightarrow> ptr \<Rightarrow> u64 \<Rightarrow> ptr \<Rightarrow> bool \<Rightarrow> bool \<Rightarrow> u64 option \<Rightarrow> pool \<Rightarrow> ((submit_result \<times> ptr) \<times> pool) option" where
  "loom_pool_submit_future now node fn fut mutex_ok cond_ok ctx p =
     loom_pool_submit_future_priority now node fn LOOMWORKS_PRIORITY_NORMAL fut mutex_ok cond_ok ctx p"

text \<open>
  Coroutine tasks: always a lane.  \<open>fut\<close> is \<open>None\<close> if the caller wants no future, else what its
  allocation gave; \<open>timer_rc\<close> is the result of \<open>ensure_timer_thread\<close> with the resulting pool side.
\<close>

definition loom_pool_submit_coroutine_ex ::
    "ptr \<Rightarrow> u64 \<Rightarrow> u64 \<Rightarrow> u64 \<Rightarrow> ptr option \<Rightarrow> loom_result \<times> timer_side \<Rightarrow> pool \<Rightarrow> (submit_result \<times> ptr) \<times> pool" where
  "loom_pool_submit_coroutine_ex node fn arg stack_size fut timer_rc p =
     (if fn = 0 then (((LOOMWORKS_ERR_INVALID, 0), None), p)
      else if pl_shutdown p then (((LOOMWORKS_ERR_SHUTDOWN, 0), None), p)
      else if fut = Some None then (((LOOMWORKS_ERR_ALLOC, 0), None), p)
      else
        (let p = p\<lparr>pl_side := snd timer_rc\<rparr> in
         if fst timer_rc \<noteq> LOOMWORKS_OK then (((fst timer_rc, 0), None), p)
         else if pl_shutdown p \<or> pl_draining p then (((LOOMWORKS_ERR_SHUTDOWN, 0), None), p)
         else if queue_full p then (((LOOMWORKS_ERR_INVALID, 0), None), p)
         else
           (case pool_task_create node fn arg LOOMWORKS_PRIORITY_NORMAL p of
              None \<Rightarrow> (((LOOMWORKS_ERR_ALLOC, 0), None), p)
            | Some (a, p) \<Rightarrow>
                (let f = (case fut of None \<Rightarrow> None | Some f \<Rightarrow> f);
                     p = (case f of None \<Rightarrow> p | Some g \<Rightarrow> p\<lparr>pl_future := (pl_future p)(g := future_new)\<rparr>);
                     p = set_task a (\<lambda>t. t\<lparr>tk_is_coro := True, tk_coro_fn := fn, tk_stack_size := stack_size,
                                          tk_completion := f, tk_free_data := False\<rparr>) p;
                     p = pool_enqueue a p;
                     id = tk_task_id (pl_store p a)
                 in (((LOOMWORKS_OK, id), f), fire METRIC_SUBMITTED (post_work p))))))"

definition loom_pool_submit_coroutine ::
    "ptr \<Rightarrow> u64 \<Rightarrow> u64 \<Rightarrow> u64 \<Rightarrow> loom_result \<times> timer_side \<Rightarrow> pool \<Rightarrow> submit_result \<times> pool" where
  "loom_pool_submit_coroutine node fn arg stack_size timer_rc p =
     apfst fst (loom_pool_submit_coroutine_ex node fn arg stack_size None timer_rc p)"

end
