(* ===== verification/Pool_Worker.thy ===== *)
theory Pool_Worker
  imports Pool_State
begin

text \<open>
  One turn of the loop of \<open>worker_entry\<close> (\<^verbatim>\<open>src/src/thread_pool.c\<close>): the search for a task in the
  urgent lanes, the own deque, the ring, the other deques and the remaining lanes, what happens to the
  task found, the two ways a worker leaves the loop, and the coroutine branches.  What the user's
  functions and the coroutine library do in between is an argument.
\<close>

definition LOOMWORKS_BULK_DEQUEUE :: nat where
  "LOOMWORKS_BULK_DEQUEUE = 8"

definition LOOMWORKS_STEAL_TRIES :: nat where
  "LOOMWORKS_STEAL_TRIES = 3"

subsection \<open>The queues of the pool\<close>

definition pool_dequeue :: "nat \<Rightarrow> pool \<Rightarrow> ptr \<times> pool" where
  "pool_dequeue m p =
     (case dequeue_lowest_priority_unlocked (pl_store p) (pl_lanes p) (pl_queue_len p) m of
        (t, st, lq, n) \<Rightarrow> (t, p\<lparr>pl_store := st, pl_lanes := lq, pl_queue_len := n\<rparr>))"

definition on_deque ::
    "(u64 \<Rightarrow> work_deque \<Rightarrow> 'r \<times> u64 \<times> work_deque) \<Rightarrow> work_deque list \<Rightarrow> nat \<Rightarrow> pool \<Rightarrow> 'r \<times> pool" where
  "on_deque f ds i p =
     (case f (pl_deque_total p) (ds ! i) of
        (r, n, d) \<Rightarrow> (r, p\<lparr>pl_deque_total := n, pl_deques := Some (ds[i := d])\<rparr>))"

definition pool_deque_pop :: "nat \<Rightarrow> pool \<Rightarrow> ptr \<times> pool" where
  "pool_deque_pop i p = (case pl_deques p of None \<Rightarrow> (None, p) | Some ds \<Rightarrow> on_deque deque_pop ds i p)"

definition pool_deque_steal :: "nat \<Rightarrow> pool \<Rightarrow> ptr \<times> pool" where
  "pool_deque_steal i p = (case pl_deques p of None \<Rightarrow> (None, p) | Some ds \<Rightarrow> on_deque deque_steal ds i p)"

definition pool_deque_push :: "nat \<Rightarrow> addr \<Rightarrow> pool \<Rightarrow> bool \<times> pool" where
  "pool_deque_push i a p =
     (case pl_deques p of None \<Rightarrow> (False, p) | Some ds \<Rightarrow> on_deque (\<lambda>n d. deque_push n d a) ds i p)"

text \<open>A ring task that goes to a lane: its index entry and its count are dropped first.\<close>

definition spill_task :: "addr \<Rightarrow> pool \<Rightarrow> pool" where
  "spill_task a p =
     (let p = p\<lparr>pl_index := cancel_index_remove (pl_index p) (tk_task_id (pl_store p a))\<rparr>;
          p = p\<lparr>pl_queue_len := pl_queue_len p - 1\<rparr>
      in pool_enqueue a p)"

subsection \<open>The search for a task\<close>

text \<open>Each step is tried only while no task is found; the flag is \<open>from_ring\<close>.\<close>

type_synonym found = "(addr \<times> bool) option"

definition step0_urgent :: "found \<times> pool \<Rightarrow> found \<times> pool" where
  "step0_urgent = (\<lambda>(task, p).
     if lane_has_priority (pl_lanes p) 4 then apfst (map_option (\<lambda>a. (a, False))) (pool_dequeue 4 p)
     else (task, p))"

definition step1_own :: "nat \<Rightarrow> found \<times> pool \<Rightarrow> found \<times> pool" where
  "step1_own idx = (\<lambda>(task, p).
     if task = None \<and> pl_deques p \<noteq> None then apfst (map_option (\<lambda>a. (a, True))) (pool_deque_pop idx p)
     else (task, p))"

fun bulk_push :: "nat \<Rightarrow> bool \<Rightarrow> addr list \<Rightarrow> found \<times> pool \<Rightarrow> found \<times> pool" where
  "bulk_push idx first [] s = s"
| "bulk_push idx first (a # batch) (task, p) =
     (case pool_deque_push idx a p of
        (ok, p) \<Rightarrow>
          bulk_push idx False batch
            (if ok then (task, p)
             else if first then (Some (a, True), p)
             else (task, spill_task a p)))"

text \<open>\<open>cas\<close> is whether the compare-and-swap of the bulk dequeue succeeds.\<close>

definition step2_ring :: "nat \<Rightarrow> bool \<Rightarrow> found \<times> pool \<Rightarrow> found \<times> pool" where
  "step2_ring idx cas = (\<lambda>(task, p).
     case pl_ring p of
       None \<Rightarrow> (task, p)
     | Some r \<Rightarrow>
         if task = None \<and> pl_deques p \<noteq> None then
           (case ring_bulk_try_dequeue r LOOMWORKS_BULK_DEQUEUE cas of
              (batch, r') \<Rightarrow>
                (case bulk_push idx True batch (None, p\<lparr>pl_ring := Some r'\<rparr>) of
                   (task, p) \<Rightarrow>
                     if task = None then apfst (map_option (\<lambda>a. (a, True))) (pool_deque_pop idx p)
                     else (task, p)))
         else (task, p))"

fun steal_from :: "nat list \<Rightarrow> nat \<Rightarrow> pool \<Rightarrow> found \<times> pool" where
  "steal_from [] idx p = (None, p)"
| "steal_from (v # vs) idx p =
     (if v = idx then steal_from vs idx p
      else
        (case pool_deque_steal v p of
           (None, p) \<Rightarrow> steal_from vs idx p
         | (Some a, p) \<Rightarrow> (Some (a, True), p)))"

definition ring_busy :: "pool \<Rightarrow> bool" where
  "ring_busy p = (case pl_ring p of None \<Rightarrow> False | Some r \<Rightarrow> ring_has_work r)"

definition victims :: "nat \<Rightarrow> pool \<Rightarrow> nat list" where
  "victims idx p =
     (if ring_busy p
      then map (\<lambda>t. (idx + 1 + t * 2) mod pl_worker_count p) [0..<LOOMWORKS_STEAL_TRIES]
      else map (\<lambda>v. (idx + 1 + v) mod pl_worker_count p) [0..<pl_worker_count p - 1])"

definition step3_steal :: "nat \<Rightarrow> found \<times> pool \<Rightarrow> found \<times> pool" where
  "step3_steal idx = (\<lambda>(task, p).
     if task = None \<and> pl_deques p \<noteq> None \<and> pl_worker_count p > 1 then steal_from (victims idx p) idx p
     else (task, p))"

definition step4_lanes :: "found \<times> pool \<Rightarrow> found \<times> pool" where
  "step4_lanes = (\<lambda>(task, p).
     if task = None \<and> \<not> ring_busy p then apfst (map_option (\<lambda>a. (a, False))) (pool_dequeue 255 p)
     else (task, p))"

definition worker_pick :: "nat \<Rightarrow> bool \<Rightarrow> pool \<Rightarrow> found \<times> pool" where
  "worker_pick idx cas p =
     step4_lanes (step3_steal idx (step2_ring idx cas (step1_own idx (step0_urgent (None, p)))))"

subsection \<open>The run boundary\<close>

definition mark_future_cancelled :: "u64 \<Rightarrow> pool \<Rightarrow> pool" where
  "mark_future_cancelled ctx p =
     (let f = pl_ctx_future p ctx in p\<lparr>pl_future := (pl_future p)(f := future_mark_cancelled (pl_future p f))\<rparr>)"

definition free_user_data :: "loom_task \<Rightarrow> pool \<Rightarrow> pool" where
  "free_user_data t p = (if tk_free_data t \<and> tk_user_data t \<noteq> 0 then emit (EvFree (tk_user_data t)) p else p)"

text \<open>
  What the worker does with the task: skip a cancelled one, hand a coroutine task on, or run a
  function with its data; the last component of \<open>WRun\<close> is the context freed afterwards, if any.
\<close>

datatype work = WIdle | WSkip u64 | WCoro addr | WRun u64 u64 u64 "u64 option"

definition worker_commit :: "nat \<Rightarrow> addr \<times> bool \<Rightarrow> pool \<Rightarrow> work \<times> pool" where
  "worker_commit idx = (\<lambda>(a, from_ring) p.
     let t = pl_store p a;
         p = (if from_ring then p\<lparr>pl_index := cancel_index_remove (pl_index p) (tk_task_id t)\<rparr> else p)
     in
     if tk_cancelled t then
       (let p = (if tk_is_future t then mark_future_cancelled (tk_user_data t) p else p);
            p = free_user_data t p;
            p = pool_task_destroy a p
        in (WSkip (tk_task_id t), signal_space p))
     else if tk_is_coro t then (WCoro a, p)
     else
       (let p = pool_task_destroy a p;
            p = (if from_ring then p\<lparr>pl_queue_len := pl_queue_len p - 1\<rparr> else p);
            p = signal_space p;
            p = p\<lparr>pl_active_workers := pl_active_workers p + 1\<rparr>;
            p = p\<lparr>pl_reclaim := (pl_reclaim p)[idx := if tk_is_future t then RCtx (tk_user_data t) else RPlain]\<rparr>
        in (WRun (tk_task_id t) (tk_fn t) (tk_user_data t) (if tk_is_future t then Some (tk_user_data t) else None),
            fire METRIC_STARTED p)))"

definition worker_pass :: "nat \<Rightarrow> bool \<Rightarrow> pool \<Rightarrow> work \<times> pool" where
  "worker_pass idx cas p =
     (case worker_pick idx cas p of
        (None, p) \<Rightarrow> (WIdle, p)
      | (Some found, p) \<Rightarrow> worker_commit idx found p)"

text \<open>After the task function returned.\<close>

definition worker_finish :: "nat \<Rightarrow> u64 option \<Rightarrow> pool \<Rightarrow> pool" where
  "worker_finish idx reclaim p =
     (let p = fire METRIC_COMPLETED p;
          p = p\<lparr>pl_reclaim := (pl_reclaim p)[idx := RNone]\<rparr>;
          p = (case reclaim of None \<Rightarrow> p | Some ctx \<Rightarrow> emit (EvFree ctx) p)
      in p\<lparr>pl_active_workers := pl_active_workers p - 1\<rparr>)"

definition latency_ns :: "int \<times> int \<Rightarrow> int \<times> int \<Rightarrow> u64" where
  "latency_ns ts_start ts_end =
     (let sec_diff = fst ts_end - fst ts_start;
          nsec_diff = snd ts_end - snd ts_start;
          (sec_diff, nsec_diff) =
            (if nsec_diff < 0 then (sec_diff - 1, nsec_diff + 1000000000) else (sec_diff, nsec_diff))
      in of_int (sec_diff * 1000000000 + nsec_diff))"

text \<open>The test under which a worker leaves the loop once the pool shuts down, and what it records then.\<close>

definition worker_may_exit :: "nat \<Rightarrow> pool \<Rightarrow> bool" where
  "worker_may_exit idx p \<longleftrightarrow>
     pl_shutdown p \<and> pl_queue_len p = 0 \<and>
     (case pl_ring p of None \<Rightarrow> True | Some r \<Rightarrow> ring_count r = 0) \<and> pl_deque_total p = 0 \<and>
     timer_len (ts_timer (pl_side p)) = 0 \<and> ts_ready (pl_side p) ! idx = []"

definition worker_shutdown_exit :: "nat \<Rightarrow> pool \<Rightarrow> pool option" where
  "worker_shutdown_exit idx p =
     (if worker_may_exit idx p then Some (p\<lparr>pl_clean_exit := (pl_clean_exit p)[idx := True]\<rparr>) else None)"

subsection \<open>Coroutines\<close>

text \<open>
  What \<open>loom_coro_resume\<close> and \<open>loom_coro_state\<close> report: the coroutine yielded, registered a sleep,
  finished, could not be resumed because it runs (or is in a state the code does not test for), or failed.
\<close>

datatype coro_outcome = CoSuspended | CoSleeping | CoDone | CoRunning | CoFailed

definition ready_push :: "nat \<Rightarrow> coro_ready \<Rightarrow> pool \<Rightarrow> pool" where
  "ready_push idx rn p =
     p\<lparr>pl_side := (pl_side p)\<lparr>ts_ready := (ts_ready (pl_side p))[idx := ts_ready (pl_side p) ! idx @ [rn]]\<rparr>\<rparr>"

definition mark_coro_cancelled :: "addr \<Rightarrow> pool \<Rightarrow> pool" where
  "mark_coro_cancelled a p =
     (case tk_completion (pl_store p a) of
        None \<Rightarrow> p
      | Some f \<Rightarrow>
          set_task a (\<lambda>t. t\<lparr>tk_completion := None\<rparr>)
            (p\<lparr>pl_future := (pl_future p)(f := the (coro_future_mark_cancelled (Some (pl_future p f))))\<rparr>))"

definition complete_coro :: "addr \<Rightarrow> loom_result \<Rightarrow> pool \<Rightarrow> pool" where
  "complete_coro a rc p =
     (case tk_completion (pl_store p a) of
        None \<Rightarrow> p
      | Some f \<Rightarrow>
          set_task a (\<lambda>t. t\<lparr>tk_completion := None\<rparr>)
            (p\<lparr>pl_future := (pl_future p)(f := fst (loom_future_complete rc (pl_future p f)))\<rparr>))"

text \<open>Step C0: the head of the worker's ready queue; \<open>None\<close> if the queue is empty.\<close>

definition coro_ready_step :: "nat \<Rightarrow> coro_outcome \<Rightarrow> pool \<Rightarrow> pool option" where
  "coro_ready_step idx outcome p =
     (case ts_ready (pl_side p) ! idx of
        [] \<Rightarrow> None
      | rn # rest \<Rightarrow>
          (let p = p\<lparr>pl_side := (pl_side p)\<lparr>ts_ready := (ts_ready (pl_side p))[idx := rest]\<rparr>\<rparr>;
               a = rn_task rn
           in Some
             (if tk_cancelled (pl_store p a) then
                (let p = fire METRIC_CANCELLED p;
                     p = mark_coro_cancelled a p;
                     p = free_user_data (pl_store p a) p
                 in pool_task_destroy a p)
              else
                (case outcome of
                   CoSuspended \<Rightarrow> ready_push idx rn p
                 | CoSleeping \<Rightarrow> p
                 | CoDone \<Rightarrow> signal_space (pool_task_destroy a (fire METRIC_COMPLETED p))
                 | CoRunning \<Rightarrow> signal_space (pool_task_destroy a p)
                 | CoFailed \<Rightarrow> signal_space (pool_task_destroy a (fire METRIC_FAILED p))))))"

text \<open>
  The first run of a coroutine task.  \<open>coro\<close> is what \<open>loom_coro_create\<close> gives, \<open>alloc_ok\<close> whether the
  ready node of a coroutine that yields can be allocated.
\<close>

definition coro_first_step :: "nat \<Rightarrow> addr \<Rightarrow> addr option \<Rightarrow> coro_outcome \<Rightarrow> bool \<Rightarrow> pool \<Rightarrow> pool" where
  "coro_first_step idx a coro outcome alloc_ok p =
     (let p = fire METRIC_STARTED p in
      case coro of
        None \<Rightarrow> signal_space (pool_task_destroy a p)
      | Some c \<Rightarrow>
          (let p = set_task a (\<lambda>t. t\<lparr>tk_user_data := of_nat c\<rparr>) p;
               rn = \<lparr>rn_coro = c, rn_task_id = tk_task_id (pl_store p a), rn_task = a\<rparr>
           in
           case outcome of
             CoSuspended \<Rightarrow>
               if alloc_ok then ready_push idx rn p
               else signal_space (pool_task_destroy a (complete_coro a LOOMWORKS_ERR_FAILED p))
           | CoSleeping \<Rightarrow> p
           | CoDone \<Rightarrow> signal_space (pool_task_destroy a (complete_coro a LOOMWORKS_OK (fire METRIC_COMPLETED p)))
           | CoRunning \<Rightarrow> signal_space (pool_task_destroy a p)
           | CoFailed \<Rightarrow> signal_space (pool_task_destroy a (complete_coro a LOOMWORKS_ERR_FAILED (fire METRIC_FAILED p)))))"

subsection \<open>A worker displaced by a shrink\<close>

text \<open>Its ready coroutines are terminated, then its sleeping ones, then its deque is emptied.\<close>

definition terminate_ready :: "coro_ready \<Rightarrow> pool \<Rightarrow> pool" where
  "terminate_ready rn p =
     (let p = fire METRIC_CANCELLED p;
          p = mark_coro_cancelled (rn_task rn) p;
          p = free_user_data (pl_store p (rn_task rn)) p
      in pool_task_destroy (rn_task rn) p)"

definition shrink_ready :: "nat \<Rightarrow> pool \<Rightarrow> pool" where
  "shrink_ready idx p =
     (let rs = ts_ready (pl_side p) ! idx;
          p = p\<lparr>pl_side := (pl_side p)\<lparr>ts_ready := (ts_ready (pl_side p))[idx := []]\<rparr>\<rparr>
      in fold terminate_ready rs p)"

definition timer_victim :: "nat \<Rightarrow> timer \<Rightarrow> u64 option" where
  "timer_victim idx t =
     map_option te_task_id (List.find (\<lambda>e. unat (te_worker_idx e) = idx) (take (timer_len t) (timer_heap t)))"

fun shrink_timers :: "nat \<Rightarrow> nat \<Rightarrow> pool \<Rightarrow> pool" where
  "shrink_timers idx 0 p = p"
| "shrink_timers idx (Suc n) p =
     (case timer_victim idx (ts_timer (pl_side p)) of
        None \<Rightarrow> p
      | Some victim \<Rightarrow>
          (case loom_timer_remove_by_task (ts_timer (pl_side p)) victim of
             None \<Rightarrow> p
           | Some (e, t) \<Rightarrow>
               (let p = p\<lparr>pl_side := (pl_side p)\<lparr>ts_timer := t\<rparr>\<rparr>;
                    p = fire METRIC_CANCELLED p;
                    p = mark_coro_cancelled (te_task e) p;
                    p = free_user_data (pl_store p (te_task e)) p
                in shrink_timers idx n (pool_task_destroy (te_task e) p))))"

fun shrink_deque :: "nat \<Rightarrow> nat \<Rightarrow> pool \<Rightarrow> pool" where
  "shrink_deque idx 0 p = p"
| "shrink_deque idx (Suc n) p =
     (case pool_deque_pop idx p of
        (None, p) \<Rightarrow> p
      | (Some a, p) \<Rightarrow> shrink_deque idx n (spill_task a p))"

text \<open>The loops run at most once per resident entry.\<close>

definition worker_shrink_exit :: "nat \<Rightarrow> pool \<Rightarrow> pool option" where
  "worker_shrink_exit idx p =
     (if idx \<ge> pl_worker_count p \<and> \<not> pl_shutdown p then
        (let p = shrink_ready idx p;
             p = shrink_timers idx (timer_len (ts_timer (pl_side p))) p;
             p = shrink_deque idx (unat (pl_deque_total p)) p
         in Some ((post_work p)\<lparr>pl_clean_exit := (pl_clean_exit p)[idx := True]\<rparr>))
      else None)"

end
