(* ===== verification/Pool_Cancel.thy ===== *)
theory Pool_Cancel
  imports Pool_Worker
begin

text \<open>
  Cancellation and shutdown of \<^verbatim>\<open>src/src/thread_pool.c\<close>: by id, by data pointer, of everything
  queued.  A task in the ring or a deque is only marked; its index entry becomes a tombstone and
  the worker that finds the node later releases it.  A task in a lane is unlinked at once.
\<close>

text \<open>What happens to a node unlinked from a lane.\<close>

definition release_cancelled :: "addr \<Rightarrow> pool \<Rightarrow> pool" where
  "release_cancelled a p =
     (let p = (if tk_is_future (pl_store p a) then mark_future_cancelled (tk_user_data (pl_store p a)) p else p);
          p = (if tk_is_coro (pl_store p a) then mark_coro_cancelled a p else p);
          p = free_user_data (pl_store p a) p
      in pool_task_destroy a p)"

definition cancel_in_lanes :: "(loom_task \<Rightarrow> bool) \<Rightarrow> pool \<Rightarrow> (loom_result \<times> pool) option" where
  "cancel_in_lanes hit p =
     (case lane_cancel hit (pl_store p) (pl_lanes p) (pl_queue_len p) of
        None \<Rightarrow> None
      | Some (None, st, lq, n) \<Rightarrow> Some (LOOMWORKS_ERR_INVALID, p)
      | Some (Some a, st, lq, n) \<Rightarrow>
          Some (LOOMWORKS_OK,
                fire METRIC_CANCELLED (release_cancelled a (p\<lparr>pl_store := st, pl_lanes := lq, pl_queue_len := n\<rparr>))))"

text \<open>A ring task: mark it, claim its index entry, and take it out of the count.\<close>

definition cancel_in_ring :: "addr \<Rightarrow> pool \<Rightarrow> bool \<times> pool" where
  "cancel_in_ring a p =
     (let p = set_task a (\<lambda>t. t\<lparr>tk_cancelled := True\<rparr>) p in
      case cancel_index_claim (pl_index p) (tk_task_id (pl_store p a)) of
        (won, idx) \<Rightarrow>
          if won then
            (let p = p\<lparr>pl_index := idx, pl_queue_len := pl_queue_len p - 1\<rparr>;
                 p = (if tk_is_coro (pl_store p a) then mark_coro_cancelled a p else p)
             in (True, fire METRIC_CANCELLED p))
          else (False, p))"

text \<open>\<open>alloc_ok\<close> is whether the ready node for a sleeping coroutine can be allocated.\<close>

definition cancel_sleeping :: "u64 \<Rightarrow> bool \<Rightarrow> timer_entry \<Rightarrow> timer \<Rightarrow> pool \<Rightarrow> pool" where
  "cancel_sleeping task_id alloc_ok e t p =
     (let a = te_task e;
          p = p\<lparr>pl_side := (pl_side p)\<lparr>ts_timer := t\<rparr>\<rparr>;
          p = set_task a (\<lambda>t. t\<lparr>tk_cancelled := True\<rparr>) p;
          p = mark_coro_cancelled a p;
          p = (if alloc_ok then
                 post_work (ready_push (unat (te_worker_idx e))
                   \<lparr>rn_coro = te_coro_ctx e, rn_task_id = task_id, rn_task = a\<rparr> p)
               else p)
      in fire METRIC_CANCELLED p)"

definition loom_pool_cancel_by_id :: "u64 \<Rightarrow> bool \<Rightarrow> pool \<Rightarrow> (loom_result \<times> pool) option" where
  "loom_pool_cancel_by_id task_id alloc_ok p =
     (if pl_shutdown p then Some (LOOMWORKS_ERR_SHUTDOWN, p)
      else
        (case cancel_index_find (pl_index p) task_id of
           Some a \<Rightarrow>
             if tk_cancelled (pl_store p a) then Some (LOOMWORKS_ERR_INVALID, p)
             else
               (case cancel_in_ring a p of
                  (won, p) \<Rightarrow> Some (if won then LOOMWORKS_OK else LOOMWORKS_ERR_INVALID, p))
         | None \<Rightarrow>
             (case loom_timer_remove_by_task (ts_timer (pl_side p)) task_id of
                Some (e, t) \<Rightarrow> Some (LOOMWORKS_OK, cancel_sleeping task_id alloc_ok e t p)
              | None \<Rightarrow> cancel_in_lanes (lane_hit (LCancelId task_id)) p)))"

text \<open>The scan of the index by data pointer.\<close>

fun cancel_scan :: "u64 \<Rightarrow> nat list \<Rightarrow> pool \<Rightarrow> bool \<times> pool" where
  "cancel_scan data [] p = (False, p)"
| "cancel_scan data (i # is) p =
     (let slot = cancel_slots (pl_index p) ! i in
      if cs_task_id slot \<le> 1 then cancel_scan data is p
      else if cs_user_data_hash slot \<noteq> hash_ptr data then cancel_scan data is p
      else
        (case cs_task slot of
           None \<Rightarrow> cancel_scan data is p
         | Some a \<Rightarrow>
             if tk_cancelled (pl_store p a) \<or> tk_user_data (pl_store p a) \<noteq> data then cancel_scan data is p
             else
               (case cancel_in_ring a p of
                  (won, p) \<Rightarrow> if won then (True, p) else cancel_scan data is p)))"

definition cancel_sleeping_data :: "u64 \<Rightarrow> pool \<Rightarrow> pool option" where
  "cancel_sleeping_data data p =
     (case List.find (\<lambda>e. tk_user_data (pl_store p (te_task e)) = data)
             (take (timer_len (ts_timer (pl_side p))) (timer_heap (ts_timer (pl_side p)))) of
        None \<Rightarrow> None
      | Some e \<Rightarrow>
          Some (fire METRIC_CANCELLED
                  (mark_coro_cancelled (te_task e) (set_task (te_task e) (\<lambda>t. t\<lparr>tk_cancelled := True\<rparr>) p))))"

definition loom_pool_cancel :: "u64 \<Rightarrow> pool \<Rightarrow> (loom_result \<times> pool) option" where
  "loom_pool_cancel data p =
     (if data = 0 then Some (LOOMWORKS_ERR_INVALID, p)
      else if pl_shutdown p then Some (LOOMWORKS_ERR_SHUTDOWN, p)
      else
        (case (if no_index (pl_index p) then (False, p)
               else cancel_scan data [0..<unat (cancel_cap (pl_index p))] p) of
           (True, p) \<Rightarrow> Some (LOOMWORKS_OK, p)
         | (False, p) \<Rightarrow>
             (case cancel_sleeping_data data p of
                Some p \<Rightarrow> Some (LOOMWORKS_OK, p)
              | None \<Rightarrow> cancel_in_lanes (lane_hit (LCancelData data)) p)))"

text \<open>Everything queued.  The index entries become tombstones, the lanes are emptied bucket by bucket.\<close>

definition claim_slot :: "nat \<Rightarrow> pool \<Rightarrow> pool" where
  "claim_slot i p =
     p\<lparr>pl_index := (pl_index p)\<lparr>cancel_slots := (cancel_slots (pl_index p))[i :=
          (cancel_slots (pl_index p) ! i)\<lparr>cs_task_id := 1, cs_task := None\<rparr>]\<rparr>,
       pl_queue_len := pl_queue_len p - 1\<rparr>"

fun cancel_all_slots :: "nat list \<Rightarrow> u32 \<times> pool \<Rightarrow> u32 \<times> pool" where
  "cancel_all_slots [] s = s"
| "cancel_all_slots (i # is) (n, p) =
     (let slot = cancel_slots (pl_index p) ! i in
      if cs_task_id slot \<le> 1 then cancel_all_slots is (n, p)
      else
        (case cs_task slot of
           None \<Rightarrow> cancel_all_slots is (n, p)
         | Some a \<Rightarrow>
             if tk_cancelled (pl_store p a) then cancel_all_slots is (n, p)
             else cancel_all_slots is (n + 1, claim_slot i (set_task a (\<lambda>t. t\<lparr>tk_cancelled := True\<rparr>) p))))"

definition cancel_all_task :: "addr \<Rightarrow> u32 \<times> pool \<Rightarrow> u32 \<times> pool" where
  "cancel_all_task a = (\<lambda>(n, p).
     let p = (if tk_is_future (pl_store p a) then mark_future_cancelled (tk_user_data (pl_store p a)) p else p);
         p = free_user_data (pl_store p a) p;
         p = pool_task_destroy a p
     in (n + 1, p\<lparr>pl_queue_len := pl_queue_len p - 1\<rparr>))"

fun cancel_all_lanes :: "nat list \<Rightarrow> u32 \<times> pool \<Rightarrow> (u32 \<times> pool) option" where
  "cancel_all_lanes [] s = Some s"
| "cancel_all_lanes (b # bs) (n, p) =
     (case collect (tk_next \<circ> pl_store p) (ln_head (pl_lanes p) b) of
        None \<Rightarrow> None
      | Some xs \<Rightarrow>
          (let p = p\<lparr>pl_lanes := (pl_lanes p)\<lparr>ln_head := (ln_head (pl_lanes p))(b := None),
                                               ln_tail := (ln_tail (pl_lanes p))(b := None)\<rparr>\<rparr>
           in cancel_all_lanes bs (fold cancel_all_task xs (n, p))))"

definition loom_pool_cancel_all :: "pool \<Rightarrow> (u32 \<times> pool) option" where
  "loom_pool_cancel_all p =
     (if pl_shutdown p then Some (0, p)
      else
        (let s = (if no_index (pl_index p) then (0, p)
                  else cancel_all_slots [0..<unat (cancel_cap (pl_index p))] (0, p))
         in
         case cancel_all_lanes [0..<256] s of
           None \<Rightarrow> None
         | Some (n, p) \<Rightarrow>
             (let p = p\<lparr>pl_lanes := (pl_lanes p)\<lparr>ln_bits := (\<lambda>w. 0)\<rparr>\<rparr>
              in Some (n, (fire METRIC_CANCELLED ^^ unat n) p))))"

end
