(* ===== verification/Pool_Inv.thy ===== *)
theory Pool_Inv
  imports Pool_Cancel "HOL-Library.Multiset"
begin

text \<open>
  The pool as a whole: what the lanes, the ring, the deques, the cancel index and the counter
  \<open>queue_len\<close> together represent, that submission, cancellation by id and a worker's turn keep it, and
  what follows for a run of the pool: every accepted task is run once or cancelled once.
\<close>

subsection \<open>Task nodes\<close>

abbreviation tid :: "store \<Rightarrow> addr \<Rightarrow> u64" where
  "tid st a \<equiv> tk_task_id (st a)"

abbreviation gone :: "store \<Rightarrow> addr \<Rightarrow> bool" where
  "gone st a \<equiv> tk_cancelled (st a)"

lemma same_data_more:
  assumes "same_data st st'"
  shows "tk_is_coro (st' c) = tk_is_coro (st c)" "tk_is_future (st' c) = tk_is_future (st c)"
    "tk_fn (st' c) = tk_fn (st c)" "tk_free_data (st' c) = tk_free_data (st c)"
proof -
  obtain q where q: "st' c = (st c)\<lparr>tk_next := q\<rparr>" using assms unfolding same_data_def by blast
  show "tk_is_coro (st' c) = tk_is_coro (st c)" "tk_is_future (st' c) = tk_is_future (st c)"
    "tk_fn (st' c) = tk_fn (st c)" "tk_free_data (st' c) = tk_free_data (st c)" by (simp_all add: q)
qed

lemmas same_data_all = same_data_fields same_data_more

text \<open>Lanes do not see nodes outside them.\<close>

lemma lane_repr_frame:
  assumes "lane_repr st lq xs" "\<And>a. a \<in> set xs \<Longrightarrow> tk_next (st' a) = tk_next (st a) \<and> tk_priority (st' a) = tk_priority (st a)"
  shows "lane_repr st' lq xs"
proof -
  have b: "bucket st' xs b = bucket st xs b" for b unfolding bucket_def using assms(2) by (intro filter_cong) auto
  have "queue_rep (tk_next \<circ> st') h t (bucket st xs b) = queue_rep (tk_next \<circ> st) h t (bucket st xs b)" for h t b
    using assms(2) by (intro queue_rep_frame) (auto simp: bucket_set)
  then show ?thesis using assms(1) by (simp add: lane_repr_def b)
qed

text \<open>The nodes of a multiset are different and carry different ids, all handed out by the pool.\<close>

definition tasks_ok :: "store \<Rightarrow> u64 \<Rightarrow> addr multiset \<Rightarrow> bool" where
  "tasks_ok st newest A \<longleftrightarrow> (\<forall>a. count A a \<le> 1) \<and> inj_on (tid st) (set_mset A) \<and>
     (\<forall>a\<in>#A. valid_id (tid st a) \<and> tid st a \<le> newest \<and> \<not> tk_is_coro (st a))"

lemma tasks_ok_mono:
  assumes "tasks_ok st newest A" "B \<subseteq># A" "newest \<le> newest'"
    "\<And>a. a \<in># B \<Longrightarrow> tid st' a = tid st a \<and> tk_is_coro (st' a) = tk_is_coro (st a)"
  shows "tasks_ok st' newest' B"
proof -
  have sub: "set_mset B \<subseteq> set_mset A" by (rule set_mset_mono [OF assms(2)])
  have "count B a \<le> 1" for a
    using assms(1) mset_subset_eq_count [OF assms(2), of a] by (auto simp: tasks_ok_def intro: order_trans)
  moreover have "inj_on (tid st') (set_mset B)" using assms(1,4) sub by (auto simp: tasks_ok_def inj_on_def subset_iff)
  ultimately show ?thesis using assms sub by (auto simp: tasks_ok_def subset_iff intro: order_trans)
qed

lemma tasks_ok_add:
  "tasks_ok st newest (add_mset a A) \<longleftrightarrow> tasks_ok st newest A \<and> a \<notin># A \<and> (\<forall>b\<in>#A. tid st b \<noteq> tid st a) \<and>
     valid_id (tid st a) \<and> tid st a \<le> newest \<and> \<not> tk_is_coro (st a)"
proof -
  have "(\<forall>c. count (add_mset a A) c \<le> 1) \<longleftrightarrow> (\<forall>c. count A c \<le> 1) \<and> a \<notin># A"
    by (auto simp: not_in_iff intro: le_SucI split: if_splits)
  then show ?thesis by (auto simp: tasks_ok_def inj_on_def)
qed

subsection \<open>The index\<close>

text \<open>The index maps exactly the live tasks of \<open>R\<close>.\<close>

definition index_ok :: "cancel_index \<Rightarrow> store \<Rightarrow> addr set \<Rightarrow> bool" where
  "index_ok idx st R \<longleftrightarrow> index_wf idx \<and>
     (\<forall>t a. valid_id t \<longrightarrow> index_map idx t = Some a \<longleftrightarrow> a \<in> R \<and> \<not> gone st a \<and> tid st a = t)"

lemma index_ok_cong:
  assumes "index_ok idx st R" "\<And>a. a \<in> R \<Longrightarrow> tid st' a = tid st a \<and> gone st' a = gone st a" "R' = R"
  shows "index_ok idx st' R'"
  using assms by (auto simp: index_ok_def)

lemma index_ok_None:
  assumes "index_ok idx st R" "valid_id t"
  shows "index_map idx t = None \<longleftrightarrow> (\<forall>a\<in>R. gone st a \<or> tid st a \<noteq> t)"
proof -
  have "index_map idx t = Some a \<longleftrightarrow> a \<in> R \<and> \<not> gone st a \<and> tid st a = t" for a
    using assms by (simp add: index_ok_def)
  then show ?thesis by (metis not_None_eq)
qed

lemma option_eqI: "(\<And>a. x = Some a \<longleftrightarrow> y = Some a) \<Longrightarrow> x = y"
  by (metis not_Some_eq)

lemma index_ok_room:
  assumes ok: "index_ok idx st (set as)" and inj: "inj_on (tid st) (set as)" and v: "\<And>a. a \<in> set as \<Longrightarrow> valid_id (tid st a)"
    and len: "length as < length (cancel_slots idx)"
  shows "index_room idx"
proof (rule represents_room)
  let ?m = "map (\<lambda>a. (tid st a, a)) (filter (\<lambda>a. \<not> gone st a) as)"
  have "map_of ?m t = Some a \<longleftrightarrow> a \<in> set as \<and> \<not> gone st a \<and> tid st a = t" for t a
  proof
    assume "map_of ?m t = Some a"
    then show "a \<in> set as \<and> \<not> gone st a \<and> tid st a = t" by (auto dest: map_of_SomeD)
  next
    assume a: "a \<in> set as \<and> \<not> gone st a \<and> tid st a = t"
    then obtain b where b: "map_of ?m t = Some b"
      by (cases "map_of ?m t") (force simp: map_of_eq_None_iff)+
    then have "b \<in> set as \<and> tid st b = t" by (auto dest: map_of_SomeD)
    then have "b = a" using a inj by (auto simp: inj_on_def)
    then show "map_of ?m t = Some a" using b by simp
  qed
  then have "index_map idx t = map_of ?m t" if "valid_id t" for t
    using ok that by (intro option_eqI) (simp add: index_ok_def)
  then show "represents idx (length (cancel_slots idx)) ?m" using ok by (simp add: represents_def index_ok_def)
  show "length ?m < length (cancel_slots idx)" using len by (simp add: le_less_trans [OF length_filter_le])
qed

lemma index_ok_insert:
  assumes ok: "index_ok idx st R" and a: "a \<notin> R" "\<not> gone st a" "valid_id (tid st a)" and inj: "inj_on (tid st) (insert a R)"
    and room: "index_room idx"
  shows "index_ok (cancel_index_insert idx a (st a)) st (insert a R)"
proof -
  have wf: "index_wf idx" using ok by (simp add: index_ok_def)
  have "index_map idx (tid st a) = None" unfolding index_ok_None [OF ok a(3)] using a(1) inj by (auto simp: inj_on_def)
  note ins = insert_is_update [OF wf a(3) this room]
  have "index_map (cancel_index_insert idx a (st a)) t = Some b \<longleftrightarrow> b \<in> insert a R \<and> \<not> gone st b \<and> tid st b = t"
    if t: "valid_id t" for t b
  proof (cases "t = tid st a")
    case True
    then show ?thesis using ins(2) [OF t] a inj by (auto simp: inj_on_def)
  next
    case False
    then show ?thesis using ins(2) [OF t] ok t by (auto simp: index_ok_def)
  qed
  then show ?thesis using ins(1) [of a] by (simp add: index_ok_def)
qed

lemma index_ok_remove:
  assumes ok: "index_ok idx st R" and v: "valid_id (tid st a)" and inj: "inj_on (tid st) (insert a R)"
  shows "index_ok (cancel_index_remove idx (tid st a)) st (R - {a})"
proof -
  have wf: "index_wf idx" using ok by (simp add: index_ok_def)
  note del = remove_is_delete [OF wf v]
  have "index_map (cancel_index_remove idx (tid st a)) t = Some b \<longleftrightarrow> b \<in> R - {a} \<and> \<not> gone st b \<and> tid st b = t"
    if t: "valid_id t" for t b
  proof (cases "t = tid st a")
    case True
    then show ?thesis using del [of t] t inj by (auto simp: inj_on_def)
  next
    case False
    then show ?thesis using del [of t] ok t by (auto simp: index_ok_def)
  qed
  then show ?thesis using del by (simp add: index_ok_def)
qed

lemma index_ok_claim:
  assumes ok: "index_ok idx st R" and a: "a \<in> R" "\<not> gone st a" "valid_id (tid st a)" and inj: "inj_on (tid st) R"
    and c: "cancel_index_claim idx (tid st a) = (won, idx')"
  shows "won \<and> index_ok idx' (st(a := (st a)\<lparr>tk_cancelled := True\<rparr>)) R"
proof -
  have wf: "index_wf idx" using ok by (simp add: index_ok_def)
  have m: "index_map idx (tid st a) = Some a" using ok a by (simp add: index_ok_def)
  note del = claim_is_delete [OF wf a(3) c]
  have "index_map idx' t = Some b \<longleftrightarrow> b \<in> R \<and> \<not> gone (st(a := (st a)\<lparr>tk_cancelled := True\<rparr>)) b \<and>
      tid (st(a := (st a)\<lparr>tk_cancelled := True\<rparr>)) b = t" if t: "valid_id t" for t b
  proof (cases "t = tid st a")
    case True
    then show ?thesis using del t a inj by (auto simp: inj_on_def)
  next
    case False
    then show ?thesis using del ok t by (auto simp: index_ok_def)
  qed
  then show ?thesis using del m by (simp add: index_ok_def)
qed


subsection \<open>The deques\<close>

definition deque_at :: "nat \<Rightarrow> work_deque \<Rightarrow> addr list \<Rightarrow> bool" where
  "deque_at N d zs \<longleftrightarrow> deque_wf d \<and> dq_capacity d = 256 \<and> deque_list d = zs \<and> unat (dq_bottom d) \<le> N"

definition deques_ok :: "nat \<Rightarrow> u64 \<Rightarrow> work_deque list \<Rightarrow> addr list list \<Rightarrow> bool" where
  "deques_ok N tot ds zss \<longleftrightarrow> list_all2 (deque_at N) ds zss \<and> tot = of_nat (length (concat zss))"

lemma concat_update:
  assumes "i < length zss" "mset (zss ! i) + A = mset zs + B"
  shows "mset (concat zss) + A = mset (concat (zss[i := zs])) + B"
proof -
  have "concat zss = concat (take i zss) @ zss ! i @ concat (drop (Suc i) zss)"
    using arg_cong [OF id_take_nth_drop [OF assms(1)], of concat] by simp
  moreover have "concat (zss[i := zs]) = concat (take i zss) @ zs @ concat (drop (Suc i) zss)"
    by (simp add: upd_conv_take_nth_drop assms(1))
  ultimately show ?thesis using assms(2) by (simp add: ac_simps)
qed

lemma deques_ok_length: "deques_ok N tot ds zss \<Longrightarrow> length ds = length zss"
  by (auto simp: deques_ok_def dest: list_all2_lengthD)

lemma deque_at_mono: "deque_at N d zs \<Longrightarrow> N \<le> N' \<Longrightarrow> deque_at N' d zs"
  by (simp add: deque_at_def)

lemma deques_ok_mono: "deques_ok N tot ds zss \<Longrightarrow> N \<le> N' \<Longrightarrow> deques_ok N' tot ds zss"
  by (auto simp: deques_ok_def intro: list_all2_mono deque_at_mono)

lemma deques_ok_update:
  assumes "deques_ok N tot ds zss" "i < length ds" "deque_at N d zs"
    "tot' + of_nat (length (zss ! i)) = tot + of_nat (length zs)"
  shows "deques_ok N tot' (ds[i := d]) (zss[i := zs])"
proof -
  have i: "i < length zss" using assms(2) deques_ok_length [OF assms(1)] by simp
  have "size (mset (concat zss) + mset zs) = size (mset (concat (zss[i := zs])) + mset (zss ! i))"
    by (simp only: concat_update [OF i, of "mset zs" zs "mset (zss ! i)", OF union_commute])
  then have l: "length (concat zss) + length zs = length (concat (zss[i := zs])) + length (zss ! i)" by simp
  have "tot' + of_nat (length (zss ! i)) = of_nat (length (concat zss) + length zs)"
    using assms(1,4) by (simp add: deques_ok_def)
  then have "tot' = of_nat (length (concat (zss[i := zs])))" by (simp only: l of_nat_add add_right_cancel)
  then show ?thesis using assms by (simp add: deques_ok_def list_all2_update_cong)
qed

lemma deques_ok_at: "deques_ok N tot ds zss \<Longrightarrow> i < length ds \<Longrightarrow> deque_at N (ds ! i) (zss ! i)"
  by (auto simp: deques_ok_def dest: list_all2_nthD)

lemma deques_ok_bound:
  assumes "deques_ok N tot ds zss"
  shows "length (concat zss) \<le> 256 * length zss"
proof -
  have "length zs \<le> 256" if "zs \<in> set zss" for zs
  proof -
    obtain i where "i < length zss" "zss ! i = zs" using \<open>zs \<in> set zss\<close> by (auto simp: in_set_conv_nth)
    then have "deque_at N (ds ! i) zs" using deques_ok_at [OF assms] deques_ok_length [OF assms] by metis
    then show ?thesis using deque_wf_count [of "ds ! i"] by (simp add: deque_at_def)
  qed
  then have "sum_list (map length zss) \<le> sum_list (map (\<lambda>_. 256) zss)" by (intro sum_list_mono) auto
  then show ?thesis by (simp add: length_concat sum_list_triv mult.commute)
qed

lemma deques_pop:
  assumes ok: "deques_ok N tot ds zss" and i: "i < length ds"
  shows "if zss ! i = [] then deque_pop tot (ds ! i) = (None, tot, ds ! i)
         else \<exists>n d. deque_pop tot (ds ! i) = (Some (last (zss ! i)), n, d) \<and> deques_ok N n (ds[i := d]) (zss[i := butlast (zss ! i)])"
proof -
  have at: "deque_at N (ds ! i) (zss ! i)" by (rule deques_ok_at [OF ok i])
  then have wf: "deque_wf (ds ! i)" "deque_list (ds ! i) = zss ! i" by (simp_all add: deque_at_def)
  show ?thesis
  proof (cases "zss ! i = []")
    case False
    then obtain d where d: "deque_pop tot (ds ! i) = (Some (last (zss ! i)), tot - 1, d)" "deque_wf d"
      "deque_list d = butlast (zss ! i)" "dq_capacity d = dq_capacity (ds ! i)"
      using deque_pop_spec [OF wf(1), of tot] wf(2) by auto
    have "deque_at N d (butlast (zss ! i))"
      using deque_bottom_bound(2) [OF wf(1), of tot] d at by (simp add: deque_at_def)
    moreover have "(tot - 1) + of_nat (length (zss ! i)) = tot + of_nat (length (butlast (zss ! i)))"
      using False by (simp add: len_pred)
    ultimately show ?thesis using False d(1) deques_ok_update [OF ok i] by auto
  qed (use deque_pop_spec [OF wf(1), of tot] wf(2) in simp)
qed

lemma deques_steal:
  assumes ok: "deques_ok N tot ds zss" and i: "i < length ds"
  shows "if zss ! i = [] then deque_steal tot (ds ! i) = (None, tot, ds ! i)
         else \<exists>n d. deque_steal tot (ds ! i) = (Some (hd (zss ! i)), n, d) \<and> deques_ok N n (ds[i := d]) (zss[i := tl (zss ! i)])"
proof -
  have at: "deque_at N (ds ! i) (zss ! i)" by (rule deques_ok_at [OF ok i])
  then have wf: "deque_wf (ds ! i)" "deque_list (ds ! i) = zss ! i" by (simp_all add: deque_at_def)
  show ?thesis
  proof (cases "zss ! i = []")
    case False
    then obtain d where d: "deque_steal tot (ds ! i) = (Some (hd (zss ! i)), tot - 1, d)" "deque_wf d"
      "deque_list d = tl (zss ! i)" "dq_capacity d = dq_capacity (ds ! i)"
      using deque_steal_spec [OF wf(1), of tot] wf(2) by auto
    have "deque_at N d (tl (zss ! i))"
      using deque_bottom_bound(3) [of tot "ds ! i"] d at by (simp add: deque_at_def)
    moreover have "(tot - 1) + of_nat (length (zss ! i)) = tot + of_nat (length (tl (zss ! i)))"
      using False by (simp add: len_pred)
    ultimately show ?thesis using False d(1) deques_ok_update [OF ok i] by auto
  qed (use deque_steal_spec [OF wf(1), of tot] wf(2) in simp)
qed

lemma deques_push:
  assumes ok: "deques_ok N tot ds zss" and i: "i < length ds" and room: "length (zss ! i) < 256" and N: "N < 2 ^ 64 - 1"
  shows "\<exists>n d. deque_push tot (ds ! i) a = (True, n, d) \<and> deques_ok (Suc N) n (ds[i := d]) (zss[i := zss ! i @ [a]])"
proof -
  have at: "deque_at N (ds ! i) (zss ! i)" by (rule deques_ok_at [OF ok i])
  then have wf: "deque_wf (ds ! i)" "deque_list (ds ! i) = zss ! i" "dq_capacity (ds ! i) = 256" by (simp_all add: deque_at_def)
  have "unat (dq_bottom (ds ! i)) < 2 ^ 64 - 1" using at N by (simp add: deque_at_def)
  then have b: "dq_bottom (ds ! i) \<noteq> - 1" by (auto simp: unsigned_minus_1_eq_mask mask_eq_exp_minus_1)
  obtain d where d: "deque_push tot (ds ! i) a = (True, tot + 1, d)" "deque_wf d" "deque_list d = zss ! i @ [a]"
    "dq_capacity d = 256" using deque_push_spec [OF wf(1) b, of tot a] wf(2,3) room by (auto split: if_splits)
  have "deque_at (Suc N) d (zss ! i @ [a])"
    using deque_bottom_bound(1) [of tot "ds ! i" a] d at by (simp add: deque_at_def)
  moreover have "deques_ok (Suc N) tot ds zss" by (rule deques_ok_mono [OF ok]) simp
  moreover have "(tot + 1) + of_nat (length (zss ! i)) = tot + of_nat (length (zss ! i @ [a]))" by simp
  ultimately show ?thesis using d(1) deques_ok_update [OF _ i] by blast
qed


subsection \<open>The pool\<close>

definition unmarked :: "store \<Rightarrow> addr multiset \<Rightarrow> addr multiset" where
  "unmarked st A = filter_mset (\<lambda>a. \<not> gone st a) A"

text \<open>
  \<open>xs\<close> are the nodes of the lanes and \<open>M\<close> all others: a lane task is never marked, the others are
  marked or in the index, and \<open>queue_len\<close> counts the tasks that are not marked.
\<close>

definition nodes_ok :: "pool \<Rightarrow> addr list \<Rightarrow> addr multiset \<Rightarrow> bool" where
  "nodes_ok p xs M \<longleftrightarrow>
     tasks_ok (pl_store p) (pl_next_task_id p) (mset xs + M) \<and> (\<forall>a\<in>set xs. \<not> gone (pl_store p) a) \<and>
     index_ok (pl_index p) (pl_store p) (set_mset M) \<and>
     pl_queue_len p = of_nat (length xs + size (unmarked (pl_store p) M))"

definition ring_ok :: "pool \<Rightarrow> addr list \<Rightarrow> bool" where
  "ring_ok p ys \<longleftrightarrow> (\<exists>r. pl_ring p = Some r \<and> ring_repr r ys \<and>
     length (ring_cells r) + 256 * pl_worker_count p \<le> length (cancel_slots (pl_index p)))"

definition pool_deques_ok :: "nat \<Rightarrow> pool \<Rightarrow> addr list list \<Rightarrow> bool" where
  "pool_deques_ok N p zss \<longleftrightarrow> length zss = pl_worker_count p \<and>
     (\<exists>ds. pl_deques p = Some ds \<and> deques_ok N (pl_deque_total p) ds zss)"

text \<open>\<open>hs\<close> are nodes a worker has taken and not yet dealt with.\<close>

definition pool_ok :: "nat \<Rightarrow> pool \<Rightarrow> addr list \<Rightarrow> addr list \<Rightarrow> addr list list \<Rightarrow> addr multiset \<Rightarrow> bool" where
  "pool_ok N p xs ys zss hs \<longleftrightarrow>
     lane_repr (pl_store p) (pl_lanes p) xs \<and> ring_ok p ys \<and> pool_deques_ok N p zss \<and>
     nodes_ok p xs (mset ys + mset (concat zss) + hs) \<and> timer_len (ts_timer (pl_side p)) = 0"

lemmas pool_ok_defs = pool_ok_def nodes_ok_def ring_ok_def pool_deques_ok_def

text \<open>Steps that only log, count posts or touch futures.\<close>

definition core :: "pool \<Rightarrow> pool" where
  "core p = p\<lparr>pl_log := [], pl_future := (\<lambda>_. future_new), pl_ctx_future := (\<lambda>_. 0), pl_active_workers := 0,
     pl_side := (pl_side p)\<lparr>ts_work_sem := 0\<rparr>, pl_bp_last_fire_ns := 0, pl_reclaim := []\<rparr>"

lemma core_step [simp]:
  "core (emit e p) = core p" "core (fire m p) = core p" "core (post_work p) = core p" "core (signal_space p) = core p"
  "core (pool_task_destroy a p) = core p" "core (mark_future_cancelled c p) = core p" "core (free_user_data t p) = core p"
  "core (fire_backpressure now ev p) = core p" "core (backpressure_hint now p) = core p"
  "core (p\<lparr>pl_active_workers := k\<rparr>) = core p" "core (p\<lparr>pl_future := fs\<rparr>) = core p" "core (p\<lparr>pl_ctx_future := cf\<rparr>) = core p"
  "core (p\<lparr>pl_reclaim := rs\<rparr>) = core p"
  by (simp_all add: core_def emit_def fire_def post_work_def signal_space_def pool_task_destroy_def
      mark_future_cancelled_def free_user_data_def fire_backpressure_def backpressure_hint_def Let_def)

lemma core_fields:
  assumes "core p = core q"
  shows "pl_store p = pl_store q" "pl_lanes p = pl_lanes q" "pl_queue_len p = pl_queue_len q" "pl_ring p = pl_ring q"
    "pl_index p = pl_index q" "pl_deques p = pl_deques q" "pl_deque_total p = pl_deque_total q"
    "pl_next_task_id p = pl_next_task_id q" "pl_worker_count p = pl_worker_count q" "pl_shutdown p = pl_shutdown q"
    "pl_draining p = pl_draining q" "pl_queue_capacity p = pl_queue_capacity q"
    "ts_timer (pl_side p) = ts_timer (pl_side q)"
proof -
  note f = arg_cong [OF assms]
  show "pl_store p = pl_store q" "pl_lanes p = pl_lanes q" "pl_queue_len p = pl_queue_len q" "pl_ring p = pl_ring q"
    "pl_index p = pl_index q" "pl_deques p = pl_deques q" "pl_deque_total p = pl_deque_total q"
    "pl_next_task_id p = pl_next_task_id q" "pl_worker_count p = pl_worker_count q" "pl_shutdown p = pl_shutdown q"
    "pl_draining p = pl_draining q" "pl_queue_capacity p = pl_queue_capacity q"
    "ts_timer (pl_side p) = ts_timer (pl_side q)"
    using f [of pl_store] f [of pl_lanes] f [of pl_queue_len] f [of pl_ring] f [of pl_index] f [of pl_deques]
      f [of pl_deque_total] f [of pl_next_task_id] f [of pl_worker_count] f [of pl_shutdown] f [of pl_draining] f [of pl_queue_capacity]
      f [of "ts_timer \<circ> pl_side"] by (simp_all add: core_def)
qed

lemma pool_ok_core: "core p = core q \<Longrightarrow> pool_ok N p xs ys zss hs = pool_ok N q xs ys zss hs"
  by (simp add: pool_ok_defs core_fields [of p q])

lemma pool_ok_mono: "pool_ok N p xs ys zss hs \<Longrightarrow> N \<le> N' \<Longrightarrow> pool_ok N' p xs ys zss hs"
  by (auto simp: pool_ok_def pool_deques_ok_def intro: deques_ok_mono)


lemma unmarked_cong: "(\<And>a. a \<in># A \<Longrightarrow> gone st' a = gone st a) \<Longrightarrow> unmarked st' A = unmarked st A"
  by (simp add: unmarked_def cong: filter_mset_cong)

lemma nodes_ok_frame:
  assumes "nodes_ok p xs M" "pl_index p' = pl_index p" "pl_queue_len p' = pl_queue_len p"
    "pl_next_task_id p \<le> pl_next_task_id p'"
    "\<And>a. a \<in> set xs \<or> a \<in># M \<Longrightarrow> tid (pl_store p') a = tid (pl_store p) a \<and>
       tk_is_coro (pl_store p' a) = tk_is_coro (pl_store p a) \<and> gone (pl_store p') a = gone (pl_store p) a"
  shows "nodes_ok p' xs M"
proof -
  note n = assms(1) [unfolded nodes_ok_def]
  have "tasks_ok (pl_store p') (pl_next_task_id p') (mset xs + M)"
    by (rule tasks_ok_mono [OF conjunct1 [OF n] _ assms(4)]) (simp_all add: assms(5))
  moreover have "index_ok (pl_index p') (pl_store p') (set_mset M)"
    unfolding assms(2) by (rule index_ok_cong [OF _ _ refl]) (simp_all add: n assms(5))
  moreover have "unmarked (pl_store p') M = unmarked (pl_store p) M" by (rule unmarked_cong) (simp add: assms(5))
  ultimately show ?thesis using n assms(3,5) by (simp add: nodes_ok_def)
qed

subsection \<open>Submission\<close>

definition new_task :: "u64 \<Rightarrow> u64 \<Rightarrow> u8 \<Rightarrow> bool \<Rightarrow> addr \<Rightarrow> pool \<Rightarrow> pool" where
  "new_task fn data priority free_data a p = set_task a (\<lambda>t. t\<lparr>tk_free_data := free_data\<rparr>)
     (p\<lparr>pl_next_task_id := pl_next_task_id p + 1,
        pl_store := (pl_store p)(a := task_init (pl_next_task_id p + 1) fn data priority)\<rparr>)"

lemma new_task_simps [simp]:
  "pl_lanes (new_task fn data pr fd a p) = pl_lanes p" "pl_queue_len (new_task fn data pr fd a p) = pl_queue_len p"
  "pl_ring (new_task fn data pr fd a p) = pl_ring p" "pl_index (new_task fn data pr fd a p) = pl_index p"
  "pl_deques (new_task fn data pr fd a p) = pl_deques p" "pl_deque_total (new_task fn data pr fd a p) = pl_deque_total p"
  "pl_worker_count (new_task fn data pr fd a p) = pl_worker_count p" "pl_side (new_task fn data pr fd a p) = pl_side p"
  "pl_next_task_id (new_task fn data pr fd a p) = pl_next_task_id p + 1"
  "pl_shutdown (new_task fn data pr fd a p) = pl_shutdown p" "pl_draining (new_task fn data pr fd a p) = pl_draining p"
  "pl_queue_capacity (new_task fn data pr fd a p) = pl_queue_capacity p"
  "b \<noteq> a \<Longrightarrow> pl_store (new_task fn data pr fd a p) b = pl_store p b"
  "tid (pl_store (new_task fn data pr fd a p)) a = pl_next_task_id p + 1" "\<not> gone (pl_store (new_task fn data pr fd a p)) a"
  "\<not> tk_is_coro (pl_store (new_task fn data pr fd a p) a)"
  by (simp_all add: new_task_def set_task_def task_init_def)

definition ids_left :: "pool \<Rightarrow> bool" where
  "ids_left p \<longleftrightarrow> unat (pl_next_task_id p) < 2 ^ 64 - 2"

lemma ids_left_next:
  assumes "ids_left p"
  shows "valid_id (pl_next_task_id p + 1)" "pl_next_task_id p < pl_next_task_id p + 1"
proof -
  have u: "unat (pl_next_task_id p + 1) = Suc (unat (pl_next_task_id p))"
    using assms by (simp add: ids_left_def unat_word_ariths)
  have "unat (- 1 :: u64) = 2 ^ 64 - 1" by (simp add: unsigned_minus_1_eq_mask mask_eq_exp_minus_1)
  then show "valid_id (pl_next_task_id p + 1)"
    using u assms unfolding valid_id_def ids_left_def by (auto simp: unat_arith_simps)
  show "pl_next_task_id p < pl_next_task_id p + 1" by (simp add: word_less_nat_alt u)
qed

lemma new_task_ok:
  assumes ok: "pool_ok N p xs ys zss hs" and a: "a \<notin> set xs" "a \<notin># mset ys + mset (concat zss) + hs" and i: "ids_left p"
    and q_def: "q = new_task fn data pr fd a p"
  shows "pool_ok N q xs ys zss hs \<and>
    tasks_ok (pl_store q) (pl_next_task_id q) (add_mset a (mset xs + (mset ys + mset (concat zss) + hs)))"
proof -
  define M where "M = mset ys + mset (concat zss) + hs"
  have aM: "a \<notin># M" using a(2) by (simp add: M_def)
  have same: "pl_store q b = pl_store p b" if "b \<in> set xs \<or> b \<in># M" for b
  proof -
    have "b \<noteq> a" using that a(1) aM by blast
    then show ?thesis by (simp add: q_def)
  qed
  have n: "nodes_ok p xs M" using ok by (simp add: pool_ok_def M_def)
  have n': "nodes_ok q xs M"
  proof (rule nodes_ok_frame [OF n])
    show "pl_next_task_id p \<le> pl_next_task_id q" using ids_left_next(2) [OF i] by (simp add: q_def)
  qed (simp_all add: q_def same [unfolded q_def])
  have "lane_repr (pl_store p) (pl_lanes p) xs" using ok by (simp add: pool_ok_def)
  then have l: "lane_repr (pl_store q) (pl_lanes q) xs" by (simp add: q_def) (erule lane_repr_frame, simp add: same [unfolded q_def])
  have r: "ring_ok q ys" "pool_deques_ok N q zss" "timer_len (ts_timer (pl_side q)) = 0"
    using ok by (simp_all add: pool_ok_def ring_ok_def pool_deques_ok_def q_def)
  have t: "tasks_ok (pl_store q) (pl_next_task_id q) (mset xs + M)" using n' by (simp add: nodes_ok_def)
  have "tid (pl_store q) b \<noteq> tid (pl_store q) a" if "b \<in> set xs \<or> b \<in># M" for b
  proof -
    have "tid (pl_store p) b \<le> pl_next_task_id p" using n that by (auto simp: nodes_ok_def tasks_ok_def)
    then show ?thesis using ids_left_next(2) [OF i] same [OF that] by (auto simp: q_def)
  qed
  then have "tasks_ok (pl_store q) (pl_next_task_id q) (add_mset a (mset xs + M))"
    using t a(1) aM ids_left_next(1) [OF i] by (simp add: tasks_ok_add q_def)
  then show ?thesis using n' l r by (simp add: pool_ok_def M_def [symmetric])
qed

text \<open>Two stores that agree on what the invariant reads of the nodes of \<open>A\<close>.\<close>

definition agree :: "store \<Rightarrow> store \<Rightarrow> addr multiset \<Rightarrow> bool" where
  "agree st st' A \<longleftrightarrow> (\<forall>a\<in>#A. tid st' a = tid st a \<and> tk_is_coro (st' a) = tk_is_coro (st a) \<and> gone st' a = gone st a)"

definition pend :: "store \<Rightarrow> addr multiset \<Rightarrow> u64 multiset" where
  "pend st A = image_mset (tid st) (unmarked st A)"

lemma agree_refl [simp]: "agree st st A" by (simp add: agree_def)

lemma agree_same: "same_data st st' \<Longrightarrow> agree st st' A"
  by (simp add: agree_def same_data_all)

lemma index_ok_agree: "agree st st' M \<Longrightarrow> index_ok idx st (set_mset M) \<Longrightarrow> index_ok idx st' (set_mset M)"
  by (erule index_ok_cong) (simp_all add: agree_def)

lemma pend_agree: "agree st st' A \<Longrightarrow> pend st' A = pend st A"
proof -
  assume a: "agree st st' A"
  have u: "unmarked st' A = unmarked st A" using a by (intro unmarked_cong) (simp add: agree_def)
  have "image_mset (tid st') (unmarked st A) = image_mset (tid st) (unmarked st A)"
    using a by (intro image_mset_cong) (simp add: agree_def unmarked_def)
  then show ?thesis by (simp add: pend_def u)
qed

lemma pend_add [simp]: "pend st (add_mset a A) = (if gone st a then pend st A else add_mset (tid st a) (pend st A))"
  by (simp add: pend_def unmarked_def)

lemma pend_union [simp]: "pend st (A + B) = pend st A + pend st B"
  by (simp add: pend_def unmarked_def)

lemma unmarked_union [simp]: "unmarked st (A + B) = unmarked st A + unmarked st B"
  by (simp add: unmarked_def)

lemma unmarked_add [simp]: "unmarked st (add_mset a A) = (if gone st a then unmarked st A else add_mset a (unmarked st A))"
  by (simp add: unmarked_def)

abbreviation others :: "addr list \<Rightarrow> addr list list \<Rightarrow> addr multiset \<Rightarrow> addr multiset" where
  "others ys zss hs \<equiv> mset ys + mset (concat zss) + hs"

abbreviation all_nodes :: "addr list \<Rightarrow> addr list \<Rightarrow> addr list list \<Rightarrow> addr multiset \<Rightarrow> addr multiset" where
  "all_nodes xs ys zss hs \<equiv> mset xs + others ys zss hs"

lemma pool_enqueue_fields [simp]:
  "pl_ring (pool_enqueue a p) = pl_ring p" "pl_index (pool_enqueue a p) = pl_index p"
  "pl_deques (pool_enqueue a p) = pl_deques p" "pl_deque_total (pool_enqueue a p) = pl_deque_total p"
  "pl_worker_count (pool_enqueue a p) = pl_worker_count p" "pl_side (pool_enqueue a p) = pl_side p"
  "pl_next_task_id (pool_enqueue a p) = pl_next_task_id p" "pl_log (pool_enqueue a p) = pl_log p"
  "pl_shutdown (pool_enqueue a p) = pl_shutdown p" "pl_draining (pool_enqueue a p) = pl_draining p"
  "pl_queue_capacity (pool_enqueue a p) = pl_queue_capacity p"
  by (simp_all add: pool_enqueue_def split: prod.split)

lemma pool_enqueue_ok:
  assumes ok: "pool_ok N p xs ys zss hs" and t: "tasks_ok (pl_store p) (pl_next_task_id p) (add_mset a (all_nodes xs ys zss hs))"
    and g: "\<not> gone (pl_store p) a"
  shows "pool_ok N (pool_enqueue a p) (xs @ [a]) ys zss hs \<and> same_data (pl_store p) (pl_store (pool_enqueue a p))"
proof -
  obtain st lq n where e: "loom_enqueue_unlocked (pl_store p) (pl_lanes p) (pl_queue_len p) a = (st, lq, n)"
    by (metis prod_cases3)
  define q where "q = pool_enqueue a p"
  have q: "pl_store q = st" "pl_lanes q = lq" "pl_queue_len q = n" by (simp_all add: q_def pool_enqueue_def e)
  have l: "lane_repr (pl_store p) (pl_lanes p) xs" using ok by (simp add: pool_ok_def)
  have "a \<notin> set xs" using t by (simp add: tasks_ok_add)
  then have r: "lane_repr st lq (xs @ [a])" "n = pl_queue_len p + 1" "same_data (pl_store p) st"
    using enqueue_repr [OF l _ e] by simp_all
  let ?M = "others ys zss hs"
  have n: "nodes_ok p xs ?M" using ok by (simp add: pool_ok_def)
  have "tasks_ok st (pl_next_task_id p) (mset (xs @ [a]) + ?M)"
    by (rule tasks_ok_mono [OF t]) (simp_all add: same_data_all [OF r(3)])
  moreover have "index_ok (pl_index p) st (set_mset ?M)"
    by (rule index_ok_agree [OF agree_same [OF r(3)]]) (use n in \<open>simp add: nodes_ok_def\<close>)
  moreover have "unmarked st ?M = unmarked (pl_store p) ?M" by (rule unmarked_cong) (simp add: same_data_all [OF r(3)])
  moreover have "\<not> gone st b" if "b \<in> set (xs @ [a])" for b
    using that n g by (auto simp: same_data_all [OF r(3)] nodes_ok_def)
  ultimately have "nodes_ok q (xs @ [a]) ?M"
    using n by (simp add: nodes_ok_def q r(2)) (simp add: q_def)
  moreover have "ring_ok q ys" "pool_deques_ok N q zss" "timer_len (ts_timer (pl_side q)) = 0"
    using ok by (simp_all add: pool_ok_def ring_ok_def pool_deques_ok_def q_def)
  ultimately show ?thesis using r(1,3) by (simp add: pool_ok_def q_def [symmetric] q)
qed

text \<open>The nodes handed out by the allocator and not handed back, read off the log.\<close>

definition use_event :: "addr set \<Rightarrow> pool_event \<Rightarrow> addr set" where
  "use_event U e = (case e of EvCreateNode a \<Rightarrow> insert a U | EvDestroyNode a \<Rightarrow> U - {a} | _ \<Rightarrow> U)"

definition in_use :: "pool \<Rightarrow> addr set" where
  "in_use p = foldl use_event {} (pl_log p)"

lemma in_use_emit: "in_use (emit e p) = use_event (in_use p) e"
  by (simp add: in_use_def emit_def)

lemma in_use_log: "pl_log p = pl_log q \<Longrightarrow> in_use p = in_use q"
  by (simp add: in_use_def)

lemma in_use_step [simp]:
  "in_use (fire m p) = in_use p" "in_use (post_work p) = in_use p" "in_use (signal_space p) = in_use p"
  "in_use (pool_task_destroy a p) = in_use p - {a}" "in_use (mark_future_cancelled c p) = in_use p"
  "in_use (free_user_data t p) = in_use p" "in_use (fire_backpressure now ev p) = in_use p"
  "in_use (backpressure_hint now p) = in_use p" "in_use (pool_enqueue a p) = in_use p"
  "in_use (p\<lparr>pl_index := idx\<rparr>) = in_use p" "in_use (p\<lparr>pl_queue_len := n\<rparr>) = in_use p"
  "in_use (p\<lparr>pl_ring := r\<rparr>) = in_use p" "in_use (p\<lparr>pl_active_workers := k\<rparr>) = in_use p"
  "in_use (set_task a f p) = in_use p" "in_use (p\<lparr>pl_reclaim := rs\<rparr>) = in_use p"
proof -
  have fb: "in_use (fire_backpressure now ev p) = in_use p" for ev
    by (simp add: fire_backpressure_def in_use_emit use_event_def Let_def) (simp add: in_use_def)
  show "in_use (fire m p) = in_use p" "in_use (signal_space p) = in_use p" "in_use (pool_task_destroy a p) = in_use p - {a}"
    "in_use (free_user_data t p) = in_use p"
    by (simp_all add: fire_def signal_space_def pool_task_destroy_def free_user_data_def in_use_emit use_event_def)
  show "in_use (fire_backpressure now ev p) = in_use p" "in_use (backpressure_hint now p) = in_use p"
    using fb by (simp_all add: backpressure_hint_def)
qed (simp_all add: in_use_def post_work_def mark_future_cancelled_def set_task_def Let_def)

lemma create_task:
  assumes "pool_task_create node fn data pr p = Some (a, q)"
  shows "node = Some a" "core (set_task a (\<lambda>t. t\<lparr>tk_free_data := fd\<rparr>) q) = core (new_task fn data pr fd a p)"
    "in_use q = insert a (in_use p)"
  using assms by (auto simp: pool_task_create_def new_task_def set_task_def emit_def core_def Let_def in_use_def use_event_def
      split: option.splits)

text \<open>
  What a submission leaves behind: on success the new node is queued with the id returned, otherwise
  everything is as before.
\<close>

definition submit_post ::
    "nat \<Rightarrow> pool \<Rightarrow> addr list \<Rightarrow> addr list \<Rightarrow> addr list list \<Rightarrow> ptr \<Rightarrow> submit_result \<Rightarrow> pool \<Rightarrow> bool" where
  "submit_post N p xs ys zss node r q \<longleftrightarrow>
     agree (pl_store p) (pl_store q) (all_nodes xs ys zss {#}) \<and>
     unat (pl_next_task_id q) \<le> Suc (unat (pl_next_task_id p)) \<and> pl_next_task_id p \<le> pl_next_task_id q \<and>
     (if fst r = LOOMWORKS_OK then
        (\<exists>a xs' ys'. node = Some a \<and> pool_ok N q xs' ys' zss {#} \<and>
           all_nodes xs' ys' zss {#} = add_mset a (all_nodes xs ys zss {#}) \<and>
           \<not> gone (pl_store q) a \<and> tid (pl_store q) a = snd r \<and> in_use q = insert a (in_use p) \<and>
           snd r = pl_next_task_id p + 1 \<and> pl_next_task_id q = pl_next_task_id p + 1)
      else pool_ok N q xs ys zss {#} \<and> in_use q = in_use p)"

lemma submit_post_core:
  assumes "core p' = core p" "in_use p' = in_use p" "submit_post N p' xs ys zss node r q"
  shows "submit_post N p xs ys zss node r q"
  using assms(3) unfolding submit_post_def core_fields [OF assms(1)] assms(2) .

lemma submit_post_same:
  assumes "pool_ok N p xs ys zss {#}" "fst r \<noteq> LOOMWORKS_OK" "core q = core p" "in_use q = in_use p"
  shows "submit_post N p xs ys zss node r q"
  using assms by (simp add: submit_post_def core_fields [OF assms(3)] pool_ok_core [OF assms(3)])

lemma created_ok:
  assumes ok: "pool_ok N p xs ys zss {#}" and i: "ids_left p" and c: "pool_task_create node fn data pr p = Some (a, q)"
    and a: "a \<notin># all_nodes xs ys zss {#}" and q'_def: "q' = set_task a (\<lambda>t. t\<lparr>tk_free_data := fd\<rparr>) q"
  shows "pool_ok N q' xs ys zss {#}" "tasks_ok (pl_store q') (pl_next_task_id q') (add_mset a (all_nodes xs ys zss {#}))"
    "\<not> gone (pl_store q') a" "tid (pl_store q') a = pl_next_task_id p + 1"
    "agree (pl_store p) (pl_store q') (all_nodes xs ys zss {#})" "pl_next_task_id q' = pl_next_task_id p + 1"
proof -
  note n = create_task(2) [OF c, of fd, folded q'_def]
  note f = core_fields [OF n]
  have "a \<notin> set xs" "a \<notin># others ys zss {#}" using a by simp_all
  note nt = new_task_ok [OF ok this i refl, of fn data pr fd]
  show "pool_ok N q' xs ys zss {#}" "tasks_ok (pl_store q') (pl_next_task_id q') (add_mset a (all_nodes xs ys zss {#}))"
    using nt unfolding f(1,8) pool_ok_core [OF n] by blast+
  have "pl_store q' b = pl_store p b" if "b \<in># all_nodes xs ys zss {#}" for b
  proof -
    have "b \<noteq> a" using that a by metis
    then show ?thesis by (simp add: f)
  qed
  then show "agree (pl_store p) (pl_store q') (all_nodes xs ys zss {#})" unfolding agree_def by metis
  show "\<not> gone (pl_store q') a" "tid (pl_store q') a = pl_next_task_id p + 1" "pl_next_task_id q' = pl_next_task_id p + 1"
    by (simp_all add: f)
qed

lemma agree_trans: "agree st st1 A \<Longrightarrow> agree st1 st2 A \<Longrightarrow> agree st st2 A"
  by (simp add: agree_def)

lemma next_le: "unat (n + 1 :: u64) \<le> Suc (unat n)"
  by (simp add: unat_word_ariths)

lemma lane_submitted:
  assumes ok: "pool_ok N p xs ys zss {#}" and i: "ids_left p" and c: "pool_task_create node fn data pr p = Some (a, q)"
    and a: "a \<notin># all_nodes xs ys zss {#}" and q': "q' = set_task a (\<lambda>t. t\<lparr>tk_free_data := fd\<rparr>) q"
    and e: "core e = core (pool_enqueue a q')" "in_use e = insert a (in_use p)"
  shows "submit_post N p xs ys zss node (LOOMWORKS_OK, tid (pl_store q') a) e"
proof -
  note cr = created_ok [OF ok i c a q']
  have eq: "pool_ok N (pool_enqueue a q') (xs @ [a]) ys zss {#}" "same_data (pl_store q') (pl_store (pool_enqueue a q'))"
    using pool_enqueue_ok [OF cr(1,2,3)] by simp_all
  have s: "agree (pl_store p) (pl_store e) (all_nodes xs ys zss {#})"
    unfolding core_fields [OF e(1)] by (rule agree_trans [OF cr(5) agree_same [OF eq(2)]])
  have "pool_ok N e (xs @ [a]) ys zss {#}" using eq(1) by (simp only: pool_ok_core [OF e(1)])
  moreover have "\<not> gone (pl_store e) a" "tid (pl_store e) a = tid (pl_store q') a"
    using cr(3) by (simp_all add: core_fields [OF e(1)] same_data_all [OF eq(2)])
  moreover have "unat (pl_next_task_id e) \<le> Suc (unat (pl_next_task_id p))" "pl_next_task_id p \<le> pl_next_task_id e"
    "pl_next_task_id e = pl_next_task_id p + 1"
    using ids_left_next(2) [OF i] by (simp_all add: core_fields [OF e(1)] cr(6) next_le)
  moreover have "all_nodes (xs @ [a]) ys zss {#} = add_mset a (all_nodes xs ys zss {#})" by simp
  ultimately show ?thesis
    unfolding submit_post_def fst_conv snd_conv if_P [OF refl] using s e(2) create_task(1) [OF c] cr(4) by blast
qed

lemma enqueue_lane_task_ok:
  assumes ok: "pool_ok N p xs ys zss {#}" and i: "ids_left p" and a: "\<And>a. node = Some a \<Longrightarrow> a \<notin># all_nodes xs ys zss {#}"
    and e: "enqueue_lane_task node fn data pr fd p = (r, q)"
  shows "submit_post N p xs ys zss node r q"
proof (cases "pl_shutdown p \<or> pl_draining p \<or> queue_full p")
  case True
  then have "fst r \<noteq> LOOMWORKS_OK \<and> q = p" using e by (auto simp: enqueue_lane_task_def split: if_splits)
  then show ?thesis using submit_post_same [OF ok] by simp
next
  case False
  show ?thesis
  proof (cases "pool_task_create node fn data pr p")
    case None
    then have "fst r \<noteq> LOOMWORKS_OK" "q = p" using e False by (auto simp: enqueue_lane_task_def)
    then show ?thesis using submit_post_same [OF ok] by simp
  next
    case (Some bq)
    then obtain b q0 where c: "pool_task_create node fn data pr p = Some (b, q0)" by (cases bq) simp
    define q' where "q' = set_task b (\<lambda>t. t\<lparr>tk_free_data := fd\<rparr>) q0"
    have b: "b \<notin># all_nodes xs ys zss {#}" using a create_task(1) [OF c] by simp
    have sd: "tid (pl_store (pool_enqueue b q')) b = tid (pl_store q') b"
      using pool_enqueue_ok [OF created_ok(1,2,3) [OF ok i c b q'_def]] by (simp add: same_data_all)
    have rq: "r = (LOOMWORKS_OK, tid (pl_store q') b)" "q = fire METRIC_SUBMITTED (post_work (pool_enqueue b q'))"
      using e False sd by (simp_all add: enqueue_lane_task_def c Let_def q'_def [symmetric])
    show ?thesis unfolding rq
      by (rule lane_submitted [OF ok i c b q'_def]) (simp_all add: q'_def create_task(3) [OF c])
  qed
qed

lemma ring_insert_ok:
  assumes ok: "pool_ok N p xs ys zss {#}" and t: "tasks_ok (pl_store p) (pl_next_task_id p) (add_mset a (all_nodes xs ys zss {#}))"
    and g: "\<not> gone (pl_store p) a" and r: "pl_ring p = Some r"
    and e: "ring_try_enqueue r (pl_index p) a (pl_store p a) = (True, r', idx)"
  shows "pool_ok N (p\<lparr>pl_queue_len := pl_queue_len p + 1, pl_ring := Some r', pl_index := idx\<rparr>) xs (ys @ [a]) zss {#}"
proof -
  let ?M = "others ys zss {#}" and ?st = "pl_store p"
  obtain H where at: "ring_at r H ys" and len: "length (ring_cells r) + 256 * pl_worker_count p \<le> length (cancel_slots (pl_index p))"
    using ok r by (auto simp: pool_ok_def ring_ok_def ring_repr_def)
  have es: "length ys \<noteq> length (ring_cells r) \<and> idx = cancel_index_insert (pl_index p) a (?st a) \<and>
    ring_at r' H (ys @ [a]) \<and> length (ring_cells r') = length (ring_cells r)"
    using enqueue_spec [OF at, of "pl_index p" a "?st a"] e by (auto split: if_splits)
  have le: "length ys \<le> length (ring_cells r)" using at by (simp add: ring_at_def)
  have n: "nodes_ok p xs ?M" using ok by (simp add: pool_ok_def)
  have "length (concat zss) \<le> 256 * pl_worker_count p"
    using ok deques_ok_bound by (auto simp: pool_ok_def pool_deques_ok_def) metis
  then have room: "length (ys @ concat zss) < length (cancel_slots (pl_index p))" using es le len by simp
  have inj: "inj_on (tid ?st) (insert a (set (ys @ concat zss)))" and v: "\<And>b. b \<in> set (ys @ concat zss) \<Longrightarrow> valid_id (tid ?st b)"
    using t by (auto simp: tasks_ok_def inj_on_def)
  have a: "a \<notin> set (ys @ concat zss)" "valid_id (tid ?st a)" using t by (simp_all add: tasks_ok_add)
  have io: "index_ok (pl_index p) ?st (set (ys @ concat zss))" using n by (simp add: nodes_ok_def)
  have "index_room (pl_index p)" by (rule index_ok_room [OF io inj_on_subset [OF inj] v room]) auto
  then have "index_ok idx ?st (insert a (set (ys @ concat zss)))" using es index_ok_insert [OF io a(1) g a(2) inj] by simp
  then have i: "index_ok idx ?st (set_mset (others (ys @ [a]) zss {#}))" by (simp add: Un_commute)
  have "nodes_ok (p\<lparr>pl_queue_len := pl_queue_len p + 1, pl_ring := Some r', pl_index := idx\<rparr>) xs (others (ys @ [a]) zss {#})"
    using n t i g by (simp add: nodes_ok_def ac_simps)
  moreover have "length (cancel_slots idx) = length (cancel_slots (pl_index p))" using es by (simp add: slots_length)
  ultimately show ?thesis using ok es len by (auto simp: pool_ok_def ring_ok_def pool_deques_ok_def ring_repr_def)
qed

lemma ring_submitted:
  assumes ok: "pool_ok N p xs ys zss {#}" and i: "ids_left p" and c: "pool_task_create node fn data pr p = Some (a, q)"
    and a: "a \<notin># all_nodes xs ys zss {#}" and q': "q' = set_task a (\<lambda>t. t\<lparr>tk_free_data := fd\<rparr>) q"
    and r: "pl_ring p = Some r" and t: "ring_try_enqueue r (pl_index p) a (pl_store q' a) = (True, r', idx)"
    and e: "core e = core (q'\<lparr>pl_queue_len := pl_queue_len p + 1, pl_ring := Some r', pl_index := idx\<rparr>)"
      "in_use e = insert a (in_use p)"
  shows "submit_post N p xs ys zss node (LOOMWORKS_OK, tid (pl_store q') a) e"
proof -
  note cr = created_ok [OF ok i c a q']
  note n = core_fields [OF create_task(2) [OF c, of fd, folded q']]
  have "pool_ok N e xs (ys @ [a]) zss {#}"
    using ring_insert_ok [OF cr(1,2,3), of r r' idx] r t by (simp add: pool_ok_core [OF e(1)] n)
  moreover have "\<not> gone (pl_store e) a" "tid (pl_store e) a = tid (pl_store q') a"
    using cr(3) by (simp_all add: core_fields [OF e(1)])
  moreover have "unat (pl_next_task_id e) \<le> Suc (unat (pl_next_task_id p))" "pl_next_task_id p \<le> pl_next_task_id e"
    "pl_next_task_id e = pl_next_task_id p + 1"
    using ids_left_next(2) [OF i] by (simp_all add: core_fields [OF e(1)] cr(6) next_le)
  moreover have "all_nodes xs (ys @ [a]) zss {#} = add_mset a (all_nodes xs ys zss {#})" by simp
  moreover have "agree (pl_store p) (pl_store e) (all_nodes xs ys zss {#})" using cr(5) by (simp add: core_fields [OF e(1)])
  ultimately show ?thesis
    unfolding submit_post_def fst_conv snd_conv if_P [OF refl] using e(2) create_task(1) [OF c] cr(4) by blast
qed

lemma spill_submitted:
  assumes ok: "pool_ok N p xs ys zss {#}" and i: "ids_left p" and c: "pool_task_create node fn data pr p = Some (a, q)"
    and a: "a \<notin># all_nodes xs ys zss {#}" "a \<notin> in_use p" and q': "q' = set_task a (\<lambda>t. t\<lparr>tk_free_data := fd\<rparr>) q"
    and e: "spill_to_normal_lane a q' = (res, e)"
  shows "submit_post N p xs ys zss node res e"
proof -
  have u: "in_use q' = insert a (in_use p)" by (simp add: q' create_task(3) [OF c])
  note cr = created_ok [OF ok i c a(1) q']
  show ?thesis
  proof (cases "pl_shutdown q' \<or> pl_draining q' \<or> queue_full q'")
    case True
    then have ee: "fst res \<noteq> LOOMWORKS_OK" "e = pool_task_destroy a q'"
      using e by (auto simp: spill_to_normal_lane_def Let_def split: if_splits)
    have s: "core e = core q'" by (simp add: ee(2))
    have "in_use e = in_use p" using a(2) by (simp add: ee(2) u)
    moreover have "pool_ok N e xs ys zss {#}" using cr(1) by (simp only: pool_ok_core [OF s])
    moreover have "agree (pl_store p) (pl_store e) (all_nodes xs ys zss {#})" using cr(5) by (simp add: core_fields [OF s])
    moreover have "unat (pl_next_task_id e) \<le> Suc (unat (pl_next_task_id p))" "pl_next_task_id p \<le> pl_next_task_id e"
      using ids_left_next(2) [OF i] by (simp_all add: core_fields [OF s] cr(6) next_le)
    ultimately show ?thesis using ee(1) by (simp add: submit_post_def)
  next
    case False
    then have r: "res = (LOOMWORKS_OK, tid (pl_store q') a)" "e = fire METRIC_SUBMITTED (post_work (pool_enqueue a q'))"
      using e by (simp_all add: spill_to_normal_lane_def Let_def)
    show ?thesis unfolding r by (rule lane_submitted [OF ok i c a(1) q']) (simp_all add: u)
  qed
qed

lemma enqueue_ring_task_ok:
  assumes ok: "pool_ok N p xs ys zss {#}" and i: "ids_left p" and r: "pl_ring p = Some r"
    and a: "\<And>a. node = Some a \<Longrightarrow> a \<notin># all_nodes xs ys zss {#} \<and> a \<notin> in_use p"
    and e: "enqueue_ring_task r node fn data pr fd p = (res, q)"
  shows "submit_post N p xs ys zss node res q"
proof (cases "pool_task_create node fn data pr p")
  case None
  then have "fst res \<noteq> LOOMWORKS_OK \<and> q = p" using e by (auto simp: enqueue_ring_task_def)
  then show ?thesis using submit_post_same [OF ok] by simp
next
  case (Some bq)
  then obtain b q0 where c: "pool_task_create node fn data pr p = Some (b, q0)" by (cases bq) simp
  define q' where "q' = set_task b (\<lambda>t. t\<lparr>tk_free_data := fd\<rparr>) q0"
  have b: "b \<notin># all_nodes xs ys zss {#}" "b \<notin> in_use p" using a create_task(1) [OF c] by simp_all
  note n = core_fields [OF create_task(2) [OF c, of fd, folded q'_def]]
  obtain won r' idx where t: "ring_try_enqueue r (pl_index p) b (pl_store q' b) = (won, r', idx)" by (metis prod_cases3)
  have f: "pl_queue_len q' = pl_queue_len p" "pl_index q' = pl_index p" by (simp_all add: n)
  show ?thesis
  proof (cases won)
    case True
    then have rq: "res = (LOOMWORKS_OK, tid (pl_store q') b)"
      "q = fire METRIC_SUBMITTED (post_work (q'\<lparr>pl_queue_len := pl_queue_len p + 1, pl_ring := Some r', pl_index := idx\<rparr>))"
      using e t by (simp_all add: enqueue_ring_task_def c Let_def q'_def [symmetric] f)
    show ?thesis unfolding rq
      by (rule ring_submitted [OF ok i c b(1) q'_def r]) (use t True in \<open>simp_all add: in_use_def q'_def\<close>,
          use create_task(3) [OF c] in \<open>simp add: in_use_def set_task_def post_work_def fire_def emit_def use_event_def\<close>)
  next
    case False
    have z: "q'\<lparr>pl_queue_len := pl_queue_len p\<rparr> = q'" by (simp add: f(1) [symmetric])
    have "spill_to_normal_lane b (q'\<lparr>pl_queue_len := pl_queue_len p\<rparr>) = (res, q)"
      using e t False by (simp add: enqueue_ring_task_def c Let_def q'_def [symmetric] f)
    then have "spill_to_normal_lane b q' = (res, q)" by (simp only: z)
    then show ?thesis by (rule spill_submitted [OF ok i c b q'_def])
  qed
qed

lemma enqueue_route_ok:
  assumes ok: "pool_ok N p xs ys zss {#}" and i: "ids_left p"
    and a: "\<And>a. node = Some a \<Longrightarrow> a \<notin># all_nodes xs ys zss {#} \<and> a \<notin> in_use p"
    and e: "enqueue_route node fn data pr fd p = (res, q)"
  shows "submit_post N p xs ys zss node res q"
proof -
  obtain r where r: "pl_ring p = Some r" using ok by (auto simp: pool_ok_def ring_ok_def)
  show ?thesis
  proof (cases "pr = LOOMWORKS_PRIORITY_NORMAL \<and> pl_deques p \<noteq> None")
    case True
    then have "enqueue_ring_task r node fn data pr fd p = (res, q)" using e r by (simp add: enqueue_route_def)
    then show ?thesis using enqueue_ring_task_ok [OF ok i r] a by blast
  next
    case False
    then have "enqueue_lane_task node fn data pr fd p = (res, q)" using e r by (auto simp: enqueue_route_def)
    then show ?thesis using enqueue_lane_task_ok [OF ok i] a by blast
  qed
qed

text \<open>Submission without blocking: always an answer, and the postcondition above.\<close>

lemma enqueue_task_ok:
  assumes ok: "pool_ok N p xs ys zss {#}" and i: "ids_left p"
    and a: "\<And>a. node = Some a \<Longrightarrow> a \<notin># all_nodes xs ys zss {#} \<and> a \<notin> in_use p"
  shows "\<exists>res q. enqueue_task now node fn data pr fd None p = Some (res, q) \<and> submit_post N p xs ys zss node res q"
proof (cases "pl_shutdown p \<or> queue_full p")
  case True
  then show ?thesis using submit_post_same [OF ok] by (auto simp: enqueue_task_def)
next
  case False
  define h where "h = backpressure_hint now p"
  have s: "core h = core p" "in_use h = in_use p" by (simp_all add: h_def)
  obtain res q where e: "enqueue_route node fn data pr fd h = (res, q)" by fastforce
  have "pool_ok N h xs ys zss {#}" using ok by (simp only: pool_ok_core [OF s(1)])
  moreover have "ids_left h" using i by (simp add: ids_left_def core_fields [OF s(1)])
  ultimately have "submit_post N h xs ys zss node res q" using enqueue_route_ok [OF _ _ _ e] a s(2) by metis
  then have "submit_post N p xs ys zss node res q" by (rule submit_post_core [OF s])
  then show ?thesis using False e by (simp add: enqueue_task_def h_def [symmetric])
qed

subsection \<open>Taking a task out of the lanes\<close>

lemma lanes_shrunk:
  assumes ok: "pool_ok N p xs ys zss hs" and l: "lane_repr st lq xs'" and s: "same_data (pl_store p) st"
    and sub: "mset xs' \<subseteq># mset xs" and n: "n = pl_queue_len p + of_nat (length xs') - of_nat (length xs)"
  shows "pool_ok N (p\<lparr>pl_store := st, pl_lanes := lq, pl_queue_len := n\<rparr>) xs' ys zss hs"
proof -
  let ?M = "others ys zss hs"
  have no: "nodes_ok p xs ?M" using ok by (simp add: pool_ok_def)
  have "tasks_ok (pl_store p) (pl_next_task_id p) (mset xs + ?M)" using no by (simp add: nodes_ok_def)
  then have "tasks_ok st (pl_next_task_id p) (mset xs' + ?M)"
    by (rule tasks_ok_mono) (simp_all add: sub same_data_all [OF s])
  moreover have "index_ok (pl_index p) st (set_mset ?M)"
    by (rule index_ok_agree [OF agree_same [OF s]]) (use no in \<open>simp add: nodes_ok_def\<close>)
  moreover have "unmarked st ?M = unmarked (pl_store p) ?M" by (rule unmarked_cong) (simp add: same_data_all [OF s])
  moreover have "\<not> gone st b" if "b \<in> set xs'" for b
  proof -
    have "b \<in> set xs" using set_mset_mono [OF sub] that by auto
    then show ?thesis using no by (simp add: nodes_ok_def same_data_all [OF s])
  qed
  ultimately have "nodes_ok (p\<lparr>pl_store := st, pl_lanes := lq, pl_queue_len := n\<rparr>) xs' ?M"
    using no by (simp add: nodes_ok_def n)
  then show ?thesis using ok l by (simp add: pool_ok_def ring_ok_def pool_deques_ok_def)
qed

lemma pick_cases:
  assumes "pick st hit xs = (r, xs')"
  shows "(r = None \<and> xs' = xs \<and> (\<forall>a\<in>set xs. \<not> hit a)) \<or>
         (\<exists>a. r = Some a \<and> a \<in> set xs \<and> hit a \<and> xs' = remove1 a xs)"
proof (cases "first_best (prio st) (filter hit xs)")
  case None
  then show ?thesis using assms by (auto simp: pick_def filter_empty_conv)
next
  case (Some a)
  then have "a \<in> set (filter hit xs)" using first_best_Some by blast
  moreover have "r = Some a \<and> xs' = remove1 a xs" using assms by (simp add: pick_def Some)
  ultimately show ?thesis by simp
qed

lemma mset_remove: "a \<in> set xs \<Longrightarrow> mset xs = add_mset a (mset (remove1 a xs))"
  by simp

subsection \<open>Cancellation\<close>

text \<open>What a cancellation leaves behind: on success the task named is no longer pending.\<close>

definition cancel_post ::
    "nat \<Rightarrow> pool \<Rightarrow> addr list \<Rightarrow> addr list \<Rightarrow> addr list list \<Rightarrow> u64 \<Rightarrow> loom_result \<Rightarrow> pool \<Rightarrow> bool" where
  "cancel_post N p xs ys zss t rc q \<longleftrightarrow>
     (\<exists>xs'. pool_ok N q xs' ys zss {#} \<and> pl_next_task_id q = pl_next_task_id p \<and>
        in_use q = in_use p - (set xs - set xs') \<and> set xs' \<subseteq> set xs \<and>
        (if rc = LOOMWORKS_OK
         then pend (pl_store p) (all_nodes xs ys zss {#}) = add_mset t (pend (pl_store q) (all_nodes xs' ys zss {#}))
         else pend (pl_store q) (all_nodes xs' ys zss {#}) = pend (pl_store p) (all_nodes xs ys zss {#})))"

lemma cancel_post_same:
  "pool_ok N p xs ys zss {#} \<Longrightarrow> rc \<noteq> LOOMWORKS_OK \<Longrightarrow> cancel_post N p xs ys zss t rc p"
  unfolding cancel_post_def by (rule exI [of _ xs]) simp

lemma mark_unmarked:
  assumes "\<forall>b. count M b \<le> 1" "a \<in># M" "\<not> gone st a"
  shows "unmarked st M = add_mset a (unmarked (st(a := (st a)\<lparr>tk_cancelled := True\<rparr>)) M)"
proof -
  have c: "count M a = 1" using assms(1,2) by (metis count_greater_eq_one_iff le_antisym)
  show ?thesis
  proof (rule multiset_eqI)
    fix b
    show "count (unmarked st M) b = count (add_mset a (unmarked (st(a := (st a)\<lparr>tk_cancelled := True\<rparr>)) M)) b"
      using c assms(3) by (cases "b = a") (simp_all add: unmarked_def count_filter_mset)
  qed
qed

lemma mark_pend:
  assumes "\<forall>b. count M b \<le> 1" "a \<in># M" "\<not> gone st a"
  shows "pend st M = add_mset (tid st a) (pend (st(a := (st a)\<lparr>tk_cancelled := True\<rparr>)) M)"
proof -
  let ?st = "st(a := (st a)\<lparr>tk_cancelled := True\<rparr>)"
  have "image_mset (tid ?st) A = image_mset (tid st) A" for A by (rule image_mset_cong) simp
  then show ?thesis by (simp add: pend_def mark_unmarked [of M a st, OF assms])
qed

lemma cancel_in_ring_ok:
  assumes ok: "pool_ok N p xs ys zss {#}" and a: "a \<in># others ys zss {#}" "\<not> gone (pl_store p) a"
  shows "\<exists>q. cancel_in_ring a p = (True, q) \<and> cancel_post N p xs ys zss (tid (pl_store p) a) LOOMWORKS_OK q"
proof -
  let ?M = "others ys zss {#}" and ?st = "pl_store p"
  let ?st' = "?st(a := (?st a)\<lparr>tk_cancelled := True\<rparr>)"
  have n: "nodes_ok p xs ?M" using ok by (simp add: pool_ok_def)
  have t: "tasks_ok ?st (pl_next_task_id p) (mset xs + ?M)" using n by (simp add: nodes_ok_def)
  have tM: "tasks_ok ?st (pl_next_task_id p) ?M" by (rule tasks_ok_mono [OF t]) simp_all
  have cnt: "\<forall>b. count ?M b \<le> 1" and inj: "inj_on (tid ?st) (set_mset ?M)" and v: "valid_id (tid ?st a)" and co: "\<not> tk_is_coro (?st a)"
    using tM a(1) unfolding tasks_ok_def by blast+
  have ax: "a \<notin> set xs"
  proof
    assume "a \<in> set xs"
    then have "2 \<le> count (mset xs + ?M) a" using a(1) by (metis count_greater_eq_one_iff count_union add_mono one_add_one set_mset_mset)
    then show False using t unfolding tasks_ok_def by (metis Suc_1 not_less_eq_eq)
  qed
  obtain won idx where c: "cancel_index_claim (pl_index p) (tid ?st a) = (won, idx)" by fastforce
  have io: "index_ok (pl_index p) ?st (set_mset ?M)" using n by (simp add: nodes_ok_def)
  have w: "won" "index_ok idx ?st' (set_mset ?M)" using index_ok_claim [OF io a v inj c] by simp_all
  define q where "q = p\<lparr>pl_store := ?st', pl_index := idx, pl_queue_len := pl_queue_len p - 1\<rparr>"
  have e: "cancel_in_ring a p = (True, fire METRIC_CANCELLED q)"
    using c w(1) co by (simp add: cancel_in_ring_def set_task_def Let_def q_def)
  have t': "tasks_ok ?st' (pl_next_task_id p) (mset xs + ?M)" by (rule tasks_ok_mono [OF t]) simp_all
  have "size (unmarked ?st ?M) = Suc (size (unmarked ?st' ?M))"
    unfolding mark_unmarked [of ?M a ?st, OF cnt a] by (rule size_add_mset)
  then have "pl_queue_len p - 1 = of_nat (length xs + size (unmarked ?st' ?M))"
    using n by (simp add: nodes_ok_def del: unmarked_union)
  moreover have "\<not> gone ?st' b" if "b \<in> set xs" for b using that ax n by (auto simp: nodes_ok_def)
  ultimately have "nodes_ok q xs ?M" using t' w(2) by (simp add: nodes_ok_def q_def del: unmarked_union)
  moreover have "lane_repr ?st' (pl_lanes p) xs"
    by (rule lane_repr_frame [of ?st]) (use ok ax in \<open>auto simp: pool_ok_def\<close>)
  moreover have "length (cancel_slots idx) = length (cancel_slots (pl_index p))"
    using slots_length(3) [of "pl_index p" "tid ?st a"] by (simp add: c)
  ultimately have q: "pool_ok N q xs ys zss {#}" using ok by (simp add: pool_ok_def ring_ok_def pool_deques_ok_def q_def)
  have "pend ?st (mset xs) = pend ?st' (mset xs)" using ax by (intro pend_agree) (auto simp: agree_def)
  then have "pend ?st (all_nodes xs ys zss {#}) = add_mset (tid ?st a) (pend ?st' (all_nodes xs ys zss {#}))"
    using mark_pend [of ?M a ?st, OF cnt a] by (simp only: pend_union) simp
  moreover have "pool_ok N (fire METRIC_CANCELLED q) xs ys zss {#}" using q by (simp only: pool_ok_core [OF core_step(2)])
  moreover have "pl_store (fire METRIC_CANCELLED q) = ?st'" "pl_next_task_id (fire METRIC_CANCELLED q) = pl_next_task_id p"
    by (simp_all add: fire_def emit_def q_def)
  moreover have "in_use (fire METRIC_CANCELLED q) = in_use p" by (simp add: q_def) (simp add: in_use_def)
  ultimately have "cancel_post N p xs ys zss (tid ?st a) LOOMWORKS_OK (fire METRIC_CANCELLED q)"
    unfolding cancel_post_def by (intro exI [of _ xs]) simp
  then show ?thesis using e by blast
qed

lemma release_core:
  "\<not> tk_is_coro (pl_store p a) \<Longrightarrow> core (release_cancelled a p) = core p"
  "\<not> tk_is_coro (pl_store p a) \<Longrightarrow> in_use (release_cancelled a p) = in_use p - {a}"
proof -
  assume a: "\<not> tk_is_coro (pl_store p a)"
  have s: "pl_store (mark_future_cancelled c p) = pl_store p" for c by (simp add: mark_future_cancelled_def Let_def)
  show "core (release_cancelled a p) = core p" "in_use (release_cancelled a p) = in_use p - {a}"
    using a by (simp_all add: release_cancelled_def Let_def s)
qed

lemma pend_in: "a \<in># A \<Longrightarrow> \<not> gone st a \<Longrightarrow> tid st a \<in># pend st A"
  by (simp add: pend_def unmarked_def)

lemma pend_inD: "t \<in># pend st A \<Longrightarrow> \<exists>a. a \<in># A \<and> \<not> gone st a \<and> tid st a = t"
  by (auto simp: pend_def unmarked_def)

lemma cancel_in_lanes_ok:
  assumes ok: "pool_ok N p xs ys zss {#}"
  shows "\<exists>rc q. cancel_in_lanes (lane_hit (LCancelId t)) p = Some (rc, q) \<and> cancel_post N p xs ys zss t rc q \<and>
    (rc = LOOMWORKS_OK \<longleftrightarrow> (\<exists>a\<in>set xs. tid (pl_store p) a = t))"
proof -
  have l: "lane_repr (pl_store p) (pl_lanes p) xs" and live: "\<forall>a\<in>set xs. \<not> gone (pl_store p) a"
    and tok: "tasks_ok (pl_store p) (pl_next_task_id p) (all_nodes xs ys zss {#})"
    using ok by (simp_all add: pool_ok_def nodes_ok_def)
  obtain r st lq n xs' where c: "lane_cancel (lane_hit (LCancelId t)) (pl_store p) (pl_lanes p) (pl_queue_len p) = Some (r, st, lq, n)"
    and p: "pick (pl_store p) (\<lambda>a. lane_hit (LCancelId t) (pl_store p a)) xs = (r, xs')"
    and rep: "lane_repr st lq xs'" "same_data (pl_store p) st" "n = pl_queue_len p + of_nat (length xs') - of_nat (length xs)"
    using cancel_picks [OF l, of "lane_hit (LCancelId t)" "pl_queue_len p"] by metis
  consider (none) "r = None" "\<forall>a\<in>set xs. \<not> lane_hit (LCancelId t) (pl_store p a)"
    | (hit) a where "r = Some a" "a \<in> set xs" "lane_hit (LCancelId t) (pl_store p a)" "xs' = remove1 a xs"
    using pick_cases [OF p] by metis
  then show ?thesis
  proof cases
    case none
    then have "cancel_in_lanes (lane_hit (LCancelId t)) p = Some (LOOMWORKS_ERR_INVALID, p)" using c by (simp add: cancel_in_lanes_def)
    moreover have "\<not> (\<exists>a\<in>set xs. tid (pl_store p) a = t)" using none(2) live by auto
    ultimately show ?thesis using cancel_post_same [OF ok] by simp
  next
    case hit
    define p1 where "p1 = p\<lparr>pl_store := st, pl_lanes := lq, pl_queue_len := n\<rparr>"
    define q where "q = fire METRIC_CANCELLED (release_cancelled a p1)"
    have e: "cancel_in_lanes (lane_hit (LCancelId t)) p = Some (LOOMWORKS_OK, q)"
      using c hit(1) by (simp add: cancel_in_lanes_def q_def p1_def)
    have ta: "tid (pl_store p) a = t" using hit(3) by simp
    have co: "\<not> tk_is_coro (pl_store p1 a)" using tok hit(2) by (simp add: tasks_ok_def p1_def same_data_all [OF rep(2)])
    have cq: "core q = core p1" using release_core(1) [OF co] by (simp add: q_def)
    have "mset xs' \<subseteq># mset xs" by (simp add: hit(4) diff_subset_eq_self)
    then have "pool_ok N p1 xs' ys zss {#}" unfolding p1_def by (rule lanes_shrunk [OF ok rep(1,2) _ rep(3)])
    then have ok': "pool_ok N q xs' ys zss {#}" by (simp only: pool_ok_core [OF cq])
    have d: "distinct xs"
    proof -
      have "tasks_ok (pl_store p) (pl_next_task_id p) (mset xs)" by (rule tasks_ok_mono [OF tok]) simp_all
      then show ?thesis unfolding tasks_ok_def distinct_count_atmost_1
        by (metis One_nat_def count_mset_0_iff le_Suc_eq le_zero_eq)
    qed
    have "in_use p1 = in_use p" by (simp add: p1_def in_use_def)
    then have "in_use q = in_use p - {a}" using release_core(2) [OF co] by (simp add: q_def)
    moreover have "set xs - set xs' = {a}" using d hit(2,4) by auto
    moreover have "pend (pl_store q) (all_nodes xs' ys zss {#}) = pend (pl_store p) (all_nodes xs' ys zss {#})"
      by (rule pend_agree) (simp add: core_fields [OF cq] p1_def agree_same [OF rep(2)])
    moreover have "all_nodes xs ys zss {#} = add_mset a (all_nodes xs' ys zss {#})"
      unfolding mset_remove [OF hit(2)] hit(4) by (rule union_mset_add_mset_left)
    then have "pend (pl_store p) (all_nodes xs ys zss {#}) = add_mset t (pend (pl_store p) (all_nodes xs' ys zss {#}))"
      using live hit(2) ta by (simp only: pend_add) simp
    moreover have "set xs' \<subseteq> set xs" using hit(4) by (simp add: set_remove1_subset)
    moreover have "pl_next_task_id q = pl_next_task_id p" by (simp add: core_fields [OF cq] p1_def)
    ultimately have "cancel_post N p xs ys zss t LOOMWORKS_OK q" unfolding cancel_post_def if_P [OF refl] using ok'
      by (intro exI [of _ xs'] conjI) simp_all
    then show ?thesis using e hit(2) ta by blast
  qed
qed

lemma cancel_by_id_ok:
  assumes ok: "pool_ok N p xs ys zss {#}" and t: "valid_id t"
  shows "\<exists>rc q. loom_pool_cancel_by_id t alloc_ok p = Some (rc, q) \<and> cancel_post N p xs ys zss t rc q \<and>
    (\<not> pl_shutdown p \<longrightarrow> (rc = LOOMWORKS_OK \<longleftrightarrow> t \<in># pend (pl_store p) (all_nodes xs ys zss {#})))"
proof (cases "pl_shutdown p")
  case True
  then show ?thesis using cancel_post_same [OF ok] by (simp add: loom_pool_cancel_by_id_def)
next
  case False
  let ?M = "others ys zss {#}" and ?st = "pl_store p"
  have io: "index_ok (pl_index p) ?st (set_mset ?M)" using ok by (simp add: pool_ok_def nodes_ok_def)
  have f: "cancel_index_find (pl_index p) t = index_map (pl_index p) t" using io find_is_map [OF _ t] by (simp add: index_ok_def)
  show ?thesis
  proof (cases "index_map (pl_index p) t")
    case (Some a)
    then have a: "a \<in># ?M" "\<not> gone ?st a" "tid ?st a = t" using io t unfolding index_ok_def by blast+
    obtain q where q: "cancel_in_ring a p = (True, q)" "cancel_post N p xs ys zss t LOOMWORKS_OK q"
      using cancel_in_ring_ok [OF ok a(1,2)] a(3) by blast
    have "t \<in># pend ?st (all_nodes xs ys zss {#})" using pend_in [of a "all_nodes xs ys zss {#}" ?st] a by simp
    then show ?thesis using q Some a(2) False by (simp add: loom_pool_cancel_by_id_def f)
  next
    case None
    have "timer_len (ts_timer (pl_side p)) = 0" using ok by (simp add: pool_ok_def)
    then have "find_task (timer_heap (ts_timer (pl_side p))) (timer_len (ts_timer (pl_side p))) t 0 = None"
      by (subst find_task.simps) simp
    then have "loom_timer_remove_by_task (ts_timer (pl_side p)) t = None" by (simp only: loom_timer_remove_by_task_def option.case)
    then have e: "loom_pool_cancel_by_id t alloc_ok p = cancel_in_lanes (lane_hit (LCancelId t)) p"
      using None False by (simp add: loom_pool_cancel_by_id_def f)
    have no: "\<forall>a\<in>set_mset ?M. gone ?st a \<or> tid ?st a \<noteq> t" using None index_ok_None [OF io t] by simp
    have live: "\<forall>a\<in>set xs. \<not> gone ?st a" using ok by (simp add: pool_ok_def nodes_ok_def)
    have "t \<in># pend ?st (all_nodes xs ys zss {#}) \<longleftrightarrow> (\<exists>a\<in>set xs. tid ?st a = t)"
    proof
      assume "t \<in># pend ?st (all_nodes xs ys zss {#})"
      then obtain a where "a \<in># all_nodes xs ys zss {#}" "\<not> gone ?st a" "tid ?st a = t" using pend_inD [of t ?st] by blast
      then show "\<exists>a\<in>set xs. tid ?st a = t" using no by (metis set_mset_mset union_iff)
    next
      assume "\<exists>a\<in>set xs. tid ?st a = t"
      then obtain a where "a \<in> set xs" "tid ?st a = t" by blast
      then show "t \<in># pend ?st (all_nodes xs ys zss {#})" using pend_in [of a "all_nodes xs ys zss {#}" ?st] live by simp
    qed
    then show ?thesis using cancel_in_lanes_ok [OF ok, of t] e by metis
  qed
qed

end
