(* ===== verification/Pool_Turn.thy ===== *)
theory Pool_Turn
  imports Pool_Inv
begin

text \<open>
  A worker's turn keeps the pool invariant: the search for a task moves nodes between the queues and
  ends with at most one node in the worker's hands, and the run boundary disposes of that node.  A
  turn that finds nothing proves the queues empty.
\<close>

subsection \<open>Moves between the queues\<close>

definition frame :: "pool \<Rightarrow> pool \<Rightarrow> bool" where
  "frame p q \<longleftrightarrow> same_data (pl_store p) (pl_store q) \<and> pl_next_task_id q = pl_next_task_id p \<and> pl_log q = pl_log p \<and>
     pl_worker_count q = pl_worker_count p \<and> pl_index q = pl_index p"

lemma frame_refl [simp]: "frame p p" by (simp add: frame_def)

lemma frame_trans: "frame p q \<Longrightarrow> frame q r \<Longrightarrow> frame p r"
  unfolding frame_def by (metis same_data_trans)

lemma moved_ok:
  assumes ok: "pool_ok N p xs ys zss hs"
    and q: "q = p\<lparr>pl_ring := r, pl_deque_total := n, pl_deques := ds\<rparr>"
    and new: "ring_ok q ys'" "pool_deques_ok N' q zss'" "others ys' zss' hs' = others ys zss hs"
  shows "pool_ok N' q xs ys' zss' hs'"
proof -
  have "nodes_ok q xs (others ys' zss' hs')" using ok unfolding new(3) by (simp add: pool_ok_def nodes_ok_def q)
  then show ?thesis using ok new(1,2) by (simp add: pool_ok_def q)
qed

lemma deque_moved:
  assumes ok: "pool_ok N p xs ys zss hs" and ds: "pl_deques p = Some ds" and d: "deques_ok N' n (ds[i := d]) (zss[i := zs])"
    and m: "mset (zss ! i) + hs = mset zs + hs'" and i: "i < length zss"
    and q: "q = p\<lparr>pl_deque_total := n, pl_deques := Some (ds[i := d])\<rparr>"
  shows "pool_ok N' q xs ys (zss[i := zs]) hs' \<and> frame p q \<and> others ys (zss[i := zs]) hs' = others ys zss hs"
proof -
  have o: "others ys (zss[i := zs]) hs' = others ys zss hs" using concat_update [OF i m] by (simp add: add.assoc)
  have "pool_ok N' q xs ys (zss[i := zs]) hs'"
  proof (rule moved_ok [OF ok])
    show "q = p\<lparr>pl_ring := pl_ring p, pl_deque_total := n, pl_deques := Some (ds[i := d])\<rparr>" by (simp add: q)
    show "ring_ok q ys" "pool_deques_ok N' q (zss[i := zs])" using ok d by (simp_all add: pool_ok_def ring_ok_def pool_deques_ok_def q)
  qed (rule o)
  then show ?thesis using o by (simp add: frame_def q)
qed

lemma pool_deques:
  assumes "pool_ok N p xs ys zss hs"
  obtains ds where "pl_deques p = Some ds" "deques_ok N (pl_deque_total p) ds zss" "length ds = length zss"
    "length zss = pl_worker_count p"
  using assms deques_ok_length by (auto simp: pool_ok_def pool_deques_ok_def)

lemma pop_ok:
  assumes ok: "pool_ok N p xs ys zss hs" and i: "i < pl_worker_count p" and e: "pool_deque_pop i p = (r, q)"
  shows "(r = None \<and> q = p \<and> zss ! i = []) \<or>
    (\<exists>a zss'. r = Some a \<and> zss ! i \<noteq> [] \<and> pool_ok N q xs ys zss' (add_mset a hs) \<and> frame p q \<and>
       others ys zss' (add_mset a hs) = others ys zss hs)"
proof -
  obtain ds where ds: "pl_deques p = Some ds" "deques_ok N (pl_deque_total p) ds zss" "length ds = length zss" "length zss = pl_worker_count p"
    by (rule pool_deques [OF ok])
  have il: "i < length ds" "i < length zss" using ds(3,4) i by simp_all
  show ?thesis
  proof (cases "zss ! i = []")
    case True
    then have "deque_pop (pl_deque_total p) (ds ! i) = (None, pl_deque_total p, ds ! i)" using deques_pop [OF ds(2) il(1)] by simp
    then have "r = None \<and> q = p" using e ds(1) il(1) by (auto simp: pool_deque_pop_def on_deque_def)
    then show ?thesis using True by simp
  next
    case False
    then obtain n d where d: "deque_pop (pl_deque_total p) (ds ! i) = (Some (last (zss ! i)), n, d)"
      "deques_ok N n (ds[i := d]) (zss[i := butlast (zss ! i)])" using deques_pop [OF ds(2) il(1)] by auto
    have r: "r = Some (last (zss ! i))" "q = p\<lparr>pl_deque_total := n, pl_deques := Some (ds[i := d])\<rparr>"
      using e d(1) ds(1) by (auto simp: pool_deque_pop_def on_deque_def)
    have "mset (zss ! i) + hs = mset (butlast (zss ! i)) + add_mset (last (zss ! i)) hs"
      using arg_cong [OF append_butlast_last_id [OF False], of mset] by (simp del: append_butlast_last_id)
    then have "pool_ok N q xs ys (zss[i := butlast (zss ! i)]) (add_mset (last (zss ! i)) hs) \<and> frame p q \<and>
        others ys (zss[i := butlast (zss ! i)]) (add_mset (last (zss ! i)) hs) = others ys zss hs"
      by (rule deque_moved [OF ok ds(1) d(2) _ il(2) r(2)])
    then show ?thesis using False r(1) by blast
  qed
qed

lemma steal_ok:
  assumes ok: "pool_ok N p xs ys zss hs" and i: "i < pl_worker_count p" and e: "pool_deque_steal i p = (r, q)"
  shows "(r = None \<and> q = p \<and> zss ! i = []) \<or>
    (\<exists>a zss'. r = Some a \<and> zss ! i \<noteq> [] \<and> pool_ok N q xs ys zss' (add_mset a hs) \<and> frame p q \<and>
       others ys zss' (add_mset a hs) = others ys zss hs)"
proof -
  obtain ds where ds: "pl_deques p = Some ds" "deques_ok N (pl_deque_total p) ds zss" "length ds = length zss" "length zss = pl_worker_count p"
    by (rule pool_deques [OF ok])
  have il: "i < length ds" "i < length zss" using ds(3,4) i by simp_all
  show ?thesis
  proof (cases "zss ! i")
    case Nil
    then have "deque_steal (pl_deque_total p) (ds ! i) = (None, pl_deque_total p, ds ! i)" using deques_steal [OF ds(2) il(1)] by simp
    then have "r = None \<and> q = p" using e ds(1) il(1) by (auto simp: pool_deque_steal_def on_deque_def)
    then show ?thesis using Nil by simp
  next
    case (Cons a zs)
    then obtain n d where d: "deque_steal (pl_deque_total p) (ds ! i) = (Some a, n, d)"
      "deques_ok N n (ds[i := d]) (zss[i := zs])" using deques_steal [OF ds(2) il(1)] by auto
    have r: "r = Some a" "q = p\<lparr>pl_deque_total := n, pl_deques := Some (ds[i := d])\<rparr>"
      using e d(1) ds(1) by (auto simp: pool_deque_steal_def on_deque_def)
    have "mset (zss ! i) + hs = mset zs + add_mset a hs" by (simp add: Cons)
    then have "pool_ok N q xs ys (zss[i := zs]) (add_mset a hs) \<and> frame p q \<and>
        others ys (zss[i := zs]) (add_mset a hs) = others ys zss hs"
      by (rule deque_moved [OF ok ds(1) d(2) _ il(2) r(2)])
    then show ?thesis using r(1) Cons list.distinct(1) by metis
  qed
qed

lemma push_ok:
  assumes ok: "pool_ok N p xs ys zss (add_mset a hs)" and i: "i < pl_worker_count p" and room: "length (zss ! i) < 256"
    and N: "N < 2 ^ 64 - 1"
  shows "\<exists>q. pool_deque_push i a p = (True, q) \<and> pool_ok (Suc N) q xs ys (zss[i := zss ! i @ [a]]) hs \<and> frame p q"
proof -
  obtain ds where ds: "pl_deques p = Some ds" "deques_ok N (pl_deque_total p) ds zss" "length ds = length zss" "length zss = pl_worker_count p"
    by (rule pool_deques [OF ok])
  have il: "i < length ds" "i < length zss" using ds(3,4) i by simp_all
  obtain n d where d: "deque_push (pl_deque_total p) (ds ! i) a = (True, n, d)"
    "deques_ok (Suc N) n (ds[i := d]) (zss[i := zss ! i @ [a]])" using deques_push [OF ds(2) il(1) room N] by blast
  define q where "q = p\<lparr>pl_deque_total := n, pl_deques := Some (ds[i := d])\<rparr>"
  have "mset (zss ! i) + add_mset a hs = mset (zss ! i @ [a]) + hs" by simp
  then have "pool_ok (Suc N) q xs ys (zss[i := zss ! i @ [a]]) hs \<and> frame p q \<and>
      others ys (zss[i := zss ! i @ [a]]) hs = others ys zss (add_mset a hs)"
    by (rule deque_moved [OF ok ds(1) d(2) _ il(2) q_def])
  moreover have "pool_deque_push i a p = (True, q)" using d(1) ds(1) by (simp add: pool_deque_push_def on_deque_def q_def)
  ultimately show ?thesis by blast
qed

lemma bulk_push_ok:
  assumes "pool_ok N p xs ys zss (mset bs)" "i < pl_worker_count p" "length (zss ! i) + length bs \<le> 256" "N + length bs < 2 ^ 64"
  shows "\<exists>q. bulk_push i first bs (task, p) = (task, q) \<and> pool_ok (N + length bs) q xs ys (zss[i := zss ! i @ bs]) {#} \<and> frame p q"
  using assms
proof (induction bs arbitrary: N p zss first)
  case Nil
  then show ?case by simp
next
  case (Cons a bs)
  have "pool_ok N p xs ys zss (add_mset a (mset bs))" using Cons.prems(1) by simp
  then obtain q where q: "pool_deque_push i a p = (True, q)" "pool_ok (Suc N) q xs ys (zss[i := zss ! i @ [a]]) (mset bs)" "frame p q"
    using push_ok [of N p xs ys zss a "mset bs" i] Cons.prems by auto
  have l: "i < length zss" using Cons.prems(1,2) by (simp add: pool_ok_def pool_deques_ok_def)
  have "i < pl_worker_count q" using q(3) Cons.prems(2) by (simp add: frame_def)
  then obtain q' where q': "bulk_push i False bs (task, q) = (task, q')" "frame q q'"
    "pool_ok (Suc N + length bs) q' xs ys (zss[i := (zss ! i @ [a]) @ bs]) {#}"
    using Cons.IH [OF q(2), of False] Cons.prems(3,4) l by auto
  then show ?case using q(1) frame_trans [OF q(3)] by auto
qed

lemma mset_split: "mset ys = mset (drop m ys) + mset (take m ys)"
  by (metis append_take_drop_id mset_append add.commute)

lemma ring_taken_ok:
  assumes ok: "pool_ok N p xs ys zss {#}" and r: "pl_ring p = Some r"
  shows "\<exists>r'. ring_bulk_try_dequeue r m cas = (if cas then take m ys else [], r') \<and>
    pool_ok N (p\<lparr>pl_ring := Some r'\<rparr>) xs (if cas then drop m ys else ys) zss (if cas then mset (take m ys) else {#})"
proof -
  obtain H where at: "ring_at r H ys" and len: "length (ring_cells r) + 256 * pl_worker_count p \<le> length (cancel_slots (pl_index p))"
    using ok r by (auto simp: pool_ok_def ring_ok_def ring_repr_def)
  obtain r' H' where d: "ring_bulk_try_dequeue r m cas = (if cas then take m ys else [], r')"
    "ring_at r' H' (if cas then drop m ys else ys)" "length (ring_cells r') = length (ring_cells r)"
    using dequeue_spec [OF at] by metis
  have "pool_ok N (p\<lparr>pl_ring := Some r'\<rparr>) xs (if cas then drop m ys else ys) zss (if cas then mset (take m ys) else {#})"
  proof (rule moved_ok [OF ok])
    show "p\<lparr>pl_ring := Some r'\<rparr> = p\<lparr>pl_ring := Some r', pl_deque_total := pl_deque_total p, pl_deques := pl_deques p\<rparr>" by simp
    show "ring_ok (p\<lparr>pl_ring := Some r'\<rparr>) (if cas then drop m ys else ys)" using d len by (auto simp: ring_ok_def ring_repr_def)
    show "pool_deques_ok N (p\<lparr>pl_ring := Some r'\<rparr>) zss" using ok by (simp add: pool_ok_def pool_deques_ok_def)
    show "others (if cas then drop m ys else ys) zss (if cas then mset (take m ys) else {#}) = others ys zss {#}"
      using mset_split [of ys m] by (cases cas) (simp_all add: add.assoc add.commute add.left_commute)
  qed
  then show ?thesis using d(1) by blast
qed

lemma dequeue_ok:
  assumes ok: "pool_ok N p xs ys zss hs" and e: "pool_dequeue m p = (r, q)"
  shows "(r = None \<and> q = p \<and> (\<forall>a\<in>set xs. m < prio (pl_store p) a)) \<or>
    (\<exists>a xs'. r = Some a \<and> a \<in> set xs \<and> mset xs = add_mset a (mset xs') \<and> pool_ok N q xs' ys zss hs \<and> frame p q)"
proof -
  have l: "lane_repr (pl_store p) (pl_lanes p) xs" using ok by (simp add: pool_ok_def)
  obtain r' st lq n where d: "dequeue_lowest_priority_unlocked (pl_store p) (pl_lanes p) (pl_queue_len p) m = (r', st, lq, n)"
    by (metis prod_cases4)
  have q: "r = r'" "q = p\<lparr>pl_store := st, pl_lanes := lq, pl_queue_len := n\<rparr>" using e d by (simp_all add: pool_dequeue_def)
  obtain xs' where s: "pick (pl_store p) (\<lambda>a. prio (pl_store p) a \<le> m) xs = (r', xs')" "lane_repr st lq xs'" "same_data (pl_store p) st"
    "n = pl_queue_len p + of_nat (length xs') - of_nat (length xs)" using dequeue_picks [OF l d] by blast
  show ?thesis
  proof (cases r')
    case None
    then have "st = pl_store p \<and> lq = pl_lanes p \<and> n = pl_queue_len p" using dequeue_repr [OF l d] by simp
    moreover have "\<forall>a\<in>set xs. m < prio (pl_store p) a" using pick_cases [OF s(1)] None by auto
    ultimately show ?thesis using q None by simp
  next
    case (Some a)
    then have a: "a \<in> set xs" "xs' = remove1 a xs" using pick_cases [OF s(1)] by auto
    have "mset xs' \<subseteq># mset xs" by (simp add: a(2) diff_subset_eq_self)
    then have "pool_ok N q xs' ys zss hs" unfolding q(2) by (rule lanes_shrunk [OF ok s(2,3) _ s(4)])
    moreover have "frame p q" using s(3) by (simp add: frame_def q(2))
    ultimately show ?thesis using a mset_remove [OF a(1)] q(1) Some by blast
  qed
qed

subsection \<open>The search\<close>

text \<open>
  What the worker holds: a node of the ring or a deque is still in the index and counted, a node of
  a lane is neither.
\<close>

definition held :: "found \<Rightarrow> addr multiset" where
  "held task = (case task of Some (a, True) \<Rightarrow> {#a#} | _ \<Rightarrow> {#})"

definition taken :: "found \<Rightarrow> addr multiset" where
  "taken task = (case task of Some (a, False) \<Rightarrow> {#a#} | _ \<Rightarrow> {#})"

definition picked :: "nat \<Rightarrow> pool \<Rightarrow> addr multiset \<Rightarrow> found \<times> pool \<Rightarrow> bool" where
  "picked N p0 A s \<longleftrightarrow> (\<exists>xs ys zss. pool_ok N (snd s) xs ys zss (held (fst s)) \<and>
     all_nodes xs ys zss (held (fst s)) + taken (fst s) = A \<and> frame p0 (snd s) \<and> (\<forall>a\<in>#taken (fst s). \<not> gone (pl_store p0) a))"

lemma held_simps [simp]:
  "held None = {#}" "taken None = {#}" "held (Some (a, True)) = {#a#}" "taken (Some (a, True)) = {#}"
  "held (Some (a, False)) = {#}" "taken (Some (a, False)) = {#a#}"
  by (simp_all add: held_def taken_def)

lemma picked_start: "pool_ok N p xs ys zss {#} \<Longrightarrow> picked N p (all_nodes xs ys zss {#}) (None, p)"
  unfolding picked_def by (intro exI [of _ xs] exI [of _ ys] exI [of _ zss]) simp

lemma picked_mono: "picked N p0 A s \<Longrightarrow> N \<le> N' \<Longrightarrow> picked N' p0 A s"
  unfolding picked_def using pool_ok_mono by blast

lemma picked_None:
  assumes "picked N p0 A (None, p)"
  obtains xs ys zss where "pool_ok N p xs ys zss {#}" "all_nodes xs ys zss {#} = A" "frame p0 p"
  using assms by (auto simp: picked_def)

text \<open>A further step from an empty hand.\<close>

lemma picked_on:
  assumes "frame p0 p" "picked N p A s"
  shows "picked N p0 A s"
proof -
  have "gone (pl_store p) a = gone (pl_store p0) a" for a using assms(1) same_data_fields(4) by (simp add: frame_def)
  then show ?thesis using assms(2) frame_trans [OF assms(1)] unfolding picked_def by metis
qed

lemma picked_dequeue:
  assumes ok: "pool_ok N p xs ys zss {#}" and e: "pool_dequeue m p = (r, q)"
  shows "picked N p (all_nodes xs ys zss {#}) (map_option (\<lambda>a. (a, False)) r, q)"
proof -
  consider "r = None" "q = p" | (some) a xs' where "r = Some a" "a \<in> set xs" "mset xs = add_mset a (mset xs')" "pool_ok N q xs' ys zss {#}" "frame p q"
    using dequeue_ok [OF ok e] by blast
  then show ?thesis
  proof cases
    case 1
    then show ?thesis using picked_start [OF ok] by simp
  next
    case some
    have "\<not> gone (pl_store p) a" using ok some(2) by (simp add: pool_ok_def nodes_ok_def)
    then show ?thesis using some unfolding picked_def by (intro exI [of _ xs'] exI [of _ ys] exI [of _ zss]) simp
  qed
qed

lemma picked_held:
  assumes ok: "pool_ok N q xs ys zss' (add_mset a {#})" and f: "frame p q" and A: "others ys zss' {#a#} = others ys0 zss {#}"
  shows "picked N p (all_nodes xs ys0 zss {#}) (Some (a, True), q)"
  unfolding picked_def by (intro exI [of _ xs] exI [of _ ys] exI [of _ zss']) (use ok f A in simp)

lemma pool_ok_worker_count: "pool_ok N p xs ys zss hs \<Longrightarrow> length zss = pl_worker_count p"
  by (simp add: pool_ok_def pool_deques_ok_def)

lemma picked_pop:
  assumes ok: "pool_ok N p xs ys zss {#}" and i: "i < pl_worker_count p" and e: "pool_deque_pop i p = (r, q)"
  shows "picked N p (all_nodes xs ys zss {#}) (map_option (\<lambda>a. (a, True)) r, q)"
proof -
  consider "r = None" "q = p" | (some) a zss' where "r = Some a" "pool_ok N q xs ys zss' {#a#}" "frame p q"
    "others ys zss' {#a#} = others ys zss {#}" using pop_ok [OF ok i e] by blast
  then show ?thesis
  proof cases
    case 1
    then show ?thesis using picked_start [OF ok] by simp
  next
    case some
    then show ?thesis using picked_held [of N q xs ys zss' a p ys zss] by simp
  qed
qed

lemma steal_from_ok:
  assumes ok: "pool_ok N p xs ys zss {#}" and v: "\<forall>v\<in>set vs. v < pl_worker_count p" and e: "steal_from vs idx p = s"
  shows "picked N p (all_nodes xs ys zss {#}) s \<and> (fst s = None \<longrightarrow> snd s = p \<and> (\<forall>v\<in>set vs. v \<noteq> idx \<longrightarrow> zss ! v = []))"
  using v e
proof (induction vs)
  case Nil
  then show ?case using picked_start [OF ok] by auto
next
  case (Cons v vs)
  show ?case
  proof (cases "v = idx")
    case True
    then show ?thesis using Cons by simp
  next
    case False
    obtain r q where st: "pool_deque_steal v p = (r, q)" by fastforce
    consider "r = None" "q = p" "zss ! v = []" | (some) a zss' where "r = Some a" "pool_ok N q xs ys zss' {#a#}" "frame p q"
      "others ys zss' {#a#} = others ys zss {#}" using steal_ok [OF ok _ st] Cons.prems(1) by auto
    then show ?thesis
    proof cases
      case 1
      then show ?thesis using Cons False st by simp
    next
      case some
      then have "s = (Some (a, True), q)" using Cons.prems(2) False st by simp
      then show ?thesis using picked_held [of N q xs ys zss' a p ys zss] some by simp
    qed
  qed
qed

lemma victims_less: "0 < pl_worker_count p \<Longrightarrow> \<forall>v\<in>set (victims idx p). v < pl_worker_count p"
  by (auto simp: victims_def)

lemma ring_busy_iff: "pool_ok N p xs ys zss hs \<Longrightarrow> ring_busy p \<longleftrightarrow> ys \<noteq> []"
  by (auto simp: pool_ok_def ring_ok_def ring_repr_def ring_busy_def ring_has_work_iff)

text \<open>Once the ring is dry every other worker is visited.\<close>

lemma victims_all:
  assumes "\<not> ring_busy p" "idx < pl_worker_count p" "v < pl_worker_count p" "v \<noteq> idx"
  shows "v \<in> set (victims idx p)"
proof -
  let ?n = "pl_worker_count p"
  define k where "k = (if idx < v then v - idx - 1 else ?n + v - idx - 1)"
  have k: "k < ?n - 1" using assms by (auto simp: k_def)
  have "idx + 1 + k = (if idx < v then v else ?n + v)" using assms by (auto simp: k_def)
  then have "(idx + 1 + k) mod ?n = v" using assms(3) by simp
  then have "v = (idx + 1 + k) mod ?n" by simp
  moreover have "k \<in> set [0..<?n - 1]" using k by simp
  ultimately show ?thesis using assms(1) by (auto simp: victims_def)
qed

definition own_empty :: "nat \<Rightarrow> pool \<Rightarrow> bool" where
  "own_empty i p \<longleftrightarrow> (case pl_deques p of None \<Rightarrow> True | Some ds \<Rightarrow> deque_list (ds ! i) = [])"

lemma own_empty_iff: "pool_ok N p xs ys zss hs \<Longrightarrow> i < pl_worker_count p \<Longrightarrow> own_empty i p \<longleftrightarrow> zss ! i = []"
proof -
  assume ok: "pool_ok N p xs ys zss hs" and i: "i < pl_worker_count p"
  obtain ds where ds: "pl_deques p = Some ds" "deques_ok N (pl_deque_total p) ds zss" "length ds = length zss" "length zss = pl_worker_count p"
    by (rule pool_deques [OF ok])
  have "deque_at N (ds ! i) (zss ! i)" using deques_ok_at [OF ds(2)] ds(3,4) i by simp
  then show ?thesis by (simp add: own_empty_def ds(1) deque_at_def)
qed

lemma picked_worker_count: "picked N p0 A s \<Longrightarrow> pl_worker_count (snd s) = pl_worker_count p0"
  by (auto simp: picked_def frame_def)

lemma picked_has_deques: "picked N p0 A s \<Longrightarrow> pl_deques (snd s) \<noteq> None"
  by (auto simp: picked_def pool_ok_def pool_deques_ok_def)

lemma step0_ok:
  assumes ok: "pool_ok N p xs ys zss {#}"
  shows "picked N p (all_nodes xs ys zss {#}) (step0_urgent (None, p))"
  using picked_start [OF ok] picked_dequeue [OF ok]
  by (cases "pool_dequeue 4 p") (simp add: step0_urgent_def apfst_def)

lemma step1_ok:
  assumes s: "picked N p0 A s" and i: "idx < pl_worker_count p0"
  shows "picked N p0 A (step1_own idx s) \<and> (fst (step1_own idx s) = None \<longrightarrow> own_empty idx (snd (step1_own idx s)))"
proof (cases "fst s")
  case (Some f)
  then have "step1_own idx s = s" by (cases s) (simp add: step1_own_def)
  then show ?thesis using s Some by simp
next
  case None
  obtain p where p: "s = (None, p)" using None by (cases s) simp
  obtain xs ys zss where ok: "pool_ok N p xs ys zss {#}" "all_nodes xs ys zss {#} = A" "frame p0 p"
    using picked_None s p by metis
  obtain r q where e: "pool_deque_pop idx p = (r, q)" by fastforce
  have st: "step1_own idx s = (map_option (\<lambda>a. (a, True)) r, q)" using picked_has_deques [OF s] e by (simp add: p step1_own_def)
  have i': "idx < pl_worker_count p" using i ok(3) by (simp add: frame_def)
  have "picked N p0 A (step1_own idx s)" using picked_on [OF ok(3)] picked_pop [OF ok(1) i' e] ok(2) st by simp
  moreover have "own_empty idx q" if "r = None" using pop_ok [OF ok(1) i' e] that own_empty_iff [OF ok(1) i'] by auto
  ultimately show ?thesis by (simp add: st)
qed

lemma step2_ok:
  assumes s: "picked N p0 A s" and i: "idx < pl_worker_count p0" and own: "fst s = None \<longrightarrow> own_empty idx (snd s)"
    and N: "N + 8 < 2 ^ 64"
  shows "picked (N + 8) p0 A (step2_ring idx cas s) \<and>
    (fst (step2_ring idx cas s) = None \<and> cas \<longrightarrow> own_empty idx (snd (step2_ring idx cas s)) \<and> \<not> ring_busy (snd (step2_ring idx cas s)))"
proof (cases "fst s")
  case (Some f)
  then have "step2_ring idx cas s = s" by (cases s) (auto simp: step2_ring_def split: option.splits)
  then show ?thesis using picked_mono [OF s] Some by simp
next
  case None
  obtain p where p: "s = (None, p)" using None by (cases s) simp
  obtain xs ys zss where ok: "pool_ok N p xs ys zss {#}" "all_nodes xs ys zss {#} = A" "frame p0 p"
    using picked_None s p by metis
  have i': "idx < pl_worker_count p" "idx < length zss" using i ok(3) pool_ok_worker_count [OF ok(1)] by (simp_all add: frame_def)
  have z: "zss ! idx = []" using own_empty_iff [OF ok(1) i'(1)] own None p by simp
  obtain r where r: "pl_ring p = Some r" using ok(1) by (auto simp: pool_ok_def ring_ok_def)
  let ?b = "if cas then take 8 ys else []" and ?ys = "if cas then drop 8 ys else ys"
  obtain r' where d: "ring_bulk_try_dequeue r 8 cas = (?b, r')"
    and ok1: "pool_ok N (p\<lparr>pl_ring := Some r'\<rparr>) xs ?ys zss (mset ?b)" using ring_taken_ok [OF ok(1) r, of 8 cas] by (cases cas) auto
  have lb: "length ?b \<le> 8" by simp
  obtain q where q: "bulk_push idx True ?b (None, p\<lparr>pl_ring := Some r'\<rparr>) = (None, q)"
    "pool_ok (N + length ?b) q xs ?ys (zss[idx := zss ! idx @ ?b]) {#}" "frame (p\<lparr>pl_ring := Some r'\<rparr>) q"
    using bulk_push_ok [OF ok1, of idx True None] i' z lb N by auto
  have ok2: "pool_ok (N + 8) q xs ?ys (zss[idx := ?b]) {#}" using pool_ok_mono [OF q(2)] lb z by simp
  have fr: "frame p q" using q(3) by (simp add: frame_def)
  have iq: "idx < pl_worker_count q" using i'(1) fr by (simp add: frame_def)
  obtain t q' where e: "pool_deque_pop idx q = (t, q')" by fastforce
  have st: "step2_ring idx cas s = (map_option (\<lambda>a. (a, True)) t, q')"
    using picked_has_deques [OF s] r d q(1) e by (simp add: p step2_ring_def LOOMWORKS_BULK_DEQUEUE_def)
  have "mset (zss ! idx) + mset ?b = mset ?b + {#}" by (simp add: z)
  note cu = concat_update [OF i'(2) this]
  have m: "mset ys = mset ?ys + mset ?b" using mset_split [of ys 8] by (cases cas) (simp_all only: if_True if_False mset.simps add_0_right)
  have "all_nodes xs ?ys (zss[idx := ?b]) {#} = mset xs + (mset ?ys + (mset (concat zss) + mset ?b))"
    unfolding cu by (simp only: add_0_right add.assoc)
  also have "\<dots> = all_nodes xs ys zss {#}" unfolding m by (simp only: ac_simps add_0_right add_0)
  finally have "all_nodes xs ?ys (zss[idx := ?b]) {#} = A" using ok(2) by (rule trans)
  then have "picked (N + 8) q A (step2_ring idx cas s)" using picked_pop [OF ok2 iq e] st by simp
  then have pk: "picked (N + 8) p0 A (step2_ring idx cas s)" by (rule picked_on [OF frame_trans [OF ok(3) fr]])
  have "own_empty idx q' \<and> \<not> ring_busy q'" if "t = None" cas
  proof -
    have q': "q' = q" "zss[idx := ?b] ! idx = []" using pop_ok [OF ok2 iq e] that(1) by auto
    then have "ys = []" using that(2) i'(2) by simp
    then show ?thesis using own_empty_iff [OF ok2 iq] ring_busy_iff [OF ok2] q' by simp
  qed
  then show ?thesis using pk unfolding st by auto
qed

lemma step3_ok:
  assumes s: "picked N p0 A s" and i: "idx < pl_worker_count p0"
  shows "picked N p0 A (step3_steal idx s) \<and>
    (fst (step3_steal idx s) = None \<and> own_empty idx (snd s) \<and> \<not> ring_busy (snd s) \<longrightarrow>
       snd (step3_steal idx s) = snd s \<and> (\<forall>v<pl_worker_count p0. own_empty v (snd s)))"
proof (cases "fst s = None \<and> pl_worker_count (snd s) > 1")
  case False
  then have "step3_steal idx s = s" by (cases s) (auto simp: step3_steal_def)
  moreover have "\<forall>v<pl_worker_count p0. own_empty v (snd s)" if "fst s = None" "own_empty idx (snd s)"
  proof -
    have "pl_worker_count p0 = 1" using False that(1) i picked_worker_count [OF s] by simp
    then show ?thesis using i that(2) by simp
  qed
  ultimately show ?thesis using s by simp
next
  case True
  obtain p where p: "s = (None, p)" using True by (cases s) simp
  obtain xs ys zss where ok: "pool_ok N p xs ys zss {#}" "all_nodes xs ys zss {#} = A" "frame p0 p"
    using picked_None s p by metis
  have wc: "pl_worker_count p = pl_worker_count p0" using ok(3) by (simp add: frame_def)
  have st: "step3_steal idx s = steal_from (victims idx p) idx p"
    using picked_has_deques [OF s] True by (simp add: p step3_steal_def)
  have v: "\<forall>v\<in>set (victims idx p). v < pl_worker_count p" using victims_less True p by simp
  note sf = steal_from_ok [OF ok(1) v refl, of idx, folded st]
  have "picked N p0 A (step3_steal idx s)" using picked_on [OF ok(3)] sf ok(2) by simp
  moreover have "snd (step3_steal idx s) = p \<and> (\<forall>v<pl_worker_count p0. own_empty v p)"
    if n: "fst (step3_steal idx s) = None" "own_empty idx p" "\<not> ring_busy p"
  proof -
    have all: "\<forall>v\<in>set (victims idx p). v \<noteq> idx \<longrightarrow> zss ! v = []" "snd (step3_steal idx s) = p" using sf n(1) by auto
    have "own_empty v p" if "v < pl_worker_count p0" for v
    proof (cases "v = idx")
      case False
      then have "zss ! v = []" using all(1) victims_all [OF n(3)] i that wc by simp
      then show ?thesis using own_empty_iff [OF ok(1)] that wc by simp
    qed (use n(2) in simp)
    then show ?thesis using all(2) by simp
  qed
  ultimately show ?thesis by (simp add: p)
qed

lemma step4_ok:
  assumes s: "picked N p0 A s"
  shows "picked N p0 A (step4_lanes s) \<and>
    (fst (step4_lanes s) = None \<and> \<not> ring_busy (snd s) \<and> (\<forall>v<pl_worker_count p0. own_empty v (snd s)) \<longrightarrow> A = {#})"
proof (cases "fst s = None \<and> \<not> ring_busy (snd s)")
  case False
  then have "step4_lanes s = s" by (cases s) (auto simp: step4_lanes_def)
  then show ?thesis using s False by auto
next
  case True
  obtain p where p: "s = (None, p)" using True by (cases s) simp
  obtain xs ys zss where ok: "pool_ok N p xs ys zss {#}" "all_nodes xs ys zss {#} = A" "frame p0 p"
    using picked_None s p by metis
  obtain r q where e: "pool_dequeue 255 p = (r, q)" by fastforce
  have st: "step4_lanes s = (map_option (\<lambda>a. (a, False)) r, q)" using True e by (simp add: p step4_lanes_def)
  have "picked N p0 A (step4_lanes s)" using picked_on [OF ok(3)] picked_dequeue [OF ok(1) e] ok(2) st by simp
  moreover have "A = {#}" if n: "r = None" "\<forall>v<pl_worker_count p0. own_empty v p"
  proof -
    have wc: "pl_worker_count p = pl_worker_count p0" using ok(3) by (simp add: frame_def)
    have "\<forall>a\<in>set xs. 255 < prio (pl_store p) a" using dequeue_ok [OF ok(1) e] n(1) by auto
    moreover have "\<not> 255 < prio (pl_store p) a" for a using prio_less [of "pl_store p" a] by linarith
    ultimately have "xs = []" by (cases xs) auto
    moreover have "ys = []" using True ring_busy_iff [OF ok(1)] p by simp
    moreover have "\<forall>zs\<in>set zss. zs = []"
      using own_empty_iff [OF ok(1)] n(2) wc pool_ok_worker_count [OF ok(1)] by (auto simp: in_set_conv_nth)
    then have "mset (concat zss) = {#}" by simp
    ultimately show ?thesis using ok(2) by (simp only: mset.simps add_0)
  qed
  ultimately show ?thesis using p unfolding st by auto
qed

lemma worker_pick_ok:
  assumes ok: "pool_ok N p xs ys zss {#}" and i: "idx < pl_worker_count p" and N: "N + 8 < 2 ^ 64"
  shows "picked (N + 8) p (all_nodes xs ys zss {#}) (worker_pick idx cas p) \<and>
    (fst (worker_pick idx cas p) = None \<and> cas \<longrightarrow> all_nodes xs ys zss {#} = {#})"
proof -
  let ?A = "all_nodes xs ys zss {#}"
  define s1 where "s1 = step1_own idx (step0_urgent (None, p))"
  define s2 where "s2 = step2_ring idx cas s1"
  define s3 where "s3 = step3_steal idx s2"
  have s1: "picked N p ?A s1" "fst s1 = None \<longrightarrow> own_empty idx (snd s1)"
    using step1_ok [OF step0_ok [OF ok] i] by (simp_all add: s1_def)
  have s2: "picked (N + 8) p ?A s2" "fst s2 = None \<and> cas \<longrightarrow> own_empty idx (snd s2) \<and> \<not> ring_busy (snd s2)"
    using step2_ok [OF s1(1) i s1(2) N, of cas] unfolding s2_def by blast+
  have s3: "picked (N + 8) p ?A s3" "fst s3 = None \<and> own_empty idx (snd s2) \<and> \<not> ring_busy (snd s2) \<longrightarrow>
      snd s3 = snd s2 \<and> (\<forall>v<pl_worker_count p. own_empty v (snd s2))"
    using step3_ok [OF s2(1) i] unfolding s3_def by blast+
  have s4: "picked (N + 8) p ?A (step4_lanes s3)"
    "fst (step4_lanes s3) = None \<and> \<not> ring_busy (snd s3) \<and> (\<forall>v<pl_worker_count p. own_empty v (snd s3)) \<longrightarrow> ?A = {#}"
    using step4_ok [OF s3(1)] by blast+
  have w: "worker_pick idx cas p = step4_lanes s3" by (simp add: worker_pick_def s1_def s2_def s3_def)
  have none: "fst s3 = None" if "fst (step4_lanes s3) = None" using that by (cases s3) (auto simp: step4_lanes_def split: if_splits)
  have none': "fst s2 = None" if "fst s3 = None" using that unfolding s3_def by (cases s2) (auto simp: step3_steal_def split: if_splits)
  have "?A = {#}" if n: "fst (step4_lanes s3) = None" cas
  proof -
    have s2n: "own_empty idx (snd s2)" "\<not> ring_busy (snd s2)" using s2(2) none' [OF none [OF n(1)]] n(2) by blast+
    then have "snd s3 = snd s2" "\<forall>v<pl_worker_count p. own_empty v (snd s2)" using s3(2) none [OF n(1)] by blast+
    then show ?thesis using s4(2) n(1) s2n(2) by metis
  qed
  then show ?thesis using s4(1) unfolding w by blast
qed

subsection \<open>The run boundary\<close>

lemma drop_held:
  assumes ok: "pool_ok N p xs ys zss {#a#}"
    and q: "q = p\<lparr>pl_index := cancel_index_remove (pl_index p) (tid (pl_store p) a),
      pl_queue_len := (if gone (pl_store p) a then pl_queue_len p else pl_queue_len p - 1)\<rparr>"
  shows "pool_ok N q xs ys zss {#}"
proof -
  let ?st = "pl_store p" and ?M = "others ys zss {#}"
  have eq: "others ys zss {#a#} = add_mset a ?M" by simp
  have n: "nodes_ok p xs (add_mset a ?M)" using ok unfolding pool_ok_def eq by blast
  have t: "tasks_ok ?st (pl_next_task_id p) (mset xs + add_mset a ?M)" using n by (simp only: nodes_ok_def)
  then have t': "tasks_ok ?st (pl_next_task_id p) (add_mset a (mset xs + ?M))" by simp
  have a: "a \<notin># ?M" "valid_id (tid ?st a)" using t' by (simp_all add: tasks_ok_add)
  have inj: "inj_on (tid ?st) (insert a (set_mset (add_mset a ?M)))" using t by (auto simp: tasks_ok_def inj_on_def)
  have "index_ok (pl_index p) ?st (set_mset (add_mset a ?M))" using n by (simp only: nodes_ok_def)
  then have "index_ok (cancel_index_remove (pl_index p) (tid ?st a)) ?st (set_mset (add_mset a ?M) - {a})"
    by (rule index_ok_remove [OF _ a(2) inj])
  moreover have "set_mset (add_mset a ?M) - {a} = set_mset ?M" using a(1) by auto
  ultimately have i: "index_ok (pl_index q) ?st (set_mset ?M)" by (simp add: q)
  have "pl_queue_len q = of_nat (length xs + size (unmarked ?st ?M))"
    using n by (simp add: nodes_ok_def q del: unmarked_union)
  moreover have "tasks_ok ?st (pl_next_task_id p) (mset xs + ?M)" using t' by (simp add: tasks_ok_add)
  ultimately have "nodes_ok q xs ?M" using n i unfolding nodes_ok_def by (simp add: q)
  then show ?thesis using ok by (simp add: pool_ok_def ring_ok_def pool_deques_ok_def q slots_length)
qed

text \<open>What a turn that found the node \<open>a\<close> leaves behind.\<close>

definition turn_post :: "nat \<Rightarrow> pool \<Rightarrow> addr multiset \<Rightarrow> addr \<Rightarrow> work \<Rightarrow> pool \<Rightarrow> bool" where
  "turn_post N p A a w q \<longleftrightarrow>
     (\<exists>xs ys zss. pool_ok N q xs ys zss {#} \<and> A = add_mset a (all_nodes xs ys zss {#})) \<and>
     same_data (pl_store p) (pl_store q) \<and> in_use q = in_use p - {a} \<and> pl_next_task_id q = pl_next_task_id p \<and>
     pl_worker_count q = pl_worker_count p \<and>
     (let t = pl_store p a in
      w = (if tk_cancelled t then WSkip (tk_task_id t)
           else WRun (tk_task_id t) (tk_fn t) (tk_user_data t) (if tk_is_future t then Some (tk_user_data t) else None)))"

lemma same_data_user: "same_data st st' \<Longrightarrow> tk_user_data (st' a) = tk_user_data (st a)"
  by (rule same_data_fields)

lemma commit_core:
  assumes "\<not> tk_is_coro (pl_store p a)" "worker_commit i (a, fr) p = (w, q)"
  shows "core q = core (p\<lparr>pl_index := (if fr then cancel_index_remove (pl_index p) (tid (pl_store p) a) else pl_index p),
      pl_queue_len := (if fr \<and> \<not> gone (pl_store p) a then pl_queue_len p - 1 else pl_queue_len p)\<rparr>)"
    "in_use q = in_use p - {a}"
    "w = (let t = pl_store p a in if tk_cancelled t then WSkip (tk_task_id t)
           else WRun (tk_task_id t) (tk_fn t) (tk_user_data t) (if tk_is_future t then Some (tk_user_data t) else None))"
proof -
  have c: "core (f\<lparr>pl_queue_len := n\<rparr>) = (core f)\<lparr>pl_queue_len := n\<rparr>" for f n by (simp add: core_def)
  have qd: "pl_queue_len (pool_task_destroy a f) = pl_queue_len f" for f by (simp add: pool_task_destroy_def emit_def)
  have st: "pl_store (p\<lparr>pl_index := x\<rparr>) = pl_store p" for x by simp
  show "core q = core (p\<lparr>pl_index := (if fr then cancel_index_remove (pl_index p) (tid (pl_store p) a) else pl_index p),
      pl_queue_len := (if fr \<and> \<not> gone (pl_store p) a then pl_queue_len p - 1 else pl_queue_len p)\<rparr>)"
    using assms by (cases fr; cases "gone (pl_store p) a") (auto simp: worker_commit_def Let_def c qd core_def [of "p\<lparr>pl_index := _\<rparr>"])
  show "in_use q = in_use p - {a}" using assms by (auto simp: worker_commit_def Let_def split: if_splits)
  show "w = (let t = pl_store p a in if tk_cancelled t then WSkip (tk_task_id t)
           else WRun (tk_task_id t) (tk_fn t) (tk_user_data t) (if tk_is_future t then Some (tk_user_data t) else None))"
    using assms by (auto simp: worker_commit_def Let_def split: if_splits)
qed

lemma commit_ok:
  assumes pk: "picked N p0 A (Some (a, fr), p)" and A: "tasks_ok (pl_store p0) newest A" and e: "worker_commit i (a, fr) p = (w, q)"
  shows "turn_post N p0 A a w q"
proof -
  obtain xs ys zss where ok: "pool_ok N p xs ys zss (held (Some (a, fr)))"
    and all: "all_nodes xs ys zss (held (Some (a, fr))) + taken (Some (a, fr)) = A" and fr: "frame p0 p"
    and live: "\<forall>b\<in>#taken (Some (a, fr)). \<not> gone (pl_store p0) b" using pk by (auto simp: picked_def)
  have A': "A = add_mset a (all_nodes xs ys zss {#})" using all by (cases fr) auto
  have sd: "same_data (pl_store p0) (pl_store p)" using fr by (simp add: frame_def)
  have co: "\<not> tk_is_coro (pl_store p a)" using A A' by (simp add: tasks_ok_add same_data_all [OF sd])
  note cc = commit_core [OF co e]
  have "pool_ok N q xs ys zss {#}"
  proof (cases fr)
    case True
    then have "pool_ok N p xs ys zss {#a#}" using ok by simp
    then show ?thesis unfolding pool_ok_core [OF cc(1)] using True by (intro drop_held) auto
  next
    case False
    then show ?thesis unfolding pool_ok_core [OF cc(1)] using ok by simp
  qed
  moreover have "same_data (pl_store p0) (pl_store q)" using sd by (simp add: core_fields [OF cc(1)])
  moreover have "in_use q = in_use p0 - {a}" using cc(2) fr in_use_log [of p p0] by (simp add: frame_def)
  moreover have "pl_next_task_id q = pl_next_task_id p0" using fr by (simp add: core_fields [OF cc(1)] frame_def)
  moreover have "pl_worker_count q = pl_worker_count p0" using fr by (simp add: core_fields [OF cc(1)] frame_def)
  moreover have "tk_user_data (pl_store p a) = tk_user_data (pl_store p0 a)" by (rule same_data_fields [OF sd])
  ultimately show ?thesis using A' cc(3) unfolding turn_post_def by (auto simp: Let_def same_data_all [OF sd])
qed

lemma worker_pass_ok:
  assumes ok: "pool_ok N p xs ys zss {#}" and i: "idx < pl_worker_count p" and N: "N + 8 < 2 ^ 64"
    and e: "worker_pass idx cas p = (w, q)"
  shows "(w = WIdle \<and> frame p q \<and> (cas \<longrightarrow> all_nodes xs ys zss {#} = {#}) \<and>
      (\<exists>xs' ys' zss'. pool_ok (N + 8) q xs' ys' zss' {#} \<and> all_nodes xs' ys' zss' {#} = all_nodes xs ys zss {#})) \<or>
    (\<exists>a. turn_post (N + 8) p (all_nodes xs ys zss {#}) a w q)"
proof -
  obtain task p1 where s: "worker_pick idx cas p = (task, p1)" by fastforce
  have pk: "picked (N + 8) p (all_nodes xs ys zss {#}) (task, p1)" "task = None \<and> cas \<longrightarrow> all_nodes xs ys zss {#} = {#}"
    using worker_pick_ok [OF ok i N, of cas] unfolding s by simp_all
  show ?thesis
  proof (cases task)
    case None
    then have wq: "w = WIdle" "q = p1" using e s by (simp_all add: worker_pass_def)
    obtain xs' ys' zss' where "pool_ok (N + 8) p1 xs' ys' zss' {#}" "all_nodes xs' ys' zss' {#} = all_nodes xs ys zss {#}" "frame p p1"
      using picked_None pk(1) None by metis
    then show ?thesis using wq pk(2) None by blast
  next
    case (Some f)
    then obtain a fr where f: "task = Some (a, fr)" by (cases f) simp
    then have "worker_commit idx (a, fr) p1 = (w, q)" using e s by (simp add: worker_pass_def)
    moreover have "tasks_ok (pl_store p) (pl_next_task_id p) (all_nodes xs ys zss {#})" using ok by (simp add: pool_ok_def nodes_ok_def)
    ultimately show ?thesis using commit_ok pk(1) f by blast
  qed
qed

end
