(* ===== verification/Numa.thy ===== *)
theory Numa
  imports Loom_Prelude
begin

text \<open>
  NUMA topology (\<^verbatim>\<open>src/src/numa.c\<close>): the parser of a sysfs CPU list, the detection of the physical
  nodes, the virtual partition of the CPUs and the placement of workers.  What the system answers
  (number of CPUs, directory entries, file contents, memory, \<open>pthread_setaffinity_np\<close>) is an argument.
\<close>

subsection \<open>Strings and strtol\<close>

definition is_whitespace :: "char \<Rightarrow> bool" where
  "is_whitespace c \<longleftrightarrow> c = CHR '' '' \<or> c = CHR 0x09 \<or> c = CHR 0x0A \<or> c = CHR 0x0D"

text \<open>The C library: \<open>isspace\<close>, \<open>isdigit\<close> and \<open>strtol\<close> to base 10, saturating at the limits of \<open>long\<close>.\<close>

definition c_isspace :: "char \<Rightarrow> bool" where
  "c_isspace c \<longleftrightarrow> c \<in> set [CHR '' '', CHR 0x09, CHR 0x0A, CHR 0x0B, CHR 0x0C, CHR 0x0D]"

definition c_isdigit :: "char \<Rightarrow> bool" where
  "c_isdigit c \<longleftrightarrow> 48 \<le> (of_char c :: nat) \<and> (of_char c :: nat) \<le> 57"

definition digits_value :: "string \<Rightarrow> int" where
  "digits_value ds = foldl (\<lambda>v c. 10 * v + (int (of_char c) - 48)) 0 ds"

definition strtol :: "string \<Rightarrow> int \<times> string" where
  "strtol s =
     (let s1 = dropWhile c_isspace s;
          neg = (s1 \<noteq> [] \<and> hd s1 = CHR ''-'');
          s2 = (if s1 \<noteq> [] \<and> (hd s1 = CHR ''-'' \<or> hd s1 = CHR ''+'') then tl s1 else s1);
          ds = takeWhile c_isdigit s2
      in
      if ds = [] then (0, s)
      else (if neg then max (- (2 ^ 63)) (- digits_value ds) else min (2 ^ 63 - 1) (digits_value ds),
            dropWhile c_isdigit s2))"

lemma strtol_shorter:
  assumes "strtol s = (v, e)"
  shows "length e \<le> length s" "e \<noteq> s \<Longrightarrow> length e < length s"
proof -
  let ?s1 = "dropWhile c_isspace s"
  let ?s2 = "if ?s1 \<noteq> [] \<and> (hd ?s1 = CHR ''-'' \<or> hd ?s1 = CHR ''+'') then tl ?s1 else ?s1"
  have s2: "length ?s2 \<le> length s" using length_dropWhile_le [of c_isspace s] by (auto intro: le_trans diff_le_self)
  have "e = s \<or> (takeWhile c_isdigit ?s2 \<noteq> [] \<and> e = dropWhile c_isdigit ?s2)"
    using assms by (auto simp: strtol_def Let_def split: if_splits)
  moreover have "length (takeWhile c_isdigit ?s2) + length (dropWhile c_isdigit ?s2) = length ?s2"
    by (metis length_append takeWhile_dropWhile_id)
  ultimately have "e = s \<or> length e < length s" using s2 by (cases "takeWhile c_isdigit ?s2") auto
  then show "length e \<le> length s" "e \<noteq> s \<Longrightarrow> length e < length s" by auto
qed

subsection \<open>The CPU list parser\<close>

text \<open>\<open>mem n\<close> is whether an allocation of \<open>n\<close> elements succeeds; the pair is the array and its capacity.\<close>

fun add_cpus :: "(nat \<Rightarrow> bool) \<Rightarrow> int list \<Rightarrow> u32 list \<times> nat \<Rightarrow> (u32 list \<times> nat) option" where
  "add_cpus mem [] s = Some s"
| "add_cpus mem (c # cs) (arr, cap) =
     (if length arr \<ge> cap then
        (if mem (cap * 2) then add_cpus mem cs (arr @ [of_int c], cap * 2) else None)
      else add_cpus mem cs (arr @ [of_int c], cap))"

definition range_end :: "int \<Rightarrow> string \<Rightarrow> int \<times> string" where
  "range_end start p =
     (if p \<noteq> [] \<and> hd p = CHR ''-'' then
        (case strtol (tl p) of
           (r_end, e) \<Rightarrow> if e \<noteq> tl p \<and> r_end \<ge> start then (r_end, e) else (start, tl p))
      else (start, p))"

lemma range_end_shorter: "length (snd (range_end start p)) \<le> length p"
  using strtol_shorter(1) by (cases p) (auto simp: range_end_def split: prod.split dest: strtol_shorter(1))

function parse_loop :: "(nat \<Rightarrow> bool) \<Rightarrow> string \<Rightarrow> u32 list \<times> nat \<Rightarrow> (u32 list \<times> nat) option" where
  "parse_loop mem p s =
     (let p = dropWhile (\<lambda>c. is_whitespace c \<or> c = CHR '','') p in
      if p = [] then Some s
      else
        (case strtol p of
           (start, endptr) \<Rightarrow>
             if endptr = p \<or> start < 0 then Some s
             else
               (case range_end start endptr of
                  (end, p') \<Rightarrow>
                    (case add_cpus mem [start..end] s of
                       None \<Rightarrow> None
                     | Some s \<Rightarrow> parse_loop mem p' s))))"
  by pat_completeness auto

termination
proof (relation "measure (\<lambda>(mem, p, s). length p)", simp)
  fix mem :: "nat \<Rightarrow> bool" and p :: string and s :: "u32 list \<times> nat" and x xa y xb ya x2
  assume a: "x = dropWhile (\<lambda>c. is_whitespace c \<or> c = CHR '','') p" "(xa, y) = strtol x"
    "\<not> (y = x \<or> xa < 0)" "(xb, ya) = range_end xa y"
  have "length ya \<le> length y" using range_end_shorter [of xa y] a(4) by (metis snd_conv)
  moreover have "length y < length x" using strtol_shorter(2) [of x xa y] a(2,3) by simp
  moreover have "length x \<le> length p" unfolding a(1) by (rule length_dropWhile_le)
  ultimately show "((mem, ya, x2), mem, p, s) \<in> measure (\<lambda>(mem, p, s). length p)" by simp
qed

declare parse_loop.simps [simp del]

definition parse_cpulist :: "(nat \<Rightarrow> bool) \<Rightarrow> string \<Rightarrow> (u32 list \<times> u32) option" where
  "parse_cpulist mem str =
     (if \<not> mem 16 then None
      else
        (case parse_loop mem str ([], 16) of
           None \<Rightarrow> None
         | Some (arr, cap) \<Rightarrow> if arr = [] then None else Some (arr, of_nat (length arr))))"

subsection \<open>Topologies\<close>

datatype loom_numa_mode = LOOM_NUMA_DISABLED | LOOM_NUMA_AUTO | LOOM_NUMA_VIRTUAL

text \<open>\<open>nd_cpu_ids\<close> is \<open>None\<close> while the pointer is null.\<close>

record numa_domain =
  nd_domain_id :: u32
  nd_node_id :: u32
  nd_cpu_count :: u32
  nd_cpu_ids :: "u32 list option"

record numa_topology =
  nt_mode :: loom_numa_mode
  nt_domain_count :: u32
  nt_domains :: "numa_domain list"
  nt_total_cpus :: u32

text \<open>The allocations of this file.\<close>

datatype numa_alloc = ATopo | ADomains | ACpus nat

text \<open>\<open>loom_numa_topology_free\<close>: the CPU arrays it frees.\<close>

definition loom_numa_topology_free :: "numa_topology \<Rightarrow> u32 list list" where
  "loom_numa_topology_free topo =
     List.map_filter nd_cpu_ids (take (unat (nt_domain_count topo)) (nt_domains topo))"

definition online_cpus :: "int \<Rightarrow> int" where
  "online_cpus n = (if n < 1 then 1 else n)"

definition create_single_domain_fallback :: "int \<Rightarrow> (numa_alloc \<Rightarrow> bool) \<Rightarrow> loom_result \<times> numa_topology option" where
  "create_single_domain_fallback nproc ok =
     (let n = online_cpus nproc in
      if \<not> ok ATopo \<or> \<not> ok ADomains \<or> \<not> ok (ACpus 0) then (LOOMWORKS_ERR_ALLOC, None)
      else
        (LOOMWORKS_OK,
         Some \<lparr>nt_mode = LOOM_NUMA_AUTO, nt_domain_count = 1,
               nt_domains = [\<lparr>nd_domain_id = 0, nd_node_id = 0, nd_cpu_count = of_int n,
                              nd_cpu_ids = Some (map of_int [0..n - 1])\<rparr>],
               nt_total_cpus = of_int n\<rparr>))"

text \<open>The scan of the directory: entries \<open>node<digits>\<close>, at most 256 of them.\<close>

fun scan_nodes :: "string list \<Rightarrow> u32 list \<Rightarrow> u32 list" where
  "scan_nodes [] ids = ids"
| "scan_nodes (name # names) ids =
     (if take 4 name = ''node'' \<and> length name > 4 \<and> c_isdigit (name ! 4) then
        (case strtol (drop 4 name) of
           (nid, endptr) \<Rightarrow>
             if endptr \<noteq> drop 4 name \<and> nid \<ge> 0 \<and> length ids < 256 then scan_nodes names (ids @ [of_int nid])
             else scan_nodes names ids)
      else scan_nodes names ids)"

text \<open>The exchange sort of the ids.\<close>

definition exchange :: "nat \<Rightarrow> nat \<Rightarrow> u32 list \<Rightarrow> u32 list" where
  "exchange i j xs = (if xs ! i > xs ! j then xs[i := xs ! j, j := xs ! i] else xs)"

definition sort_node_ids :: "u32 list \<Rightarrow> u32 list" where
  "sort_node_ids xs =
     fold (\<lambda>i xs. fold (exchange i) [i + 1..<length xs] xs) [0..<length xs] xs"

text \<open>
  Reading the CPU list of every node.  \<open>file k\<close> is the line \<open>fgets\<close> reads of node \<open>k\<close>, if any.  The
  result is the domains, on the left those filled before a failure.
\<close>

fun read_domains :: "(nat \<Rightarrow> bool) \<Rightarrow> (u32 \<Rightarrow> string option) \<Rightarrow> u32 list \<Rightarrow> nat \<Rightarrow> numa_domain list \<Rightarrow>
    numa_domain list + numa_domain list" where
  "read_domains mem file [] i ds = Inr ds"
| "read_domains mem file (node # nodes) i ds =
     (case (case file node of None \<Rightarrow> None | Some buf \<Rightarrow> if buf = [] then None else parse_cpulist mem buf) of
        None \<Rightarrow> Inl ds
      | Some (cpus, cc) \<Rightarrow>
          read_domains mem file nodes (i + 1)
            (ds @ [\<lparr>nd_domain_id = of_nat i, nd_node_id = node, nd_cpu_count = cc, nd_cpu_ids = Some cpus\<rparr>]))"

text \<open>
  A topology given up half-way: \<open>domain_count\<close> is still zero when \<open>loom_numa_topology_free\<close> is called.
  The arrays it leaves allocated.
\<close>

definition lost_arrays :: "numa_domain list \<Rightarrow> u32 list list" where
  "lost_arrays ds =
     (let topo = \<lparr>nt_mode = LOOM_NUMA_DISABLED, nt_domain_count = 0, nt_domains = ds, nt_total_cpus = 0\<rparr>
      in drop (length (loom_numa_topology_free topo)) (List.map_filter nd_cpu_ids ds))"

text \<open>
  \<open>dir\<close> is what \<open>opendir\<close> and \<open>readdir\<close> give, \<open>ok'\<close> the allocations of the fallback.  The third
  component is the CPU arrays that are neither freed nor part of the result.
\<close>

definition loom_numa_detect_topology ::
    "int \<Rightarrow> string list option \<Rightarrow> (u32 \<Rightarrow> string option) \<Rightarrow> (nat \<Rightarrow> bool) \<Rightarrow> (numa_alloc \<Rightarrow> bool) \<Rightarrow> (numa_alloc \<Rightarrow> bool) \<Rightarrow>
     loom_result \<times> numa_topology option \<times> u32 list list" where
  "loom_numa_detect_topology nproc dir file mem ok ok' =
     (case (case dir of None \<Rightarrow> [] | Some names \<Rightarrow> scan_nodes names []) of
        [] \<Rightarrow> (case create_single_domain_fallback nproc ok of (rc, t) \<Rightarrow> (rc, t, []))
      | node # nodes \<Rightarrow>
          (let ids = sort_node_ids (node # nodes) in
           if \<not> ok ATopo \<or> \<not> ok ADomains then (LOOMWORKS_ERR_ALLOC, None, [])
           else
             (case read_domains mem file ids 0 [] of
                Inl ds \<Rightarrow> (case create_single_domain_fallback nproc ok' of (rc, t) \<Rightarrow> (rc, t, lost_arrays ds))
              | Inr ds \<Rightarrow>
                  (LOOMWORKS_OK,
                   Some \<lparr>nt_mode = LOOM_NUMA_AUTO, nt_domain_count = of_nat (length ids), nt_domains = ds,
                         nt_total_cpus = sum_list (map nd_cpu_count ds)\<rparr>, []))))"

definition virtual_count :: "int \<Rightarrow> u32 \<Rightarrow> u32" where
  "virtual_count n virtual_domains =
     (let v = (if virtual_domains = 0 then (if (of_int n :: u32) \<ge> 2 then 2 else 1) else virtual_domains)
      in if v > of_int n then of_int n else v)"

fun virtual_fill :: "(numa_alloc \<Rightarrow> bool) \<Rightarrow> u32 \<Rightarrow> u32 \<Rightarrow> nat list \<Rightarrow> u32 \<Rightarrow> numa_domain list \<Rightarrow> numa_domain list + numa_domain list" where
  "virtual_fill ok base_cpus rem_cpus [] curr_cpu ds = Inr ds"
| "virtual_fill ok base_cpus rem_cpus (i # is) curr_cpu ds =
     (let count = base_cpus + (if of_nat i < rem_cpus then 1 else 0) in
      if \<not> ok (ACpus i) then Inl ds
      else
        virtual_fill ok base_cpus rem_cpus is (curr_cpu + count)
          (ds @ [\<lparr>nd_domain_id = of_nat i, nd_node_id = of_nat i, nd_cpu_count = count,
                  nd_cpu_ids = Some (map (\<lambda>j. curr_cpu + of_nat j) [0..<unat count])\<rparr>]))"

definition loom_numa_virtual_topology ::
    "int \<Rightarrow> u32 \<Rightarrow> (numa_alloc \<Rightarrow> bool) \<Rightarrow> loom_result \<times> numa_topology option \<times> u32 list list" where
  "loom_numa_virtual_topology nproc virtual_domains ok =
     (let n = online_cpus nproc;
          v = virtual_count n virtual_domains
      in
      if \<not> ok ATopo \<or> \<not> ok ADomains then (LOOMWORKS_ERR_ALLOC, None, [])
      else
        (case virtual_fill ok (of_int n div v) (of_int n mod v) [0..<unat v] 0 [] of
           Inl ds \<Rightarrow> (LOOMWORKS_ERR_ALLOC, None, lost_arrays ds)
         | Inr ds \<Rightarrow>
             (LOOMWORKS_OK,
              Some \<lparr>nt_mode = LOOM_NUMA_VIRTUAL, nt_domain_count = v, nt_domains = ds, nt_total_cpus = of_int n\<rparr>, [])))"

text \<open>The placement of a worker: its domain and its CPU, \<open>-1\<close> for none.\<close>

definition loom_numa_map_worker :: "numa_topology option \<Rightarrow> u32 \<Rightarrow> u32 \<times> u32" where
  "loom_numa_map_worker topo worker_idx =
     (case topo of
        None \<Rightarrow> (0, - 1)
      | Some t \<Rightarrow>
          if nt_domain_count t = 0 then (0, - 1)
          else
            (let domain_idx = worker_idx mod nt_domain_count t;
                 d = nt_domains t ! unat domain_idx
             in
             (domain_idx,
              case nd_cpu_ids d of
                None \<Rightarrow> - 1
              | Some cpus \<Rightarrow>
                  if nd_cpu_count d > 0 then cpus ! unat ((worker_idx div nt_domain_count t) mod nd_cpu_count d)
                  else - 1)))"

definition CPU_SETSIZE :: u32 where
  "CPU_SETSIZE = 1024"

text \<open>On Linux; \<open>affinity_rc\<close> is what \<open>pthread_setaffinity_np\<close> returns for the CPU.\<close>

definition loom_numa_bind_current_thread :: "(u32 \<Rightarrow> int) \<Rightarrow> u32 \<Rightarrow> bool" where
  "loom_numa_bind_current_thread affinity_rc cpu_id =
     (if cpu_id = - 1 \<or> cpu_id \<ge> CPU_SETSIZE then False else affinity_rc cpu_id = 0)"

subsection \<open>Reading back a printed CPU list\<close>

text \<open>The format of sysfs: decimal numbers and ranges, separated by commas, a newline at the end.\<close>

fun print_nat :: "nat \<Rightarrow> string" where
  "print_nat n = (if n < 10 then [char_of (48 + n)] else print_nat (n div 10) @ [char_of (48 + n mod 10)])"

declare print_nat.simps [simp del]

definition print_range :: "nat \<times> nat \<Rightarrow> string" where
  "print_range r = (if fst r = snd r then print_nat (fst r) else print_nat (fst r) @ CHR ''-'' # print_nat (snd r))"

fun print_cpulist :: "(nat \<times> nat) list \<Rightarrow> string" where
  "print_cpulist [] = [CHR 0x0A]"
| "print_cpulist [r] = print_range r @ [CHR 0x0A]"
| "print_cpulist (r # rs) = print_range r @ CHR '','' # print_cpulist rs"

definition listed :: "(nat \<times> nat) list \<Rightarrow> nat list" where
  "listed rs = concat (map (\<lambda>(a, b). [a..<Suc b]) rs)"

lemma digit_char: "d < 10 \<Longrightarrow> c_isdigit (char_of (48 + d)) \<and> (of_char (char_of (48 + d) :: char) :: nat) = 48 + d"
  by (simp add: c_isdigit_def)

lemma print_nat_props:
  "print_nat n \<noteq> [] \<and> (\<forall>c\<in>set (print_nat n). c_isdigit c) \<and> digits_value (print_nat n) = int n"
proof (induction n rule: print_nat.induct)
  case (1 n)
  show ?case
  proof (cases "n < 10")
    case True
    then have p: "print_nat n = [char_of (48 + n)]" by (subst print_nat.simps) simp
    show ?thesis using digit_char [OF True] by (simp add: p digits_value_def)
  next
    case False
    then have p: "print_nat n = print_nat (n div 10) @ [char_of (48 + n mod 10)]" by (subst print_nat.simps) simp
    have "n mod 10 < 10" by simp
    note d = digit_char [OF this]
    have "int n = 10 * int (n div 10) + int (n mod 10)" by presburger
    then show ?thesis using 1 [OF False] d by (simp add: p digits_value_def)
  qed
qed

lemma digit_not_space: "c_isdigit c \<Longrightarrow> \<not> c_isspace c \<and> \<not> is_whitespace c \<and> c \<noteq> CHR '','' \<and> c \<noteq> CHR ''-'' \<and> c \<noteq> CHR ''+''"
  by (auto simp: c_isdigit_def c_isspace_def is_whitespace_def)

lemma strtol_print:
  assumes "int n < 2 ^ 63" "rest = [] \<or> \<not> c_isdigit (hd rest)"
  shows "strtol (print_nat n @ rest) = (int n, rest)"
proof -
  note pn = print_nat_props [of n]
  obtain c cs where c: "print_nat n = c # cs" using pn by (cases "print_nat n") auto
  have cd: "c_isdigit c" using pn c by simp
  have s1: "dropWhile c_isspace (print_nat n @ rest) = print_nat n @ rest" using digit_not_space [OF cd] by (simp add: c)
  have "takeWhile c_isdigit (print_nat n @ rest) = print_nat n @ takeWhile c_isdigit rest"
    "dropWhile c_isdigit (print_nat n @ rest) = dropWhile c_isdigit rest"
    using pn by (simp_all add: takeWhile_append dropWhile_append)
  moreover have "takeWhile c_isdigit rest = []" "dropWhile c_isdigit rest = rest" using assms(2) by (cases rest; simp)+
  ultimately have t: "takeWhile c_isdigit (print_nat n @ rest) = print_nat n" "dropWhile c_isdigit (print_nat n @ rest) = rest" by simp_all
  have "hd (print_nat n @ rest) \<noteq> CHR ''-''" "hd (print_nat n @ rest) \<noteq> CHR ''+''" using digit_not_space [OF cd] by (simp_all add: c)
  then show ?thesis using pn assms(1) by (simp add: strtol_def s1 t Let_def)
qed

lemma add_cpus_all:
  "0 < cap \<Longrightarrow> \<exists>cap'>0. add_cpus (\<lambda>_. True) cs (arr, cap) = Some (arr @ map of_int cs, cap')"
proof (induction cs arbitrary: arr cap)
  case (Cons c cs)
  show ?case using Cons.IH [of "cap * 2" "arr @ [of_int c]"] Cons.IH [of cap "arr @ [of_int c]"] Cons.prems by auto
qed auto

lemma range_end_print:
  assumes "a \<le> b" "int b < 2 ^ 63" "rest \<noteq> []" "\<not> c_isdigit (hd rest)" "hd rest \<noteq> CHR ''-''"
  shows "\<exists>e. strtol (print_range (a, b) @ rest) = (int a, e) \<and> length e < length (print_range (a, b) @ rest) \<and>
    range_end (int a) e = (int b, rest)"
proof (cases "a = b")
  case True
  then have "strtol (print_range (a, b) @ rest) = (int a, rest)" using strtol_print [of a rest] assms by (simp add: print_range_def)
  moreover have "range_end (int a) rest = (int a, rest)" using assms(5) by (simp add: range_end_def)
  ultimately show ?thesis using True print_nat_props [of a] by (simp add: print_range_def)
next
  case False
  let ?e = "CHR ''-'' # print_nat b @ rest"
  have nd: "\<not> c_isdigit (CHR ''-'')" by (simp add: c_isdigit_def)
  have "strtol (print_range (a, b) @ rest) = (int a, ?e)"
    using strtol_print [of a ?e] assms(1,2) nd False by (simp add: print_range_def)
  moreover have "strtol (print_nat b @ rest) = (int b, rest)" using strtol_print [of b rest] assms by simp
  then have "range_end (int a) ?e = (int b, rest)" using assms(1) print_nat_props [of b] by (simp add: range_end_def)
  ultimately show ?thesis using print_nat_props [of a] False by (simp add: print_range_def)
qed

lemma print_cpulist_head:
  "print_cpulist rs \<noteq> [] \<and> (rs \<noteq> [] \<longrightarrow> c_isdigit (hd (print_cpulist rs)))"
proof (induction rs rule: print_cpulist.induct)
  case (2 r)
  show ?case using print_nat_props [of "fst r"] by (cases "print_nat (fst r)") (auto simp: print_range_def)
next
  case (3 r s rs)
  show ?case using print_nat_props [of "fst r"] by (cases "print_nat (fst r)") (auto simp: print_range_def)
qed simp

lemma upto_upt: "[int a..int b] = map int [a..<Suc b]"
  by (rule nth_equalityI) (auto simp: nth_upto nth_append)

lemma parse_loop_sep:
  "is_whitespace c \<or> c = CHR '','' \<Longrightarrow> parse_loop mem (c # p) s = parse_loop mem p s"
  by (subst (1 2) parse_loop.simps) simp

lemma parse_loop_range:
  assumes r: "a \<le> b" "int b < 2 ^ 63" and rest: "rest \<noteq> []" "\<not> c_isdigit (hd rest)" "hd rest \<noteq> CHR ''-''"
  shows "parse_loop mem (print_range (a, b) @ rest) s =
    (case add_cpus mem [int a..int b] s of None \<Rightarrow> None | Some s \<Rightarrow> parse_loop mem rest s)"
proof -
  let ?p = "print_range (a, b) @ rest"
  have "\<exists>c cs. print_range (a, b) = c # cs \<and> c_isdigit c"
    using print_nat_props [of a] by (cases "print_nat a") (auto simp: print_range_def)
  then obtain c cs where c: "print_range (a, b) = c # cs" "c_isdigit c" by blast
  have d: "dropWhile (\<lambda>c. is_whitespace c \<or> c = CHR '','') ?p = ?p" using digit_not_space [OF c(2)] by (simp add: c(1))
  obtain e where e: "strtol ?p = (int a, e)" "length e < length ?p" "range_end (int a) e = (int b, rest)"
    using range_end_print [OF r rest] by blast
  have "e \<noteq> ?p" using e(2) by auto
  moreover have "?p \<noteq> []" using rest(1) by simp
  ultimately show ?thesis by (subst parse_loop.simps) (simp only: d e Let_def prod.case if_False de_Morgan_disj, simp)
qed

lemma parse_printed:
  assumes "\<forall>(a, b)\<in>set rs. a \<le> b \<and> int b < 2 ^ 63" "0 < cap"
  shows "\<exists>cap'. parse_loop (\<lambda>_. True) (print_cpulist rs) (arr, cap) = Some (arr @ map of_nat (listed rs), cap')"
  using assms
proof (induction rs arbitrary: arr cap rule: print_cpulist.induct)
  case 1
  show ?case by (subst parse_loop.simps) (simp add: is_whitespace_def listed_def)
next
  case (2 r)
  obtain a b where r: "r = (a, b)" by fastforce
  obtain cap' where ac: "add_cpus (\<lambda>_. True) [int a..int b] (arr, cap) = Some (arr @ map of_int [int a..int b], cap')"
    using add_cpus_all [OF 2(2)] by blast
  have nl: "parse_loop (\<lambda>_. True) [CHR 0x0A] s = Some s" for s by (subst parse_loop.simps) (simp add: is_whitespace_def)
  have "parse_loop (\<lambda>_. True) (print_range (a, b) @ [CHR 0x0A]) (arr, cap) = Some (arr @ map of_int [int a..int b], cap')"
    using parse_loop_range [of a b "[CHR 0x0A]"] 2(1) by (simp add: r ac nl c_isdigit_def)
  moreover have "map of_int [int a..int b] = (map of_nat (listed [r]) :: u32 list)" by (simp add: upto_upt listed_def r comp_def del: upt_Suc)
  ultimately show ?case by (simp add: r)
next
  case (3 r s rs)
  obtain a b where r: "r = (a, b)" by fastforce
  let ?q = "print_cpulist (s # rs)" and ?arr = "arr @ map of_int [int a..int b]"
  obtain cap1 where ac: "add_cpus (\<lambda>_. True) [int a..int b] (arr, cap) = Some (?arr, cap1)" "cap1 > 0"
    using add_cpus_all [OF 3(3)] by blast
  obtain cap' where ih: "parse_loop (\<lambda>_. True) ?q (?arr, cap1) = Some (?arr @ map of_nat (listed (s # rs)), cap')"
    using "3.IH" [of cap1 ?arr] 3(2) ac(2) by auto
  have "parse_loop (\<lambda>_. True) (print_cpulist (r # s # rs)) (arr, cap) = parse_loop (\<lambda>_. True) (CHR '','' # ?q) (?arr, cap1)"
    using parse_loop_range [of a b "CHR '','' # ?q"] 3(2) by (simp add: r ac(1) c_isdigit_def)
  also have "\<dots> = Some (?arr @ map of_nat (listed (s # rs)), cap')" using ih by (simp add: parse_loop_sep)
  finally show ?case by (simp add: upto_upt listed_def r comp_def del: upt_Suc)
qed

text \<open>
  C23.  \<open>parse_cpulist\<close> reads back a CPU list in the format of sysfs: for any list of
  ranges it returns the CPUs of the ranges in order and their number, as 32-bit integers.
\<close>

theorem parse_cpulist_roundtrip:
  assumes "rs \<noteq> []" "\<forall>(a, b)\<in>set rs. a \<le> b \<and> int b < 2 ^ 63"
  shows "parse_cpulist (\<lambda>_. True) (print_cpulist rs) = Some (map of_nat (listed rs), of_nat (length (listed rs)))"
proof -
  obtain cap where "parse_loop (\<lambda>_. True) (print_cpulist rs) ([], 16) = Some (map of_nat (listed rs), cap)"
    using parse_printed [OF assms(2), of 16 "[]"] by auto
  moreover have "listed rs \<noteq> []" using assms by (cases rs) (auto simp: listed_def)
  ultimately show ?thesis by (simp add: parse_cpulist_def)
qed

theorem parse_cpulist_roundtrip_witness:
  "parse_cpulist (\<lambda>_. True) ''0-3,8,10-11\<newline>'' = Some ([0, 1, 2, 3, 8, 10, 11], 7)"
proof -
  have p: "print_cpulist [(0, 3), (8, 8), (10, 11)] = ''0-3,8,10-11\<newline>''" by code_simp
  have l: "listed [(0, 3), (8, 8), (10, 11)] = [0, 1, 2, 3, 8, 10, 11]" by code_simp
  show ?thesis using parse_cpulist_roundtrip [of "[(0, 3), (8, 8), (10, 11)]"] unfolding p l by simp
qed

subsection \<open>The exchange sort\<close>

lemma exchange_length [simp]: "length (exchange i j xs) = length xs"
  by (simp add: exchange_def)

lemma exchange_mset: "i < length xs \<Longrightarrow> j < length xs \<Longrightarrow> mset (exchange i j xs) = mset xs"
  using mset_exchange [of i xs j] by (simp add: exchange_def)

lemma pass_length [simp]: "length (fold (exchange i) js xs) = length xs"
  by (induction js arbitrary: xs) simp_all

lemma pass_mset: "i < length xs \<Longrightarrow> \<forall>j\<in>set js. j < length xs \<Longrightarrow> mset (fold (exchange i) js xs) = mset xs"
  by (induction js arbitrary: xs) (simp_all add: exchange_mset)

lemma pass_below: "\<forall>j\<in>set js. k \<noteq> j \<Longrightarrow> k \<noteq> i \<Longrightarrow> fold (exchange i) js xs ! k = xs ! k"
  by (induction js arbitrary: xs) (simp_all add: exchange_def)

text \<open>After the inner loop up to \<open>m\<close>, position \<open>i\<close> holds the least of the positions from \<open>i\<close> to \<open>m\<close>.\<close>

lemma pass_min:
  "i < m \<Longrightarrow> m \<le> length xs \<Longrightarrow> \<forall>k. i \<le> k \<and> k < m \<longrightarrow> fold (exchange i) [i + 1..<m] xs ! i \<le> fold (exchange i) [i + 1..<m] xs ! k"
proof (induction m)
  case (Suc m)
  show ?case
  proof (cases "i = m")
    case False
    then have im: "i < m" using Suc.prems(1) by simp
    let ?ys = "fold (exchange i) [i + 1..<m] xs"
    have st: "fold (exchange i) [i + 1..<Suc m] xs = exchange i m ?ys" using im by simp
    have ih: "\<forall>k. i \<le> k \<and> k < m \<longrightarrow> ?ys ! i \<le> ?ys ! k" using Suc.IH [OF im] Suc.prems(2) by simp
    have l: "i < length ?ys" "m < length ?ys" using im Suc.prems(2) by simp_all
    have "exchange i m ?ys ! i \<le> exchange i m ?ys ! k" if k: "i \<le> k" "k < Suc m" for k
    proof (cases "?ys ! m < ?ys ! i")
      case True
      have e: "exchange i m ?ys = ?ys[i := ?ys ! m, m := ?ys ! i]" using True by (simp add: exchange_def)
      have ei: "exchange i m ?ys ! i = ?ys ! m" unfolding e using l im by simp
      consider "k = i" | "k = m" | "i < k" "k < m" using k by linarith
      then show ?thesis
      proof cases
        case 2
        then have "exchange i m ?ys ! k = ?ys ! i" unfolding e using l by simp
        then show ?thesis unfolding ei using less_imp_le [OF True] by simp
      next
        case 3
        then have "exchange i m ?ys ! k = ?ys ! k" unfolding e by simp
        moreover have "?ys ! i \<le> ?ys ! k" using ih 3 by simp
        ultimately show ?thesis unfolding ei using less_le_trans [OF True] by (simp add: less_imp_le)
      qed simp
    next
      case False
      then have e: "exchange i m ?ys = ?ys" by (simp add: exchange_def)
      show ?thesis unfolding e using ih k False by (cases "k = m") (simp_all add: not_less)
    qed
    then show ?thesis unfolding st by blast
  qed (use Suc.prems in \<open>auto simp: less_Suc_eq\<close>)
qed simp

definition sorted_upto :: "nat \<Rightarrow> u32 list \<Rightarrow> bool" where
  "sorted_upto n xs \<longleftrightarrow> (\<forall>i j. i < n \<and> i \<le> j \<and> j < length xs \<longrightarrow> xs ! i \<le> xs ! j)"

lemma pass_elems:
  assumes "i < length xs" "\<forall>j\<in>set js. i < j \<and> j < length xs" "k < length xs" "i \<le> k"
  shows "\<exists>k'. i \<le> k' \<and> k' < length xs \<and> fold (exchange i) js xs ! k = xs ! k'"
  using assms
proof (induction js arbitrary: xs)
  case (Cons j js)
  obtain k' where k': "i \<le> k'" "k' < length xs" "fold (exchange i) js (exchange i j xs) ! k = exchange i j xs ! k'"
    using Cons.IH [of "exchange i j xs"] Cons.prems by auto
  have "\<exists>k''. i \<le> k'' \<and> k'' < length xs \<and> exchange i j xs ! k' = xs ! k''"
    using k'(1,2) Cons.prems by (cases "k' = i"; cases "k' = j") (auto simp: exchange_def nth_list_update intro: less_imp_le)
  then show ?case using k'(3) by auto
qed auto

lemma outer_pass:
  assumes "sorted_upto i xs" "i < length xs"
  shows "sorted_upto (Suc i) (fold (exchange i) [i + 1..<length xs] xs)"
  unfolding sorted_upto_def
proof (intro allI impI)
  fix a b assume ab: "a < Suc i \<and> a \<le> b \<and> b < length (fold (exchange i) [i + 1..<length xs] xs)"
  let ?ys = "fold (exchange i) [i + 1..<length xs] xs"
  show "?ys ! a \<le> ?ys ! b"
  proof (cases "a = i")
    case True
    then show ?thesis using pass_min [OF assms(2), of xs] ab by auto
  next
    case False
    then have a: "a < i" using ab by simp
    have "?ys ! a = xs ! a" using a by (intro pass_below) auto
    moreover have "xs ! a \<le> ?ys ! b"
    proof (cases "b < i")
      case True
      then have "?ys ! b = xs ! b" by (intro pass_below) auto
      then show ?thesis using assms(1) a ab by (simp add: sorted_upto_def)
    next
      case False
      then obtain k' where "i \<le> k'" "k' < length xs" "?ys ! b = xs ! k'"
        using pass_elems [OF assms(2), of "[i + 1..<length xs]" b] ab by auto
      then show ?thesis using assms(1) a by (simp add: sorted_upto_def)
    qed
    ultimately show ?thesis by simp
  qed
qed

lemma outer_loop:
  assumes "n \<le> length xs"
  shows "let ys = fold (\<lambda>i xs. fold (exchange i) [i + 1..<length xs] xs) [0..<n] xs
    in sorted_upto n ys \<and> mset ys = mset xs \<and> length ys = length xs"
  using assms
proof (induction n)
  case 0
  then show ?case by (simp add: sorted_upto_def)
next
  case (Suc n)
  let ?ys = "fold (\<lambda>i xs. fold (exchange i) [i + 1..<length xs] xs) [0..<n] xs"
  have ih: "sorted_upto n ?ys" "mset ?ys = mset xs" "length ?ys = length xs" using Suc by (simp_all add: Let_def)
  have n: "n < length ?ys" using ih(3) Suc.prems by simp
  have "mset (fold (exchange n) [n + 1..<length ?ys] ?ys) = mset ?ys" using n by (intro pass_mset) auto
  then show ?case using outer_pass [OF ih(1) n] ih by (simp add: Let_def)
qed

text \<open>
  C24.  The hand-written exchange sort of the node ids is the library sort: the domains are
  numbered in ascending order of their nodes and none is lost.
\<close>

theorem sort_node_ids_is_sort: "sort_node_ids xs = sort xs"
proof -
  have "sorted_upto (length xs) (sort_node_ids xs)" "mset (sort_node_ids xs) = mset xs" "length (sort_node_ids xs) = length xs"
    using outer_loop [of "length xs" xs] by (simp_all add: sort_node_ids_def Let_def)
  then have "sorted (sort_node_ids xs)" by (simp add: sorted_upto_def sorted_iff_nth_mono)
  then show ?thesis using \<open>mset (sort_node_ids xs) = mset xs\<close> by (metis properties_for_sort)
qed

subsection \<open>The virtual partition\<close>

definition part_size :: "nat \<Rightarrow> nat \<Rightarrow> nat \<Rightarrow> nat" where
  "part_size n v i = n div v + (if i < n mod v then 1 else 0)"

definition part_start :: "nat \<Rightarrow> nat \<Rightarrow> nat \<Rightarrow> nat" where
  "part_start n v i = (\<Sum>j<i. part_size n v j)"

lemma part_start_eq: "i \<le> v \<Longrightarrow> part_start n v i = i * (n div v) + min i (n mod v)"
  by (induction i) (auto simp: part_start_def part_size_def min_def)

lemma part_start_all: "0 < v \<Longrightarrow> part_start n v v = n"
proof -
  assume v: "0 < v"
  have "min v (n mod v) = n mod v" using less_imp_le [OF mod_less_divisor [OF v, of n]] by (rule min_absorb2)
  then show ?thesis by (simp add: part_start_eq)
qed

lemma part_start_le: "0 < v \<Longrightarrow> i \<le> v \<Longrightarrow> part_start n v i \<le> n"
proof -
  assume v: "0 < v" "i \<le> v"
  have "part_start n v i \<le> part_start n v v" unfolding part_start_def by (rule sum_mono2) (use v in auto)
  then show ?thesis using part_start_all [OF v(1)] by simp
qed

lemma virtual_fill_ok:
  assumes v: "0 < v" "v \<le> n" "n < 2 ^ 32" and i: "i + k = v" and ok: "\<forall>a. ok a"
  shows "virtual_fill ok (of_nat (n div v)) (of_nat (n mod v)) [i..<v] (of_nat (part_start n v i)) ds =
    Inr (ds @ map (\<lambda>i. \<lparr>nd_domain_id = of_nat i, nd_node_id = of_nat i, nd_cpu_count = of_nat (part_size n v i),
      nd_cpu_ids = Some (map of_nat [part_start n v i..<part_start n v (Suc i)])\<rparr>) [i..<v])"
  using i
proof (induction k arbitrary: i ds)
  case (Suc k)
  then have iv: "i < v" "[i..<v] = i # [Suc i..<v]" by (simp_all add: upt_conv_Cons)
  have "part_size n v i \<le> n div v + 1" by (simp add: part_size_def)
  have w: "unat (of_nat m :: u32) = m" if "m \<le> n" for m using that v(3) by (simp add: unat_of_nat)
  have m: "n mod v \<le> n" "i \<le> n" "part_size n v i \<le> n"
  proof -
    show "n mod v \<le> n" "i \<le> n" using iv(1) v(2) by simp_all
    have "part_size n v i \<le> part_start n v (Suc i)" by (simp add: part_start_def)
    then show "part_size n v i \<le> n" using part_start_le [OF v(1), of "Suc i" n] iv(1) by simp
  qed
  have lt: "(of_nat i < (of_nat (n mod v) :: u32)) = (i < n mod v)" by (simp add: word_less_nat_alt w m)
  have cnt: "of_nat (n div v) + (if of_nat i < (of_nat (n mod v) :: u32) then 1 else 0) = (of_nat (part_size n v i) :: u32)"
    by (simp add: lt part_size_def)
  have st: "of_nat (part_start n v i) + of_nat (part_size n v i) = (of_nat (part_start n v (Suc i)) :: u32)"
    by (simp add: part_start_def add.commute)
  have "map (\<lambda>j. of_nat (part_start n v i) + of_nat j) [0..<part_size n v i] =
      (map of_nat [part_start n v i..<part_start n v (Suc i)] :: u32 list)"
    by (rule nth_equalityI) (simp_all add: part_start_def)
  then show ?case unfolding iv(2) using ok Suc.IH [of "Suc i"] Suc.prems
    by (simp add: Let_def cnt st w m del: upt_Suc)
qed simp

lemma concat_parts: "concat (map (\<lambda>i. [part_start n v i..<part_start n v (Suc i)]) [0..<m]) = [0..<part_start n v m]"
proof (induction m)
  case (Suc m)
  have "part_start n v m \<le> part_start n v (Suc m)" by (simp add: part_start_def)
  then have "[0..<part_start n v (Suc m)] = [0..<part_start n v m] @ [part_start n v m..<part_start n v (Suc m)]"
    using upt_add_eq_append [of 0 "part_start n v m" "part_start n v (Suc m) - part_start n v m"] by simp
  then show ?case using Suc by simp
qed (simp add: part_start_def)

text \<open>
  C25.  When its allocations succeed, \<open>loom_numa_virtual_topology\<close> splits the CPUs
  \<open>0, \<dots>, n - 1\<close> into consecutive domains: every CPU is in exactly one, no domain is empty, and the
  sizes differ by at most one.  The number of domains is the number asked for, two or one if that is
  zero, and at most \<open>n\<close>.
\<close>

theorem virtual_topology_partition:
  assumes "1 \<le> n" "n < 2 ^ 32"
  shows "\<exists>t. loom_numa_virtual_topology (int n) vd (\<lambda>_. True) = (LOOMWORKS_OK, Some t, []) \<and>
    concat (map (the \<circ> nd_cpu_ids) (nt_domains t)) = map of_nat [0..<n] \<and>
    unat (nt_domain_count t) = length (nt_domains t) \<and>
    length (nt_domains t) = min n (if vd = 0 then if n \<ge> 2 then 2 else 1 else unat vd) \<and>
    (\<forall>d\<in>set (nt_domains t). length (the (nd_cpu_ids d)) = unat (nd_cpu_count d) \<and>
       length (the (nd_cpu_ids d)) \<in> {n div length (nt_domains t), n div length (nt_domains t) + 1})"
proof -
  define v where "v = min n (if vd = 0 then if n \<ge> 2 then 2 else 1 else unat vd)"
  have v: "0 < v" "v \<le> n" using assms(1) by (auto simp: v_def unat_gt_0)
  have w: "unat (of_nat m :: u32) = m" if "m \<le> n" for m using that assms(2) by (simp add: unat_of_nat)
  have vc: "virtual_count (int n) vd = of_nat v"
  proof -
    define u :: u32 where "u = (if vd = 0 then if n \<ge> 2 then 2 else 1 else vd)"
    have two: "((of_nat n :: u32) \<ge> 2) = (n \<ge> 2)" by (simp add: word_le_nat_alt w)
    have c: "virtual_count (int n) vd = (if u > of_nat n then of_nat n else u)"
      unfolding virtual_count_def Let_def u_def by (simp only: of_int_of_nat_eq two)
    have uu: "unat u = (if vd = 0 then if n \<ge> 2 then 2 else 1 else unat vd)" by (simp add: u_def)
    have gt: "u > of_nat n \<longleftrightarrow> n < unat u" by (simp add: word_less_nat_alt w)
    show ?thesis
    proof (cases "n < unat u")
      case True
      then have "v = n" using uu by (simp add: v_def)
      then show ?thesis using True gt c by simp
    next
      case False
      then have "v = unat u" using uu by (simp add: v_def)
      then show ?thesis using False gt c by simp
    qed
  qed
  let ?ds = "map (\<lambda>i. \<lparr>nd_domain_id = of_nat i, nd_node_id = of_nat i, nd_cpu_count = of_nat (part_size n v i),
      nd_cpu_ids = Some (map of_nat [part_start n v i..<part_start n v (Suc i)])\<rparr>) [0..<v]"
  have dv: "(of_nat n :: u32) div of_nat v = of_nat (n div v)" "(of_nat n :: u32) mod of_nat v = of_nat (n mod v)"
    using v assms(2) by (simp_all add: word_arith_nat_div word_arith_nat_mod w)
  have "virtual_fill (\<lambda>_. True) (of_nat (n div v)) (of_nat (n mod v)) [0..<v] 0 [] = Inr ?ds"
    using virtual_fill_ok [OF v assms(2), of 0 v "\<lambda>_. True" "[]"] by (simp add: part_start_def)
  then have r: "loom_numa_virtual_topology (int n) vd (\<lambda>_. True) =
      (LOOMWORKS_OK, Some \<lparr>nt_mode = LOOM_NUMA_VIRTUAL, nt_domain_count = of_nat v, nt_domains = ?ds, nt_total_cpus = of_nat n\<rparr>, [])"
    using assms(1) v by (simp add: loom_numa_virtual_topology_def online_cpus_def vc dv w)
  have "concat (map (the \<circ> nd_cpu_ids) ?ds) = map of_nat (concat (map (\<lambda>i. [part_start n v i..<part_start n v (Suc i)]) [0..<v]))"
    by (simp add: comp_def map_concat)
  then have c: "concat (map (the \<circ> nd_cpu_ids) ?ds) = map of_nat [0..<n]" by (simp add: concat_parts part_start_all [OF v(1)])
  have s: "length (the (nd_cpu_ids d)) = unat (nd_cpu_count d) \<and> length (the (nd_cpu_ids d)) \<in> {n div v, n div v + 1}"
    if d: "d \<in> set ?ds" for d
  proof -
    obtain i where i: "i < v" "nd_cpu_count d = of_nat (part_size n v i)"
      "nd_cpu_ids d = Some (map of_nat [part_start n v i..<part_start n v (Suc i)])" using d by auto
    have l: "length (the (nd_cpu_ids d)) = part_size n v i" by (simp add: i(3) part_start_def)
    have "part_size n v i \<le> part_start n v (Suc i)" by (simp add: part_start_def)
    then have "part_size n v i \<le> n" using part_start_le [OF v(1), of "Suc i" n] i(1) by simp
    then have "unat (nd_cpu_count d) = part_size n v i" by (simp add: i(2) w)
    moreover have "part_size n v i \<in> {n div v, n div v + 1}" by (simp add: part_size_def)
    ultimately show ?thesis by (simp only: l)
  qed
  define t where "t = \<lparr>nt_mode = LOOM_NUMA_VIRTUAL, nt_domain_count = of_nat v, nt_domains = ?ds, nt_total_cpus = of_nat n\<rparr>"
  have t: "nt_domains t = ?ds" "unat (nt_domain_count t) = v" "length (nt_domains t) = v" by (simp_all add: t_def w v(2))
  show ?thesis unfolding v_def [symmetric]
  proof (intro exI [of _ t] conjI ballI)
    show "loom_numa_virtual_topology (int n) vd (\<lambda>_. True) = (LOOMWORKS_OK, Some t, [])" unfolding t_def by (rule r)
    show "concat (map (the \<circ> nd_cpu_ids) (nt_domains t)) = map of_nat [0..<n]" unfolding t(1) by (rule c)
    show "unat (nt_domain_count t) = length (nt_domains t)" "length (nt_domains t) = v" unfolding t(2,3) by (rule refl)+
    fix d assume "d \<in> set (nt_domains t)"
    then have "d \<in> set ?ds" unfolding t(1) .
    from s [OF this] show "length (the (nd_cpu_ids d)) = unat (nd_cpu_count d)"
      "length (the (nd_cpu_ids d)) \<in> {n div length (nt_domains t), n div length (nt_domains t) + 1}" unfolding t(3) by blast+
  qed
qed

theorem virtual_topology_partition_witness:
  "\<exists>t. loom_numa_virtual_topology 10 4 (\<lambda>_. True) = (LOOMWORKS_OK, Some t, []) \<and>
    concat (map (the \<circ> nd_cpu_ids) (nt_domains t)) = [0, 1, 2, 3, 4, 5, 6, 7, 8, 9] \<and> length (nt_domains t) = 4"
proof -
  have u: "map of_nat [0..<10] = ([0, 1, 2, 3, 4, 5, 6, 7, 8, 9] :: u32 list)" by code_simp
  show ?thesis using virtual_topology_partition [of 10 4] unfolding u by auto
qed

end
