(* ===== verification/Pool_Init.thy ===== *)
theory Pool_Init
  imports Pool_Cancel Numa
begin

text \<open>
  Creation and teardown of a pool (\<^verbatim>\<open>src/src/thread_pool.c\<close>): \<open>pool_init\<close>, \<open>pool_destroy_internal\<close>,
  \<open>loom_pool_create\<close>.  Every allocation, initialisation and thread creation may fail; which ones do is
  an argument.  The resources held are tracked, and so is every release of a resource that is not
  held.
\<close>

definition LOOMWORKS_MAX_QUEUE_CAPACITY :: u32 where
  "LOOMWORKS_MAX_QUEUE_CAPACITY = 1024 * 1024"

definition LOOMWORKS_DEFAULT_STACK_SIZE :: u64 where
  "LOOMWORKS_DEFAULT_STACK_SIZE = 128 * 1024"

definition LOOMWORKS_RING_DEFAULT_SLOTS :: u64 where
  "LOOMWORKS_RING_DEFAULT_SLOTS = 4096"

definition LOOMWORKS_DEQUE_CAPACITY :: nat where
  "LOOMWORKS_DEQUE_CAPACITY = 256"

record loom_pool_config =
  cfg_worker_count :: u32
  cfg_stack_size :: u64
  cfg_queue_capacity :: u32
  cfg_numa_mode :: loom_numa_mode
  cfg_virtual_domains :: u32

text \<open>The whole pool: the queues of \<open>Pool_State\<close> and what surrounds them.\<close>

record thread_pool =
  tp_pool :: pool
  tp_stack_size :: u64
  tp_max_worker_count :: nat
  tp_created_ns :: int
  tp_worker_recovery_timeout_ns :: int
  tp_max_recovery_attempts :: u32
  tp_abnormal_total :: u32
  tp_recovery_attempts :: "u32 list"
  tp_coro_timeout_ns :: int
  tp_node_pool_cap :: nat
  tp_thread_alive :: "bool list"
  tp_numa_topo :: "numa_topology option"
  tp_worker_domain_ids :: "u32 list"
  tp_worker_cpu_ids :: "u32 list"

subsection \<open>Resources\<close>

datatype resource =
    RPool | RLock | RDrainCond | RWorkSem | RSpaceCond | RRing | RCancelSlots | RNodePool | RNodeFreeNext
  | RRecovery | RReclaim | RDeques | RDequeSlots nat | RCoroReady | RCoroLock | RTimerLock | RTimerSem
  | RThreads | RThreadAlive | RCleanExit | RNumaTopo | RDomainIds | RCpuIds | RWorkerArg nat | RThread nat

text \<open>\<open>held\<close>: what is owned; \<open>faults\<close>: what was released without being owned.\<close>

record resources =
  held :: "resource set"
  faults :: "resource list"

definition acquire :: "resource \<Rightarrow> resources \<Rightarrow> resources" where
  "acquire r s = s\<lparr>held := insert r (held s)\<rparr>"

definition release :: "resource \<Rightarrow> resources \<Rightarrow> resources" where
  "release r s = (if r \<in> held s then s\<lparr>held := held s - {r}\<rparr> else s\<lparr>faults := faults s @ [r]\<rparr>)"

text \<open>\<open>free\<close> of a pointer that is null unless the resource is held.\<close>

definition free_ptr :: "resource \<Rightarrow> resources \<Rightarrow> resources" where
  "free_ptr r s = (if r \<in> held s then release r s else s)"

definition free_all :: "resource list \<Rightarrow> resources \<Rightarrow> resources" where
  "free_all rs s = fold free_ptr rs s"

definition release_all :: "resource list \<Rightarrow> resources \<Rightarrow> resources" where
  "release_all rs s = fold release rs s"

definition pool_destroy_internal :: "nat \<Rightarrow> resources \<Rightarrow> resources" where
  "pool_destroy_internal max_worker_count s =
     (let s = free_all [RCancelSlots, RRing, RNodePool, RNodeFreeNext] s;
          s = (if RDeques \<in> held s
               then release RDeques (free_all (map RDequeSlots [0..<max_worker_count]) s) else s);
          s = (if RCoroReady \<in> held s
               then release_all [RCoroReady, RCoroLock, RTimerLock, RTimerSem] s else s);
          s = release_all [RDrainCond, RSpaceCond, RWorkSem, RLock] s;
          s = free_all [RThreads, RThreadAlive, RCleanExit, RRecovery, RReclaim, RNumaTopo, RDomainIds, RCpuIds] s
      in release RPool s)"

subsection \<open>The parts of pool_init\<close>

definition default_worker_count :: "int \<Rightarrow> nat" where
  "default_worker_count nproc = nat (if nproc < 1 then 1 else if nproc > 64 then 64 else nproc) * 2"

definition init_worker_count :: "int \<Rightarrow> u32 \<Rightarrow> nat" where
  "init_worker_count nproc n = (if n = 0 then default_worker_count nproc else unat n)"

definition init_capacity :: "u32 \<Rightarrow> u32" where
  "init_capacity c = (if c > LOOMWORKS_MAX_QUEUE_CAPACITY then LOOMWORKS_MAX_QUEUE_CAPACITY else c)"

definition init_ring_size :: "u32 \<Rightarrow> u64" where
  "init_ring_size capacity = (if capacity = 0 then LOOMWORKS_RING_DEFAULT_SLOTS else next_pow2_u64 capacity)"

definition ring_of_size :: "u64 \<Rightarrow> ring" where
  "ring_of_size n =
     \<lparr>ring_head = 0, ring_tail = 0, ring_cells = map (\<lambda>i. \<lparr>rc_seq = of_nat i, rc_task = 0\<rparr>) [0..<unat n],
      ring_size = n, ring_mask = n - 1, ring_count = 0\<rparr>"

text \<open>The doubling loop; \<open>None\<close> if it runs forever.\<close>

partial_function (option) grow_cap :: "u64 \<Rightarrow> u64 \<Rightarrow> u64 option" where
  "grow_cap need cap = (if cap < need then grow_cap need (push_bit 1 cap) else Some cap)"

declare grow_cap.simps [code]

definition index_of_size :: "u64 \<Rightarrow> cancel_index" where
  "index_of_size n =
     \<lparr>cancel_slots = replicate (unat n) \<lparr>cs_task_id = 0, cs_task = None, cs_data = 0, cs_user_data_hash = 0\<rparr>, cancel_cap = n\<rparr>"

definition deque_empty :: work_deque where
  "deque_empty =
     \<lparr>dq_bottom = 0, dq_top = 0, dq_slots = replicate LOOMWORKS_DEQUE_CAPACITY 0,
      dq_capacity = of_nat LOOMWORKS_DEQUE_CAPACITY, dq_mask = of_nat LOOMWORKS_DEQUE_CAPACITY - 1, dq_len = 0\<rparr>"

text \<open>
  The queues of a new pool; \<open>st\<close>, \<open>ctx\<close> and \<open>fut\<close> are the memory of nodes, contexts and futures before
  anything is written.  \<open>ring\<close> and \<open>deques\<close> are whether those allocations succeeded.
\<close>

definition pool_fresh :: "nat \<Rightarrow> u32 \<Rightarrow> (u64 \<times> u64) option \<Rightarrow> bool \<Rightarrow> store \<Rightarrow> (u64 \<Rightarrow> addr) \<Rightarrow> (addr \<Rightarrow> loom_future) \<Rightarrow> pool" where
  "pool_fresh workers capacity ring deques st ctx fut =
     \<lparr>pl_worker_count = workers, pl_queue_capacity = capacity,
      pl_shutdown = False, pl_draining = False, pl_joined = False,
      pl_lanes = lanes_new, pl_queue_len = 0,
      pl_ring = map_option (\<lambda>(n, cap). ring_of_size n) ring,
      pl_index = (case ring of None \<Rightarrow> index_of_size 0 | Some (n, cap) \<Rightarrow> index_of_size cap),
      pl_active_workers = 0,
      pl_deques = (if deques then Some (replicate workers deque_empty) else None), pl_deque_total = 0,
      pl_side = \<lparr>ts_timer = \<lparr>timer_heap = [], timer_len = 0, timer_cap = 0\<rparr>, ts_ready = replicate workers [],
                 ts_work_sem = 0, ts_timer_sem = 0, ts_alive = False, ts_created = False\<rparr>,
      pl_clean_exit = replicate workers False, pl_reclaim = replicate workers RNone,
      pl_bp_queue_warn_ratio = 0, pl_bp_queue_timeout_ns = 0, pl_bp_callback = 0, pl_bp_last_fire_ns = 0,
      pl_next_task_id = 1, pl_store = st, pl_ctx_future = ctx, pl_future = fut, pl_log = []\<rparr>"

text \<open>What the system answers during creation.\<close>

record init_env =
  ie_ok :: "resource \<Rightarrow> bool"
  ie_nproc :: int
  ie_now :: int
  ie_numa :: "loom_result \<times> numa_topology option"
  ie_store :: store
  ie_ctx :: "u64 \<Rightarrow> addr"
  ie_fut :: "addr \<Rightarrow> loom_future"

text \<open>An acquisition in sequence: on failure the cleanup runs and the code is returned.\<close>

definition attempt :: "init_env \<Rightarrow> resource \<Rightarrow> (resources \<Rightarrow> resources) \<Rightarrow> resources \<Rightarrow> resources + resources" where
  "attempt env r cleanup s = (if ie_ok env r then Inr (acquire r s) else Inl (cleanup s))"

definition bind_res :: "resources + resources \<Rightarrow> (resources \<Rightarrow> resources + resources) \<Rightarrow> resources + resources" where
  "bind_res x f = (case x of Inl s \<Rightarrow> Inl s | Inr s \<Rightarrow> f s)"

text \<open>The four locks and conditions, then the parts whose failure only degrades the pool.\<close>

definition init_locks :: "init_env \<Rightarrow> resources \<Rightarrow> resources + resources" where
  "init_locks env s =
     bind_res (attempt env RLock (\<lambda>s. s) s) (\<lambda>s.
     bind_res (attempt env RDrainCond (release RLock) s) (\<lambda>s.
     bind_res (attempt env RWorkSem (release_all [RLock, RDrainCond]) s)
       (attempt env RSpaceCond (release_all [RWorkSem, RLock, RDrainCond]))))"

definition init_ring :: "init_env \<Rightarrow> resources \<Rightarrow> bool \<times> resources" where
  "init_ring env s =
     (if ie_ok env RRing then
        (let s = acquire RRing s in
         if ie_ok env RCancelSlots then (True, acquire RCancelSlots s) else (False, release RRing s))
      else (False, s))"

definition init_nodes :: "init_env \<Rightarrow> resources \<Rightarrow> nat \<times> resources" where
  "init_nodes env s =
     (let s = (if ie_ok env RNodePool then acquire RNodePool s else s);
          s = (if ie_ok env RNodeFreeNext then acquire RNodeFreeNext s else s)
      in
      if \<not> ie_ok env RNodePool \<or> \<not> ie_ok env RNodeFreeNext then (0, free_all [RNodePool, RNodeFreeNext] s)
      else (4096, s))"

fun alloc_slots :: "init_env \<Rightarrow> nat list \<Rightarrow> resources \<Rightarrow> bool \<times> resources" where
  "alloc_slots env [] s = (True, s)"
| "alloc_slots env (j # js) s =
     (if ie_ok env (RDequeSlots j) then alloc_slots env js (acquire (RDequeSlots j) s) else (False, s))"

definition init_deques :: "init_env \<Rightarrow> nat \<Rightarrow> resources \<Rightarrow> bool \<times> resources" where
  "init_deques env n s =
     (if ie_ok env RDeques then
        (case alloc_slots env [0..<n] (acquire RDeques s) of
           (True, s) \<Rightarrow> (True, s)
         | (False, s) \<Rightarrow> (False, release RDeques (free_all (map RDequeSlots [0..<n]) s)))
      else (False, s))"

text \<open>The parts after the deques; each failure tears the pool down.\<close>

definition init_coro :: "init_env \<Rightarrow> nat \<Rightarrow> resources \<Rightarrow> resources + resources" where
  "init_coro env n s =
     bind_res (attempt env RCoroReady (pool_destroy_internal n) s) (\<lambda>s.
     bind_res (attempt env RCoroLock (\<lambda>s. pool_destroy_internal n (release RCoroReady s)) s) (\<lambda>s.
     bind_res (attempt env RTimerLock (\<lambda>s. pool_destroy_internal n (release_all [RCoroLock, RCoroReady] s)) s)
       (attempt env RTimerSem (\<lambda>s. pool_destroy_internal n (release_all [RCoroLock, RTimerLock, RCoroReady] s)))))"

definition init_threads :: "init_env \<Rightarrow> nat \<Rightarrow> resources \<Rightarrow> resources + resources" where
  "init_threads env n s =
     bind_res (attempt env RThreads (pool_destroy_internal n) s) (\<lambda>s.
     bind_res (attempt env RThreadAlive (pool_destroy_internal n) s)
       (attempt env RCleanExit (pool_destroy_internal n)))"

text \<open>The NUMA part: the result of the detection, then the two arrays.\<close>

definition init_numa :: "init_env \<Rightarrow> nat \<Rightarrow> loom_numa_mode \<Rightarrow> resources \<Rightarrow> (loom_result \<times> resources) + resources" where
  "init_numa env n mode s =
     (if mode = LOOM_NUMA_DISABLED then Inr s
      else if fst (ie_numa env) \<noteq> LOOMWORKS_OK then Inl (fst (ie_numa env), pool_destroy_internal n s)
      else
        (let s = acquire RNumaTopo s;
             s = (if ie_ok env RDomainIds then acquire RDomainIds s else s);
             s = (if ie_ok env RCpuIds then acquire RCpuIds s else s)
         in
         if \<not> ie_ok env RDomainIds \<or> \<not> ie_ok env RCpuIds then Inl (LOOMWORKS_ERR_ALLOC, pool_destroy_internal n s)
         else Inr s))"

text \<open>The fields of a pool whose initialisation succeeded.\<close>

definition pool_built :: "init_env \<Rightarrow> loom_pool_config \<Rightarrow> (u64 \<times> u64) option \<Rightarrow> nat \<Rightarrow> bool \<Rightarrow> thread_pool" where
  "pool_built env cfg ring nodes deques =
     (let n = init_worker_count (ie_nproc env) (cfg_worker_count cfg);
          topo = (if cfg_numa_mode cfg = LOOM_NUMA_DISABLED then None else snd (ie_numa env));
          place = (if topo = None then [] else map (\<lambda>i. loom_numa_map_worker topo (of_nat i)) [0..<n])
      in
      \<lparr>tp_pool = pool_fresh n (init_capacity (cfg_queue_capacity cfg)) ring deques (ie_store env) (ie_ctx env) (ie_fut env),
       tp_stack_size = (if cfg_stack_size cfg = 0 then LOOMWORKS_DEFAULT_STACK_SIZE else cfg_stack_size cfg),
       tp_max_worker_count = n, tp_created_ns = ie_now env,
       tp_worker_recovery_timeout_ns = 0, tp_max_recovery_attempts = 3,
       tp_abnormal_total = 0, tp_recovery_attempts = replicate n 0,
       tp_coro_timeout_ns = 0, tp_node_pool_cap = nodes, tp_thread_alive = replicate n False,
       tp_numa_topo = topo, tp_worker_domain_ids = map fst place, tp_worker_cpu_ids = map snd place\<rparr>)"

text \<open>
  \<open>pool_init\<close> on a zeroed pool with the configured fields.  Left: the error code and the resources;
  right: the pool.  \<open>None\<close> would be a doubling loop that does not end.
\<close>

definition pool_init :: "init_env \<Rightarrow> loom_pool_config \<Rightarrow> resources \<Rightarrow> ((loom_result \<times> resources) + (thread_pool \<times> resources)) option" where
  "pool_init env cfg s =
     (let n = init_worker_count (ie_nproc env) (cfg_worker_count cfg) in
      case init_locks env s of
        Inl s \<Rightarrow> Some (Inl (LOOMWORKS_ERR_ALLOC, s))
      | Inr s \<Rightarrow>
          (let rs = init_ring_size (init_capacity (cfg_queue_capacity cfg));
               need = rs + of_nat (n * LOOMWORKS_DEQUE_CAPACITY)
           in
           case (if ie_ok env RRing then grow_cap need 1 else Some 0) of
             None \<Rightarrow> None
           | Some cap \<Rightarrow>
               Some
                 (let (ring, s) = init_ring env s;
                      (nodes, s) = init_nodes env s
                  in
                  case bind_res (attempt env RRecovery (pool_destroy_internal n) s) (attempt env RReclaim (pool_destroy_internal n)) of
                    Inl s \<Rightarrow> Inl (LOOMWORKS_ERR_ALLOC, s)
                  | Inr s \<Rightarrow>
                      (let (deques, s) = init_deques env n s in
                       case bind_res (init_coro env n s) (init_threads env n) of
                         Inl s \<Rightarrow> Inl (LOOMWORKS_ERR_ALLOC, s)
                       | Inr s \<Rightarrow>
                           (case init_numa env n (cfg_numa_mode cfg) s of
                              Inl e \<Rightarrow> Inl e
                            | Inr s \<Rightarrow> Inr (pool_built env cfg (if ring then Some (rs, cap) else None) nodes deques, s))))))"

text \<open>
  The workers are started one by one.  A thread that is running has freed its argument.  When a start
  fails the pool is shut down, the threads started before are joined and the pool is torn down.
\<close>

definition abort_create :: "nat \<Rightarrow> nat \<Rightarrow> resources \<Rightarrow> resources" where
  "abort_create i n s = pool_destroy_internal n (release_all (map RThread [0..<i]) s)"

fun start_workers :: "init_env \<Rightarrow> nat \<Rightarrow> nat list \<Rightarrow> thread_pool \<Rightarrow> resources \<Rightarrow> (loom_result \<times> resources) + (thread_pool \<times> resources)" where
  "start_workers env n [] tp s = Inr (tp, s)"
| "start_workers env n (i # is) tp s =
     (if \<not> ie_ok env (RWorkerArg i) then Inl (LOOMWORKS_ERR_ALLOC, abort_create i n s)
      else
        (let s = acquire (RWorkerArg i) s in
         if \<not> ie_ok env (RThread i) then Inl (LOOMWORKS_ERR_THREAD, abort_create i n s)
         else start_workers env n is (tp\<lparr>tp_thread_alive := (tp_thread_alive tp)[i := True]\<rparr>)
                (acquire (RThread i) (release (RWorkerArg i) s))))"

definition loom_pool_create ::
    "init_env \<Rightarrow> loom_pool_config option \<Rightarrow> ((loom_result \<times> resources) + (thread_pool \<times> resources)) option" where
  "loom_pool_create env config =
     (let s = \<lparr>held = {}, faults = []\<rparr> in
      if \<not> ie_ok env RPool then Some (Inl (LOOMWORKS_ERR_ALLOC, s))
      else
        (let s = acquire RPool s;
             cfg = (case config of
                      None \<Rightarrow> \<lparr>cfg_worker_count = 0, cfg_stack_size = 0, cfg_queue_capacity = 0,
                               cfg_numa_mode = LOOM_NUMA_DISABLED, cfg_virtual_domains = 0\<rparr>
                    | Some c \<Rightarrow> c)
         in
         case pool_init env cfg s of
           None \<Rightarrow> None
         | Some (Inl (rc, s)) \<Rightarrow> Some (Inl (rc, release RPool s))
         | Some (Inr (tp, s)) \<Rightarrow>
             Some (start_workers env (tp_max_worker_count tp) [0..<pl_worker_count (tp_pool tp)] tp s)))"

subsection \<open>The doubling loop\<close>

lemma grow_cap_ends:
  assumes "need \<le> 2 ^ 63" "k \<le> 63" "j + k = 63"
  shows "\<exists>i. k \<le> i \<and> i \<le> 63 \<and> grow_cap need (2 ^ k) = Some (2 ^ i) \<and> need \<le> 2 ^ i"
  using assms(2,3)
proof (induction j arbitrary: k)
  case 0
  then have "\<not> (2 ^ k :: u64) < need" using assms(1) by (simp add: not_less)
  then have "grow_cap need (2 ^ k) = Some (2 ^ k)" by (subst grow_cap.simps) simp
  then show ?case using 0 assms(1) by auto
next
  case (Suc j)
  show ?case
  proof (cases "(2 ^ k :: u64) < need")
    case True
    have "grow_cap need (2 ^ k) = grow_cap need (2 ^ Suc k)"
      using True by (subst grow_cap.simps) (simp add: push_bit_eq_mult mult.commute)
    then show ?thesis using Suc.IH [of "Suc k"] Suc.prems by (metis Suc_leD add_Suc_right add_Suc_shift le_add2)
  next
    case False
    then have "grow_cap need (2 ^ k) = Some (2 ^ k)" by (subst grow_cap.simps) simp
    then show ?thesis using False Suc.prems by (intro exI [of _ k]) (simp add: not_less)
  qed
qed

lemma ring_of_pow2: "k < 64 \<Longrightarrow> ring_of_size (2 ^ k) = ring_new k"
  by (simp add: ring_of_size_def ring_new_def unat_pow2)

lemma index_of_pow2: "k < 64 \<Longrightarrow> index_of_size (2 ^ k) = cancel_index_new k"
  by (simp add: index_of_size_def cancel_index_new_def unat_pow2)

lemma deque_empty_new: "deque_empty = deque_new 8"
  by (simp add: deque_empty_def deque_new_def LOOMWORKS_DEQUE_CAPACITY_def)

end
