(* ===== verification/Pool_Exact.thy ===== *)
theory Pool_Exact
  imports Pool_Turn Pool_Init
begin

text \<open>
  Runs of a pool: submissions, cancellations by id and turns of the workers in any order, from a
  newly created pool.  Every accepted task is run once or cancelled once, nothing is lost, and an
  idle worker means an empty pool.
\<close>

lemma deques_fresh: "deques_ok 0 0 (replicate n deque_empty) (replicate n [])"
proof -
  have "deque_at 0 deque_empty []" using deque_new_wf [of 8] by (simp add: deque_at_def deque_empty_new deque_new_def)
  then show ?thesis by (simp add: deques_ok_def list_all2_conv_all_nth)
qed

lemma pool_fresh_ok:
  assumes k: "0 < k" "k < 64" and i: "i < 64" and room: "2 ^ k + 256 * n \<le> (2 :: nat) ^ i"
  shows "pool_ok 0 (pool_fresh n c (Some (2 ^ k, 2 ^ i)) True st ctx fut) [] [] (replicate n []) {#}"
proof -
  let ?p = "pool_fresh n c (Some (2 ^ k, 2 ^ i)) True st ctx fut"
  have ring: "pl_ring ?p = Some (ring_new k)" "pl_index ?p = cancel_index_new i"
    using k(2) i by (simp_all add: pool_fresh_def ring_of_pow2 index_of_pow2)
  have "ring_repr (ring_new k) []" using ring_new_at [OF k] by (auto simp: ring_repr_def)
  then have "ring_ok ?p []" using room unfolding ring_ok_def ring
    by (intro exI [of _ "ring_new k"]) (simp add: ring_new_def cancel_index_new_def pool_fresh_def)
  moreover have "pool_deques_ok 0 ?p (replicate n [])" using deques_fresh [of n] by (simp add: pool_deques_ok_def pool_fresh_def)
  moreover have "index_ok (pl_index ?p) (pl_store ?p) {}"
    using represents_new [OF i] unfolding ring by (simp add: index_ok_def represents_def)
  then have "nodes_ok ?p [] {#}" by (simp add: nodes_ok_def tasks_ok_def unmarked_def) (simp add: pool_fresh_def)
  moreover have "lane_repr (pl_store ?p) (pl_lanes ?p) []" by (simp add: pool_fresh_def lane_repr_new)
  ultimately show ?thesis by (simp add: pool_ok_def concat_replicate_trivial) (simp add: pool_fresh_def)
qed

subsection \<open>What the pool holds\<close>

definition ring_list :: "ring \<Rightarrow> addr list" where
  "ring_list r = map (\<lambda>i. rc_task (ring_cells r ! unat ((ring_head r + of_nat i) AND ring_mask r)))
     [0..<unat (ring_tail r - ring_head r)]"

definition lane_list :: "store \<Rightarrow> lanes \<Rightarrow> addr list" where
  "lane_list st lq = concat (map (\<lambda>b. the (collect (tk_next \<circ> st) (ln_head lq b))) [0..<256])"

definition pool_nodes :: "pool \<Rightarrow> addr list" where
  "pool_nodes p = lane_list (pl_store p) (pl_lanes p) @
     (case pl_ring p of None \<Rightarrow> [] | Some r \<Rightarrow> ring_list r) @
     (case pl_deques p of None \<Rightarrow> [] | Some ds \<Rightarrow> concat (map deque_list ds))"

text \<open>The ids of the tasks in the pool that are not marked as cancelled.\<close>

definition pending :: "pool \<Rightarrow> u64 multiset" where
  "pending p = mset (map (tid (pl_store p)) (filter (\<lambda>a. \<not> gone (pl_store p) a) (pool_nodes p)))"

lemma pending_pend: "pending p = pend (pl_store p) (mset (pool_nodes p))"
  by (simp add: pending_def pend_def unmarked_def mset_filter)

lemma ring_list_at:
  assumes "ring_at r H ys"
  shows "ring_list r = ys"
proof -
  have s: "ring_shape r" "length ys \<le> length (ring_cells r)" "ring_head r = of_nat H" "ring_tail r = of_nat (H + length ys)"
    and c: "\<forall>i<length (ring_cells r). cell_ok r H ys i" using assms by (simp_all add: ring_at_def)
  obtain k where k: "k < 64" "length (ring_cells r) = 2 ^ k" using s(1) by (auto simp: ring_shape_def)
  have "(2 :: nat) ^ k < 2 ^ 64" using k(1) by (rule power_strict_increasing) simp
  then have "length ys < 2 ^ 64" using s(2) k(2) by simp
  then have l: "unat (ring_tail r - ring_head r) = length ys" by (simp add: s(3,4) unat_of_nat)
  have "rc_task (ring_cells r ! unat ((ring_head r + of_nat i) AND ring_mask r)) = ys ! i" if i: "i < length ys" for i
  proof -
    have "unat ((ring_head r + of_nat i) AND ring_mask r) = (H + i) mod length (ring_cells r)"
      using ring_shape_index [OF s(1), of "H + i"] by (simp add: s(3))
    then show ?thesis using c i s(2) by (simp add: cell_ok_def Let_def)
  qed
  then show ?thesis unfolding ring_list_def l by (intro nth_equalityI) simp_all
qed

lemma count_once: "distinct xs \<Longrightarrow> count_list xs x = (if x \<in> set xs then 1 else 0)"
  by (induction xs) auto

lemma mset_buckets:
  assumes "\<forall>a\<in>set xs. f a < (n :: nat)"
  shows "mset (concat (map (\<lambda>b. filter (\<lambda>a. f a = b) xs) [0..<n])) = mset xs"
  using assms
proof (induction xs)
  case Nil
  then show ?case by (simp add: concat_eq_Nil_conv)
next
  case (Cons x xs)
  have "mset (concat (map (\<lambda>b. filter (\<lambda>a. f a = b) (x # xs)) bs)) =
      replicate_mset (count_list bs (f x)) x + mset (concat (map (\<lambda>b. filter (\<lambda>a. f a = b) xs) bs))" for bs
    by (induction bs) auto
  moreover have "count_list [0..<n] (f x) = 1" using Cons.prems by (simp add: count_once)
  ultimately show ?case using Cons by simp
qed

lemma lane_list_mset:
  assumes "lane_repr st lq xs"
  shows "mset (lane_list st lq) = mset xs"
proof -
  have "the (collect (tk_next \<circ> st) (ln_head lq b)) = filter (\<lambda>a. prio st a = b) xs" if "b < 256" for b
    using assms that collect_lseg [of "tk_next \<circ> st" "ln_head lq b" "bucket st xs b"]
    by (simp add: lane_repr_def queue_rep_def bucket_def)
  then have "lane_list st lq = concat (map (\<lambda>b. filter (\<lambda>a. prio st a = b) xs) [0..<256])"
    unfolding lane_list_def by (intro arg_cong [of _ _ concat] map_cong) simp_all
  then show ?thesis using mset_buckets [of xs "prio st" 256] prio_less [of st] by simp
qed

lemma pool_nodes_all:
  assumes ok: "pool_ok N p xs ys zss {#}"
  shows "mset (pool_nodes p) = all_nodes xs ys zss {#}"
proof -
  obtain r H where r: "pl_ring p = Some r" "ring_at r H ys" using ok by (auto simp: pool_ok_def ring_ok_def ring_repr_def)
  obtain ds where ds: "pl_deques p = Some ds" "deques_ok N (pl_deque_total p) ds zss" "length ds = length zss" "length zss = pl_worker_count p"
    by (rule pool_deques [OF ok])
  have "map deque_list ds = zss"
    using deques_ok_at [OF ds(2)] ds(3) by (intro nth_equalityI) (auto simp: deque_at_def)
  moreover have "mset (lane_list (pl_store p) (pl_lanes p)) = mset xs" using ok by (intro lane_list_mset) (simp add: pool_ok_def)
  ultimately show ?thesis by (simp add: pool_nodes_def r(1) ring_list_at [OF r(2)] ds(1))
qed

lemma pending_pool_ok: "pool_ok N p xs ys zss {#} \<Longrightarrow> pending p = pend (pl_store p) (all_nodes xs ys zss {#})"
  by (simp only: pending_pend pool_nodes_all)

text \<open>The counter: \<open>queue_len\<close> is the number of pending tasks.\<close>

lemma queue_len_pending:
  assumes ok: "pool_ok N p xs ys zss {#}"
  shows "pl_queue_len p = of_nat (size (pending p))"
proof -
  let ?st = "pl_store p"
  have n: "pl_queue_len p = of_nat (length xs + size (unmarked ?st (others ys zss {#})))" and l: "\<forall>a\<in>set xs. \<not> gone ?st a"
    using ok by (simp_all add: pool_ok_def nodes_ok_def)
  have "unmarked ?st (mset xs) = mset xs" using l by (simp add: unmarked_def filter_mset_eq_conv)
  then have "size (pending p) = length xs + size (unmarked ?st (others ys zss {#}))"
    unfolding pending_pool_ok [OF ok] pend_def size_image_mset unmarked_union [of _ "mset xs"] by simp
  then show ?thesis using n by simp
qed

subsection \<open>Runs\<close>

datatype pool_op =
    OpSubmit int ptr u64 u64 u8
  | OpSubmitFuture int ptr u64 u8 ptr bool bool "u64 option"
  | OpCancel u64 bool
  | OpTurn nat bool
  | OpFinish nat "u64 option"

datatype pool_obs =
    Accepted u64 | Rejected loom_result | Cancelled u64 | NotCancelled loom_result
  | Ran u64 | Skipped u64 | Coroutine | Idle | Finished

definition submit_obs :: "submit_result \<Rightarrow> pool_obs" where
  "submit_obs r = (if fst r = LOOMWORKS_OK then Accepted (snd r) else Rejected (fst r))"

fun pool_step :: "pool_op \<Rightarrow> pool \<Rightarrow> (pool_obs \<times> pool) option" where
  "pool_step (OpSubmit now node fn data priority) p =
     map_option (apfst submit_obs) (loom_pool_submit_priority now node fn data priority p)"
| "pool_step (OpSubmitFuture now node fn priority fut mutex_ok cond_ok ctx) p =
     map_option (apfst (submit_obs \<circ> fst)) (loom_pool_submit_future_priority now node fn priority fut mutex_ok cond_ok ctx p)"
| "pool_step (OpCancel t alloc_ok) p =
     map_option (apfst (\<lambda>rc. if rc = LOOMWORKS_OK then Cancelled t else NotCancelled rc)) (loom_pool_cancel_by_id t alloc_ok p)"
| "pool_step (OpTurn idx cas) p =
     Some (apfst (\<lambda>w. case w of WIdle \<Rightarrow> Idle | WSkip t \<Rightarrow> Skipped t | WCoro a \<Rightarrow> Coroutine | WRun t fn data r \<Rightarrow> Ran t)
             (worker_pass idx cas p))"
| "pool_step (OpFinish idx r) p = Some (Finished, worker_finish idx r p)"

fun run_pool :: "pool_op list \<Rightarrow> pool \<Rightarrow> (pool_obs list \<times> pool) option" where
  "run_pool [] p = Some ([], p)"
| "run_pool (op # ops) p =
     (case pool_step op p of
        None \<Rightarrow> None
      | Some (ob, q) \<Rightarrow> map_option (apfst (Cons ob)) (run_pool ops q))"

text \<open>
  What the rest of the system owes: the allocator hands out no node that is in use, worker numbers
  are below the worker count, and ids given to cancel are not the reserved values \<open>0\<close> and \<open>-1\<close>.
\<close>

fun op_ok :: "pool \<Rightarrow> pool_op \<Rightarrow> bool" where
  "op_ok p (OpSubmit now node fn data priority) = (case node of None \<Rightarrow> True | Some a \<Rightarrow> a \<notin> in_use p)"
| "op_ok p (OpSubmitFuture now node fn priority fut mutex_ok cond_ok ctx) = (case node of None \<Rightarrow> True | Some a \<Rightarrow> a \<notin> in_use p)"
| "op_ok p (OpCancel t alloc_ok) = valid_id t"
| "op_ok p (OpTurn idx cas) = (idx < pl_worker_count p)"
| "op_ok p (OpFinish idx r) = True"

fun run_ok :: "pool_op list \<Rightarrow> pool \<Rightarrow> bool" where
  "run_ok [] p = True"
| "run_ok (op # ops) p =
     (op_ok p op \<and> (case pool_step op p of None \<Rightarrow> True | Some (ob, q) \<Rightarrow> run_ok ops q))"

definition accepted :: "pool_obs list \<Rightarrow> u64 list" where
  "accepted obs = List.map_filter (\<lambda>ob. case ob of Accepted t \<Rightarrow> Some t | _ \<Rightarrow> None) obs"

definition ran :: "pool_obs list \<Rightarrow> u64 list" where
  "ran obs = List.map_filter (\<lambda>ob. case ob of Ran t \<Rightarrow> Some t | _ \<Rightarrow> None) obs"

definition cancelled :: "pool_obs list \<Rightarrow> u64 list" where
  "cancelled obs = List.map_filter (\<lambda>ob. case ob of Cancelled t \<Rightarrow> Some t | _ \<Rightarrow> None) obs"

lemma obs_Nil [simp]: "accepted [] = []" "ran [] = []" "cancelled [] = []"
  by (simp_all add: accepted_def ran_def cancelled_def map_filter_simps)

lemma obs_Cons:
  "accepted (ob # obs) = (case ob of Accepted t \<Rightarrow> t # accepted obs | _ \<Rightarrow> accepted obs)"
  "ran (ob # obs) = (case ob of Ran t \<Rightarrow> t # ran obs | _ \<Rightarrow> ran obs)"
  "cancelled (ob # obs) = (case ob of Cancelled t \<Rightarrow> t # cancelled obs | _ \<Rightarrow> cancelled obs)"
  by (simp_all add: accepted_def ran_def cancelled_def map_filter_simps split: pool_obs.split)

subsection \<open>One step\<close>

definition holds :: "nat \<Rightarrow> pool \<Rightarrow> bool" where
  "holds N p \<longleftrightarrow> (\<exists>xs ys zss. pool_ok N p xs ys zss {#} \<and> in_use p = set_mset (all_nodes xs ys zss {#}))"

text \<open>A step takes at most one node into use and keeps the number of workers.\<close>

definition grows :: "pool \<Rightarrow> pool \<Rightarrow> bool" where
  "grows p q \<longleftrightarrow> pl_worker_count q = pl_worker_count p \<and> (\<exists>a. in_use q \<subseteq> insert a (in_use p))"

lemma growsI: "pl_worker_count q = pl_worker_count p \<Longrightarrow> in_use q \<subseteq> insert a (in_use p) \<Longrightarrow> grows p q"
  by (auto simp: grows_def)

lemma pool_workers: "pool_ok N p xs ys zss hs \<Longrightarrow> pl_worker_count p = length zss"
  by (simp add: pool_ok_def pool_deques_ok_def)

text \<open>A step accounts for every task: \<open>ob\<close> is what it reports.\<close>

definition accounts :: "pool \<Rightarrow> pool_obs \<Rightarrow> pool \<Rightarrow> bool" where
  "accounts p ob q \<longleftrightarrow>
     mset (accepted [ob]) + pending p = mset (ran [ob]) + mset (cancelled [ob]) + pending q \<and>
     grows p q \<and> pl_next_task_id p \<le> pl_next_task_id q \<and> unat (pl_next_task_id q) \<le> Suc (unat (pl_next_task_id p)) \<and>
     (\<forall>t\<in>set (accepted [ob]). pl_next_task_id p < t \<and> t \<le> pl_next_task_id q)"

lemma holds_mono: "holds N p \<Longrightarrow> N \<le> N' \<Longrightarrow> holds N' p"
  unfolding holds_def using pool_ok_mono by blast

lemma submitted_step:
  assumes ok: "pool_ok N p xs ys zss {#}" "in_use p = set_mset (all_nodes xs ys zss {#})" and i: "ids_left p"
    and s: "submit_post N p xs ys zss node r q"
  shows "holds N q \<and> accounts p (submit_obs r) q"
proof (cases "fst r = LOOMWORKS_OK")
  case True
  have sp: "agree (pl_store p) (pl_store q) (all_nodes xs ys zss {#})" "unat (pl_next_task_id q) \<le> Suc (unat (pl_next_task_id p))"
    "pl_next_task_id p \<le> pl_next_task_id q" using s unfolding submit_post_def by blast+
  obtain a xs' ys' where a: "pool_ok N q xs' ys' zss {#}" "all_nodes xs' ys' zss {#} = add_mset a (all_nodes xs ys zss {#})"
    "\<not> gone (pl_store q) a" "tid (pl_store q) a = snd r" "in_use q = insert a (in_use p)"
    "snd r = pl_next_task_id p + 1" "pl_next_task_id q = pl_next_task_id p + 1"
    using s unfolding submit_post_def if_P [OF True] by blast
  have "pending q = add_mset (snd r) (pend (pl_store q) (all_nodes xs ys zss {#}))"
    unfolding pending_pool_ok [OF a(1)] a(2) pend_add using a(3,4) by (simp only: if_False)
  moreover have "pend (pl_store q) (all_nodes xs ys zss {#}) = pending p"
    unfolding pending_pool_ok [OF ok(1)] by (rule pend_agree [OF sp(1)])
  moreover have "in_use q = set_mset (all_nodes xs' ys' zss {#})" unfolding a(2,5) ok(2) by (simp only: set_mset_add_mset_insert)
  then have "holds N q" unfolding holds_def using a(1) by blast
  moreover have "pl_next_task_id p < snd r" "snd r \<le> pl_next_task_id q" using ids_left_next(2) [OF i] a(6,7) by simp_all
  moreover have "grows p q" by (rule growsI [of _ _ a]) (simp_all only: pool_workers [OF a(1)] pool_workers [OF ok(1)] a(5) order_refl)
  ultimately show ?thesis using sp(2,3) True by (simp add: accounts_def submit_obs_def obs_Cons)
next
  case False
  have sp: "agree (pl_store p) (pl_store q) (all_nodes xs ys zss {#})" "unat (pl_next_task_id q) \<le> Suc (unat (pl_next_task_id p))"
    "pl_next_task_id p \<le> pl_next_task_id q" "pool_ok N q xs ys zss {#}" "in_use q = in_use p"
    using s False unfolding submit_post_def by simp_all
  have "pending q = pending p" unfolding pending_pool_ok [OF ok(1)] pending_pool_ok [OF sp(4)] by (rule pend_agree [OF sp(1)])
  moreover have "holds N q" unfolding holds_def using sp(4,5) ok(2) by metis
  moreover have "grows p q" by (rule growsI [of _ _ undefined]) (auto simp only: pool_workers [OF sp(4)] pool_workers [OF ok(1)] sp(5))
  ultimately show ?thesis using sp(2,3) False by (simp add: accounts_def submit_obs_def obs_Cons)
qed

lemma core_step_accounts:
  assumes "core q = core p" "in_use q = in_use p" "holds N p" "accepted [ob] = []" "ran [ob] = []" "cancelled [ob] = []"
  shows "holds N q \<and> accounts p ob q"
proof -
  have "pool_nodes q = pool_nodes p" by (simp add: pool_nodes_def core_fields [OF assms(1)])
  then have "pending q = pending p" by (simp add: pending_def core_fields [OF assms(1)])
  moreover have "grows p q" by (rule growsI [of _ _ undefined]) (auto simp: core_fields [OF assms(1)] assms(2))
  ultimately show ?thesis using assms by (auto simp: holds_def accounts_def core_fields [OF assms(1)] pool_ok_core [OF assms(1)])
qed

lemma submit_steps:
  assumes h: "holds N p" and i: "ids_left p" and a: "case node of None \<Rightarrow> True | Some a \<Rightarrow> a \<notin> in_use p"
  shows "\<exists>r q. enqueue_task now node fn data pr fd None p = Some (r, q) \<and> holds N q \<and> accounts p (submit_obs r) q"
proof -
  obtain xs ys zss where ok: "pool_ok N p xs ys zss {#}" "in_use p = set_mset (all_nodes xs ys zss {#})" using h by (auto simp: holds_def)
  have fresh: "a \<notin># all_nodes xs ys zss {#} \<and> a \<notin> in_use p" if "node = Some a" for a using a ok(2) that by simp
  obtain r q where e: "enqueue_task now node fn data pr fd None p = Some (r, q)" "submit_post N p xs ys zss node r q"
    using enqueue_task_ok [OF ok(1) i fresh] by blast
  then show ?thesis using submitted_step [OF ok i e(2)] by blast
qed

lemma rejected_step: "holds N p \<Longrightarrow> holds N p \<and> accounts p (Rejected rc) p"
  by (rule core_step_accounts) (simp_all add: obs_Cons)

lemma pool_once:
  assumes "pool_ok N p xs ys zss {#}"
  shows "\<forall>b. count (all_nodes xs ys zss {#}) b \<le> 1"
proof -
  have "tasks_ok (pl_store p) (pl_next_task_id p) (mset xs + others ys zss {#})" using assms by (simp add: pool_ok_def nodes_ok_def)
  then show ?thesis unfolding tasks_ok_def by (simp add: add.assoc)
qed

lemma cancel_step:
  assumes h: "holds N p" and t: "valid_id t"
  shows "\<exists>rc q. loom_pool_cancel_by_id t alloc_ok p = Some (rc, q) \<and> holds N q \<and>
    accounts p (if rc = LOOMWORKS_OK then Cancelled t else NotCancelled rc) q"
proof -
  obtain xs ys zss where ok: "pool_ok N p xs ys zss {#}" "in_use p = set_mset (all_nodes xs ys zss {#})" using h by (auto simp: holds_def)
  obtain rc q where e: "loom_pool_cancel_by_id t alloc_ok p = Some (rc, q)" "cancel_post N p xs ys zss t rc q"
    using cancel_by_id_ok [OF ok(1) t] by blast
  obtain xs' where x: "pool_ok N q xs' ys zss {#}" "pl_next_task_id q = pl_next_task_id p"
      "in_use q = in_use p - (set xs - set xs')" "set xs' \<subseteq> set xs"
      "if rc = LOOMWORKS_OK
         then pend (pl_store p) (all_nodes xs ys zss {#}) = add_mset t (pend (pl_store q) (all_nodes xs' ys zss {#}))
         else pend (pl_store q) (all_nodes xs' ys zss {#}) = pend (pl_store p) (all_nodes xs ys zss {#})"
    using e(2) unfolding cancel_post_def by blast
  have one: "\<forall>b. count (all_nodes xs ys zss {#}) b \<le> 1" by (rule pool_once [OF ok(1)])
  have "in_use q = set_mset (all_nodes xs' ys zss {#})"
  proof -
    have "b \<notin> set xs" if "b \<in># others ys zss {#}" for b
    proof
      assume "b \<in> set xs"
      then have "0 < count (mset xs) b" "0 < count (others ys zss {#}) b" using that by (simp_all add: count_greater_zero_iff)
      moreover have "count (mset xs) b + count (others ys zss {#}) b \<le> 1" using one by (simp add: add.assoc)
      ultimately show False by linarith
    qed
    then show ?thesis unfolding x(3) ok(2) using x(4) by (auto simp: add.assoc)
  qed
  then have h': "holds N q" using x(1) by (auto simp: holds_def)
  have gr: "grows p q" by (rule growsI [of _ _ undefined]) (auto simp: pool_workers [OF ok(1)] pool_workers [OF x(1)] x(3))
  have "accounts p (if rc = LOOMWORKS_OK then Cancelled t else NotCancelled rc) q"
    using x(2,5) gr by (cases "rc = LOOMWORKS_OK") (simp_all add: accounts_def obs_Cons pending_pool_ok [OF ok(1)] pending_pool_ok [OF x(1)])
  then show ?thesis using e(1) h' by blast
qed

lemma pend_empty: "pend st {#} = {#}"
  by (simp add: pend_def unmarked_def)

definition turn_obs :: "work \<Rightarrow> pool_obs" where
  "turn_obs w = (case w of WIdle \<Rightarrow> Idle | WSkip t \<Rightarrow> Skipped t | WCoro a \<Rightarrow> Coroutine | WRun t fn data r \<Rightarrow> Ran t)"

lemma turn_step:
  assumes h: "holds N p" and i: "idx < pl_worker_count p" and N: "N + 8 < 2 ^ 64" and e: "worker_pass idx cas p = (w, q)"
  shows "holds (N + 8) q \<and> accounts p (turn_obs w) q \<and> pl_worker_count q = pl_worker_count p \<and>
    (w = WIdle \<and> cas \<longrightarrow> pool_nodes p = []) \<and> (w = WIdle \<longrightarrow> length (pool_nodes q) = length (pool_nodes p)) \<and>
    (w \<noteq> WIdle \<longrightarrow> Suc (length (pool_nodes q)) = length (pool_nodes p)) \<and> (\<forall>a. w \<noteq> WCoro a)"
proof -
  obtain xs ys zss where ok: "pool_ok N p xs ys zss {#}" "in_use p = set_mset (all_nodes xs ys zss {#})" using h by (auto simp: holds_def)
  let ?A = "all_nodes xs ys zss {#}"
  from worker_pass_ok [OF ok(1) i N e] show ?thesis
  proof
    assume a: "w = WIdle \<and> frame p q \<and> (cas \<longrightarrow> ?A = {#}) \<and>
      (\<exists>xs' ys' zss'. pool_ok (N + 8) q xs' ys' zss' {#} \<and> all_nodes xs' ys' zss' {#} = ?A)"
    then obtain xs' ys' zss' where x: "pool_ok (N + 8) q xs' ys' zss' {#}" "all_nodes xs' ys' zss' {#} = ?A" by blast
    have f: "same_data (pl_store p) (pl_store q)" "in_use q = in_use p" "pl_next_task_id q = pl_next_task_id p" using a in_use_log unfolding frame_def by blast+
    have "pending q = pending p" unfolding pending_pool_ok [OF ok(1)] pending_pool_ok [OF x(1)] x(2)
      by (rule pend_agree) (rule agree_same [OF f(1)])
    moreover have "holds (N + 8) q" unfolding holds_def using x ok(2) f(2) by metis
    moreover have "cas \<longrightarrow> pool_nodes p = []"
    proof
      assume cas
      then have "?A = {#}" using a by blast
      then show "pool_nodes p = []" using pool_nodes_all [OF ok(1)] by (simp only: mset_zero_iff)
    qed
    moreover have "pl_worker_count q = pl_worker_count p" using a by (simp add: frame_def)
    moreover have "length (pool_nodes q) = length (pool_nodes p)"
      using arg_cong [OF pool_nodes_all [OF ok(1)], of size] arg_cong [OF pool_nodes_all [OF x(1)], of size]
      unfolding x(2) by (simp only: size_mset)
    moreover have "grows p q" by (rule growsI [of _ _ undefined]) (use a f(2) in \<open>auto simp: frame_def\<close>)
    ultimately show ?thesis using a f(3) by (simp add: accounts_def turn_obs_def obs_Cons)
  next
    assume "\<exists>a. turn_post (N + 8) p ?A a w q"
    then obtain a where "turn_post (N + 8) p ?A a w q" by blast
    note tp = this [unfolded turn_post_def]
    obtain xs' ys' zss' where x: "pool_ok (N + 8) q xs' ys' zss' {#}" "?A = add_mset a (all_nodes xs' ys' zss' {#})"
      using conjunct1 [OF tp] by blast
    note tp2 = conjunct2 [OF tp]
    have f: "same_data (pl_store p) (pl_store q)" "in_use q = in_use p - {a}" "pl_next_task_id q = pl_next_task_id p"
      "pl_worker_count q = pl_worker_count p" using tp2 by simp_all
    have w: "w = (let t = pl_store p a in if tk_cancelled t then WSkip (tk_task_id t)
           else WRun (tk_task_id t) (tk_fn t) (tk_user_data t) (if tk_is_future t then Some (tk_user_data t) else None))"
      using tp2 by (simp add: Let_def)
    have "count ?A a \<le> 1" using pool_once [OF ok(1)] by simp
    then have "a \<notin># all_nodes xs' ys' zss' {#}" unfolding x(2) by (simp add: not_in_iff)
    then have "holds (N + 8) q" unfolding holds_def f(2) ok(2) x(2) using x(1) by (intro exI [of _ xs'] exI [of _ ys'] exI [of _ zss']) simp
    moreover have "pend (pl_store q) (all_nodes xs' ys' zss' {#}) = pend (pl_store p) (all_nodes xs' ys' zss' {#})"
      by (rule pend_agree) (rule agree_same [OF f(1)])
    then have "pending q = pend (pl_store p) (all_nodes xs' ys' zss' {#})" by (simp only: pending_pool_ok [OF x(1)])
    moreover have "pending p = (if gone (pl_store p) a then pend (pl_store p) (all_nodes xs' ys' zss' {#})
        else add_mset (tid (pl_store p) a) (pend (pl_store p) (all_nodes xs' ys' zss' {#})))"
      by (simp only: pending_pool_ok [OF ok(1)] x(2) pend_add)
    moreover have "Suc (length (pool_nodes q)) = length (pool_nodes p)" 
      using arg_cong [OF pool_nodes_all [OF ok(1)], of size] arg_cong [OF pool_nodes_all [OF x(1)], of size]
      unfolding x(2) by (simp only: size_mset size_add_mset)
    moreover have "grows p q" by (rule growsI [of _ _ undefined]) (use f(2,4) in auto)
    ultimately show ?thesis using f(3,4) w by (cases "tk_cancelled (pl_store p a)") (simp_all add: accounts_def turn_obs_def obs_Cons Let_def)
  qed
qed

lemma finish_core: "core (worker_finish idx r p) = core p" "in_use (worker_finish idx r p) = in_use p"
  by (cases r; simp add: worker_finish_def core_def fire_def emit_def Let_def)
     (cases r; simp add: worker_finish_def in_use_def fire_def emit_def Let_def use_event_def)

lemma priority_step:
  assumes h: "holds N p" and i: "ids_left p" and a: "case node of None \<Rightarrow> True | Some a \<Rightarrow> a \<notin> in_use p"
  shows "\<exists>r q. loom_pool_submit_priority now node fn data priority p = Some (r, q) \<and> holds N q \<and> accounts p (submit_obs r) q"
proof (cases "fn = 0")
  case True
  then show ?thesis using rejected_step [OF h] by (simp add: loom_pool_submit_priority_def submit_obs_def)
next
  case False
  then show ?thesis unfolding loom_pool_submit_priority_def if_not_P [OF False] by (intro submit_steps assms)
qed

lemma future_slot:
  fixes p :: pool
  defines "q \<equiv> \<lambda>f c. p\<lparr>pl_future := (pl_future p)(f := future_new), pl_ctx_future := (pl_ctx_future p)(c := f)\<rparr>"
  shows "core (q f c) = core p" "in_use (q f c) = in_use p" "ids_left (q f c) = ids_left p"
  by (simp_all add: q_def core_def in_use_def ids_left_def)

lemma accounts_from:
  assumes "core q = core p" "in_use q = in_use p" "accounts q ob r"
  shows "accounts p ob r"
  using assms(2,3) by (simp add: accounts_def grows_def pending_def pool_nodes_def core_fields [OF assms(1)])

lemma future_priority_step:
  assumes h: "holds N p" and i: "ids_left p" and a: "case node of None \<Rightarrow> True | Some a \<Rightarrow> a \<notin> in_use p"
  shows "\<exists>r q. loom_pool_submit_future_priority now node fn priority fut mutex_ok cond_ok ctx p = Some (r, q) \<and>
    holds N q \<and> accounts p (submit_obs (fst r)) q"
proof (cases "fn = 0 \<or> fut = None \<or> \<not> mutex_ok \<or> \<not> cond_ok \<or> ctx = None")
  case True
  define rc where "rc = (if fn = 0 then LOOMWORKS_ERR_INVALID else LOOMWORKS_ERR_ALLOC)"
  have "loom_pool_submit_future_priority now node fn priority fut mutex_ok cond_ok ctx p = Some (((rc, 0), None), p)"
    using True by (cases fut; cases ctx) (auto simp: loom_pool_submit_future_priority_def rc_def)
  moreover have "submit_obs (rc, 0) = Rejected rc" by (simp add: submit_obs_def rc_def)
  ultimately show ?thesis using rejected_step [OF h, of rc] by simp
next
  case False
  then obtain f c where fc: "fut = Some f" "ctx = Some c" by (cases fut; cases ctx) simp_all
  define p1 where "p1 = p\<lparr>pl_future := (pl_future p)(f := future_new), pl_ctx_future := (pl_ctx_future p)(c := f)\<rparr>"
  have c1: "core p1 = core p" "in_use p1 = in_use p" "ids_left p1" unfolding p1_def using future_slot i by simp_all
  have h1: "holds N p1" using h c1(2) unfolding holds_def pool_ok_core [OF c1(1)] by simp
  have a1: "case node of None \<Rightarrow> True | Some a \<Rightarrow> a \<notin> in_use p1" using a unfolding c1(2) .
  obtain r q where e: "enqueue_task now node future_task_wrapper_fn c priority True None p1 = Some (r, q)"
      "holds N q" "accounts p1 (submit_obs r) q"
    using submit_steps [OF h1 c1(3) a1] by blast
  have "\<exists>fo. loom_pool_submit_future_priority now node fn priority fut mutex_ok cond_ok ctx p = Some (((fst r, if fst r = LOOMWORKS_OK then snd r else 0), fo), q)"
    using False e(1) fc unfolding p1_def by (cases r) (simp add: loom_pool_submit_future_priority_def Let_def)
  then obtain fo where "loom_pool_submit_future_priority now node fn priority fut mutex_ok cond_ok ctx p = Some (((fst r, if fst r = LOOMWORKS_OK then snd r else 0), fo), q)" ..
  moreover have "submit_obs (fst r, if fst r = LOOMWORKS_OK then snd r else 0) = submit_obs r" by (simp add: submit_obs_def)
  ultimately show ?thesis using e(2) accounts_from [OF c1(1,2) e(3)] by simp
qed

lemma pool_step_ok:
  assumes h: "holds N p" and o: "op_ok p op" and i: "ids_left p" and N: "N + 8 < 2 ^ 64"
  shows "\<exists>ob q. pool_step op p = Some (ob, q) \<and> holds (N + 8) q \<and> accounts p ob q"
proof -
  have m: "holds N q \<Longrightarrow> holds (N + 8) q" for q using holds_mono [of N q "N + 8"] by simp
  show ?thesis
  proof (cases op)
    case (OpSubmit now node fn data priority)
    then have a: "case node of None \<Rightarrow> True | Some a \<Rightarrow> a \<notin> in_use p" using o by simp
    obtain r q where "loom_pool_submit_priority now node fn data priority p = Some (r, q)" "holds N q" "accounts p (submit_obs r) q"
      using priority_step [OF h i a] by blast
    then show ?thesis using OpSubmit m by simp
  next
    case (OpSubmitFuture now node fn priority fut mutex_ok cond_ok ctx)
    then have a: "case node of None \<Rightarrow> True | Some a \<Rightarrow> a \<notin> in_use p" using o by simp
    obtain r q where "loom_pool_submit_future_priority now node fn priority fut mutex_ok cond_ok ctx p = Some (r, q)" "holds N q"
        "accounts p (submit_obs (fst r)) q"
      using future_priority_step [OF h i a] by blast
    then show ?thesis using OpSubmitFuture m by simp
  next
    case (OpCancel t alloc_ok)
    then have "valid_id t" using o by simp
    from cancel_step [OF h this, of alloc_ok] obtain rc q where "loom_pool_cancel_by_id t alloc_ok p = Some (rc, q)" "holds N q"
        "accounts p (if rc = LOOMWORKS_OK then Cancelled t else NotCancelled rc) q" by blast
    then show ?thesis using OpCancel m by simp
  next
    case (OpTurn idx cas)
    obtain w q where e: "worker_pass idx cas p = (w, q)" by fastforce
    have "pool_step op p = Some (turn_obs w, q)" using OpTurn e by (simp add: turn_obs_def)
    then show ?thesis using turn_step [OF h _ N e] OpTurn o by simp
  next
    case (OpFinish idx r)
    have "holds N (worker_finish idx r p) \<and> accounts p Finished (worker_finish idx r p)"
      by (rule core_step_accounts [OF finish_core h]) (simp_all add: obs_Cons)
    then show ?thesis using OpFinish m by simp
  qed
qed

subsection \<open>Runs\<close>

definition run_accounts :: "pool \<Rightarrow> pool_obs list \<Rightarrow> pool \<Rightarrow> bool" where
  "run_accounts p obs q \<longleftrightarrow>
     mset (accepted obs) + pending p = mset (ran obs) + mset (cancelled obs) + pending q \<and>
     pl_next_task_id p \<le> pl_next_task_id q \<and> sorted_wrt (<) (accepted obs) \<and>
     (\<forall>t\<in>set (accepted obs). pl_next_task_id p < t \<and> t \<le> pl_next_task_id q)"

lemma obs_split: "accepted (ob # obs) = accepted [ob] @ accepted obs" "ran (ob # obs) = ran [ob] @ ran obs"
  "cancelled (ob # obs) = cancelled [ob] @ cancelled obs"
  by (simp_all add: obs_Cons split: pool_obs.split)

lemma accepted_one: "sorted_wrt (<) (accepted [ob])"
  by (simp add: obs_Cons split: pool_obs.split)

lemma run_accounts_Cons:
  assumes s: "accounts p ob q" and r: "run_accounts q obs q'"
  shows "run_accounts p (ob # obs) q'"
proof -
  have s: "mset (accepted [ob]) + pending p = mset (ran [ob]) + mset (cancelled [ob]) + pending q"
    "pl_next_task_id p \<le> pl_next_task_id q" "\<forall>t\<in>set (accepted [ob]). pl_next_task_id p < t \<and> t \<le> pl_next_task_id q"
    using s unfolding accounts_def by blast+
  have r: "mset (accepted obs) + pending q = mset (ran obs) + mset (cancelled obs) + pending q'"
    "pl_next_task_id q \<le> pl_next_task_id q'" "sorted_wrt (<) (accepted obs)"
    "\<forall>t\<in>set (accepted obs). pl_next_task_id q < t \<and> t \<le> pl_next_task_id q'"
    using r unfolding run_accounts_def by blast+
  have "mset (accepted (ob # obs)) + pending p = mset (accepted obs) + (mset (accepted [ob]) + pending p)"
    unfolding obs_split(1) [of ob obs] mset_append by (simp only: ac_simps)
  also have "\<dots> = mset (ran [ob]) + mset (cancelled [ob]) + (mset (accepted obs) + pending q)" unfolding s(1) by (simp only: ac_simps)
  also have "\<dots> = mset (ran (ob # obs)) + mset (cancelled (ob # obs)) + pending q'"
    unfolding r(1) obs_split(2,3) [of ob obs] mset_append by (simp only: ac_simps)
  finally have "mset (accepted (ob # obs)) + pending p = mset (ran (ob # obs)) + mset (cancelled (ob # obs)) + pending q'" .
  moreover have "sorted_wrt (<) (accepted [ob] @ accepted obs)"
    unfolding sorted_wrt_append using accepted_one [of ob] s(3) r(3,4) by (metis le_less_trans)
  then have "sorted_wrt (<) (accepted (ob # obs))" unfolding obs_split(1) [of ob obs] .
  moreover have "\<forall>t\<in>set (accepted [ob] @ accepted obs). pl_next_task_id p < t \<and> t \<le> pl_next_task_id q'"
    unfolding set_append using s(2,3) r(2,4) by fastforce
  then have "\<forall>t\<in>set (accepted (ob # obs)). pl_next_task_id p < t \<and> t \<le> pl_next_task_id q'" unfolding obs_split(1) [of ob obs] .
  moreover have "pl_next_task_id p \<le> pl_next_task_id q'" using s(2) r(2) by simp
  ultimately show ?thesis by (simp only: run_accounts_def)
qed

lemma holds_facts:
  assumes "holds N p"
  shows "pl_queue_len p = of_nat (size (pending p))" "distinct (pool_nodes p)" "in_use p = set (pool_nodes p)"
proof -
  obtain xs ys zss where ok: "pool_ok N p xs ys zss {#}" "in_use p = set_mset (all_nodes xs ys zss {#})" using assms by (auto simp: holds_def)
  note m = pool_nodes_all [OF ok(1)]
  show "pl_queue_len p = of_nat (size (pending p))" by (rule queue_len_pending [OF ok(1)])
  have "\<forall>b. count (mset (pool_nodes p)) b \<le> 1" unfolding m by (rule pool_once [OF ok(1)])
  then show "distinct (pool_nodes p)"
    by (metis (no_types, opaque_lifting) One_nat_def count_mset_0_iff distinct_count_atmost_1 le_Suc_eq le_zero_eq)
  show "in_use p = set (pool_nodes p)" unfolding ok(2) m [symmetric] by simp
qed

lemma grows_nodes:
  assumes "holds N p" "holds N' q" "grows p q"
  shows "length (pool_nodes q) \<le> Suc (length (pool_nodes p))"
proof -
  note p = holds_facts(2,3) [OF assms(1)] and q = holds_facts(2,3) [OF assms(2)]
  obtain a where "set (pool_nodes q) \<subseteq> insert a (set (pool_nodes p))" using assms(3) unfolding grows_def p(2) q(2) by blast
  then have "card (set (pool_nodes q)) \<le> card (insert a (set (pool_nodes p)))" by (intro card_mono) simp_all
  also have "\<dots> \<le> Suc (card (set (pool_nodes p)))" by (rule card_insert_le_m1) simp_all
  finally show ?thesis using p(1) q(1) by (simp add: distinct_card)
qed

lemma run_pool_ok:
  assumes "holds N p" "run_ok ops p" "N + 8 * length ops \<le> A" "unat (pl_next_task_id p) + length ops \<le> B"
    and A: "A < 2 ^ 64" and B: "B < 2 ^ 64 - 2"
  shows "\<exists>obs q. run_pool ops p = Some (obs, q) \<and> holds (N + 8 * length ops) q \<and> run_accounts p obs q \<and>
    pl_worker_count q = pl_worker_count p \<and> length (pool_nodes q) \<le> length (pool_nodes p) + length ops"
  using assms(1-4)
proof (induction ops arbitrary: p N)
  case Nil
  then show ?case by (simp add: run_accounts_def)
next
  case (Cons op ops)
  have i: "ids_left p" using Cons.prems(4) B unfolding ids_left_def by linarith
  have o: "op_ok p op" using Cons.prems(2) by simp
  have N: "N + 8 < 2 ^ 64" using Cons.prems(3) by (intro le_less_trans [OF _ A]) simp
  obtain ob q where q: "pool_step op p = Some (ob, q)" "holds (N + 8) q" "accounts p ob q"
    using pool_step_ok [OF Cons.prems(1) o i N] by blast
  have n: "unat (pl_next_task_id q) \<le> Suc (unat (pl_next_task_id p))" using q(3) by (simp add: accounts_def)
  have g: "grows p q" using q(3) by (simp add: accounts_def)
  have "run_ok ops q" using Cons.prems(2) q(1) by simp
  moreover have "N + 8 + 8 * length ops \<le> A" using Cons.prems(3) by simp
  moreover have "unat (pl_next_task_id q) + length ops \<le> B" using Cons.prems(4) n by simp
  ultimately obtain obs q' where r: "run_pool ops q = Some (obs, q')" "holds (N + 8 + 8 * length ops) q'" "run_accounts q obs q'"
      "pl_worker_count q' = pl_worker_count q" "length (pool_nodes q') \<le> length (pool_nodes q) + length ops"
    using Cons.IH [OF q(2)] by blast
  have "run_pool (op # ops) p = Some (ob # obs, q')" using q(1) r(1) by simp
  moreover have "holds (N + 8 * length (op # ops)) q'" using r(2) by (simp add: algebra_simps)
  moreover have "pl_worker_count q' = pl_worker_count p" "length (pool_nodes q') \<le> length (pool_nodes p) + length (op # ops)"
    using r(4,5) g grows_nodes [OF Cons.prems(1) q(2) g] by (simp_all add: grows_def)
  ultimately show ?case using run_accounts_Cons [OF q(3) r(3)] by blast
qed

subsection \<open>A created pool\<close>

lemma grow_need:
  assumes c: "c \<le> LOOMWORKS_MAX_QUEUE_CAPACITY" and n: "n < 2 ^ 33"
  shows "\<exists>k i. 0 < k \<and> k < 64 \<and> i < 64 \<and> init_ring_size c = 2 ^ k \<and>
    grow_cap (init_ring_size c + of_nat (n * LOOMWORKS_DEQUE_CAPACITY)) 1 = Some (2 ^ i) \<and> 2 ^ k + 256 * n \<le> (2 :: nat) ^ i"
proof -
  obtain k where k: "0 < k" "k \<le> 32" "init_ring_size c = 2 ^ k"
  proof (cases "c = 0")
    case True
    then show thesis using that [of 12] by (simp add: init_ring_size_def LOOMWORKS_RING_DEFAULT_SLOTS_def)
  next
    case False
    obtain k where k: "k \<le> 32" "next_pow2_u64 c = 2 ^ k" "unat c < 2 ^ k" using next_pow2_bounds [of c] by blast
    have "0 < unat c" using False by (simp add: unat_gt_0)
    then have "0 < k" using k(3) by (cases k) simp_all
    then show thesis using that k False by (simp add: init_ring_size_def)
  qed
  let ?need = "2 ^ k + of_nat (n * 256) :: u64"
  have pk: "(2 :: nat) ^ k \<le> 2 ^ 32" using k(2) by (intro power_increasing) simp_all
  have un: "unat ?need = 2 ^ k + n * 256"
  proof -
    have "?need = of_nat (2 ^ k + n * 256)" by simp
    moreover have "2 ^ k + n * 256 < (2 :: nat) ^ LENGTH(64)" using pk n by simp
    ultimately show ?thesis by (simp only: unat_of_nat mod_less)
  qed
  have "?need \<le> 2 ^ 63" unfolding word_le_nat_alt un using pk n by simp
  then obtain i where i: "i \<le> 63" "grow_cap ?need (2 ^ 0) = Some (2 ^ i)" "?need \<le> 2 ^ i"
    using grow_cap_ends [of ?need 0 63] by auto
  have "2 ^ k + 256 * n \<le> (2 :: nat) ^ i"
    using i(3) unfolding word_le_nat_alt un using i(1) by (simp add: unat_pow2 algebra_simps)
  then show ?thesis using k i by (intro exI [of _ k] exI [of _ i]) (simp add: LOOMWORKS_DEQUE_CAPACITY_def)
qed

lemma start_workers_pool: "start_workers env n is tp s = Inr (tp', s') \<Longrightarrow> tp_pool tp' = tp_pool tp"
  by (induction "is" arbitrary: tp s) (auto simp: Let_def split: if_splits)

lemma pool_init_built:
  assumes "pool_init env cfg s = Some (Inr (tp, s'))"
  shows "\<exists>ring cap nodes deques. tp = pool_built env cfg (if ring then Some (init_ring_size (init_capacity (cfg_queue_capacity cfg)), cap) else None) nodes deques \<and>
    (ring \<longrightarrow> grow_cap (init_ring_size (init_capacity (cfg_queue_capacity cfg)) +
       of_nat (init_worker_count (ie_nproc env) (cfg_worker_count cfg) * LOOMWORKS_DEQUE_CAPACITY)) 1 = Some cap)"
proof -
  let ?rs = "init_ring_size (init_capacity (cfg_queue_capacity cfg))" and ?n = "init_worker_count (ie_nproc env) (cfg_worker_count cfg)"
  obtain x y ring cap nodes deques where b: "init_ring env x = (ring, y)"
      "(if ie_ok env RRing then grow_cap (?rs + of_nat (?n * LOOMWORKS_DEQUE_CAPACITY)) 1 else Some 0) = Some cap"
      "tp = pool_built env cfg (if ring then Some (?rs, cap) else None) nodes deques"
    using assms unfolding pool_init_def Let_def
    by (auto split: sum.splits option.splits prod.splits simp del: if_split)
  have "ring \<longrightarrow> ie_ok env RRing" using b(1) by (auto simp: init_ring_def split: if_splits)
  then show ?thesis using b(2,3) by (intro exI [of _ ring] exI [of _ cap] exI [of _ nodes] exI [of _ deques]) auto
qed

lemma created_holds:
  assumes c: "loom_pool_create env config = Some (Inr (tp, s))" and ring: "pl_ring (tp_pool tp) \<noteq> None" and dq: "pl_deques (tp_pool tp) \<noteq> None"
  shows "holds 0 (tp_pool tp)" "pending (tp_pool tp) = {#}" "pl_next_task_id (tp_pool tp) = 1" "pool_nodes (tp_pool tp) = []"
proof -
  obtain cfg s0 tp0 s1 where p: "pool_init env cfg s0 = Some (Inr (tp0, s1))"
      "start_workers env (tp_max_worker_count tp0) [0..<pl_worker_count (tp_pool tp0)] tp0 s1 = Inr (tp, s)"
    using c unfolding loom_pool_create_def Let_def by (auto split: if_splits option.splits sum.splits)
  let ?n = "init_worker_count (ie_nproc env) (cfg_worker_count cfg)" and ?c = "init_capacity (cfg_queue_capacity cfg)"
  obtain rg cap nodes deques where b: "tp0 = pool_built env cfg (if rg then Some (init_ring_size ?c, cap) else None) nodes deques"
    and g: "rg \<longrightarrow> grow_cap (init_ring_size ?c + of_nat (?n * LOOMWORKS_DEQUE_CAPACITY)) 1 = Some cap"
    using pool_init_built [OF p(1)] by blast
  have t: "tp_pool tp = pool_fresh ?n ?c (if rg then Some (init_ring_size ?c, cap) else None) deques (ie_store env) (ie_ctx env) (ie_fut env)"
    using start_workers_pool [OF p(2)] unfolding b pool_built_def Let_def by simp
  have rg: rg using ring unfolding t by (auto simp: pool_fresh_def split: if_splits)
  have dt: deques using dq unfolding t by (auto simp: pool_fresh_def split: if_splits)
  have cap_le: "?c \<le> LOOMWORKS_MAX_QUEUE_CAPACITY" by (auto simp: init_capacity_def)
  have "?n < 2 ^ 33"
    using unsigned_less [of "cfg_worker_count cfg", where 'a = nat] by (auto simp: init_worker_count_def default_worker_count_def)
  then obtain k i where k: "0 < k" "k < 64" "i < 64" "init_ring_size ?c = 2 ^ k" "2 ^ k + 256 * ?n \<le> (2 :: nat) ^ i" "cap = 2 ^ i"
    using grow_need [OF cap_le, of ?n] g rg by auto
  have t': "tp_pool tp = pool_fresh ?n ?c (Some (2 ^ k, 2 ^ i)) True (ie_store env) (ie_ctx env) (ie_fut env)"
    unfolding t using rg dt k(4,6) by simp
  have ok: "pool_ok 0 (tp_pool tp) [] [] (replicate ?n []) {#}" unfolding t' by (rule pool_fresh_ok [OF k(1,2,3,5)])
  have "in_use (tp_pool tp) = {}" by (simp add: t' pool_fresh_def in_use_def)
  then show "holds 0 (tp_pool tp)" unfolding holds_def using ok by (intro exI [of _ "[]"] exI [of _ "replicate ?n []"] conjI) simp_all
  show "pending (tp_pool tp) = {#}" unfolding pending_pool_ok [OF ok] by (simp add: concat_replicate_trivial pend_empty)
  show "pl_next_task_id (tp_pool tp) = 1" by (simp add: t' pool_fresh_def)
  show "pool_nodes (tp_pool tp) = []" using pool_nodes_all [OF ok] by (simp add: concat_replicate_trivial)
qed

lemma created_run:
  assumes c: "loom_pool_create env config = Some (Inr (tp, s))" and ring: "pl_ring (tp_pool tp) \<noteq> None" and dq: "pl_deques (tp_pool tp) \<noteq> None"
    and ok: "run_ok ops (tp_pool tp)" and len: "length ops < 2 ^ 60"
  shows "\<exists>obs q. run_pool ops (tp_pool tp) = Some (obs, q) \<and> holds (8 * length ops) q \<and> run_accounts (tp_pool tp) obs q \<and>
    pl_worker_count q = pl_worker_count (tp_pool tp) \<and> length (pool_nodes q) \<le> length ops"
proof -
  note h = created_holds [OF c ring dq]
  have "unat (pl_next_task_id (tp_pool tp)) + length ops \<le> 2 ^ 60" using len h(3) by simp
  moreover have "0 + 8 * length ops \<le> 2 ^ 63" using len by simp
  ultimately have "\<exists>obs q. run_pool ops (tp_pool tp) = Some (obs, q) \<and> holds (0 + 8 * length ops) q \<and> run_accounts (tp_pool tp) obs q \<and>
      pl_worker_count q = pl_worker_count (tp_pool tp) \<and> length (pool_nodes q) \<le> length (pool_nodes (tp_pool tp)) + length ops"
    by (intro run_pool_ok [OF h(1) ok, where A = "2 ^ 63" and B = "2 ^ 60"]) simp_all
  then show ?thesis unfolding h(4) by simp
qed

lemma run_counts:
  assumes "run_accounts p obs q" "pending p = {#}"
  shows "mset (accepted obs) = mset (ran obs) + mset (cancelled obs) + pending q" "sorted_wrt (<) (accepted obs)"
  using assms by (simp_all add: run_accounts_def)

text \<open>
  C26.  Every task is dealt with exactly once.  Take any pool that \<open>loom_pool_create\<close>
  returned with its ring and its deques, and any sequence of submissions, submissions with a future,
  cancellations by id, turns of the workers (with the compare-and-swap of the ring and of a steal
  succeeding or failing) and ends of tasks.  The run never gets stuck; the ids of the accepted tasks
  are strictly increasing, hence all different; as a multiset they are the ids of the tasks that ran,
  the ids that were cancelled and the ids still pending in lanes, ring and deques.  So no accepted
  task is lost, none runs twice and none both runs and is cancelled.  The counter \<open>queue_len\<close> is the
  number of pending tasks, and the task nodes in use are exactly those the pool holds, each in one
  place only.  Each operation is one step here; the interleaving inside the ring is the subject of
  \<open>Ring_Concurrent\<close>.
\<close>

theorem pool_exactly_once:
  assumes "loom_pool_create env config = Some (Inr (tp, s))" "pl_ring (tp_pool tp) \<noteq> None" "pl_deques (tp_pool tp) \<noteq> None"
    and "run_ok ops (tp_pool tp)" "length ops < 2 ^ 60"
  shows "\<exists>obs q. run_pool ops (tp_pool tp) = Some (obs, q) \<and>
    mset (accepted obs) = mset (ran obs) + mset (cancelled obs) + pending q \<and> sorted_wrt (<) (accepted obs) \<and>
    pl_queue_len q = of_nat (size (pending q)) \<and> distinct (pool_nodes q) \<and> in_use q = set (pool_nodes q)"
proof -
  obtain obs q where r: "run_pool ops (tp_pool tp) = Some (obs, q)" "holds (8 * length ops) q" "run_accounts (tp_pool tp) obs q"
    using created_run [OF assms] by blast
  show ?thesis using r(1) run_counts [OF r(3) created_holds(2) [OF assms(1-3)]] holds_facts [OF r(2)] by blast
qed

lemma drain_turns:
  assumes "holds N p" "idx < pl_worker_count p" "length (pool_nodes p) = n" "N + 8 * n \<le> A" "A < 2 ^ 64"
  shows "\<exists>obs q. run_pool (replicate n (OpTurn idx True)) p = Some (obs, q) \<and> pool_nodes q = [] \<and> mset (ran obs) = pending p"
  using assms(1-4)
proof (induction n arbitrary: p N)
  case 0
  then show ?case by (simp add: pending_def)
next
  case (Suc n)
  obtain w q where e: "worker_pass idx True p = (w, q)" by fastforce
  have N: "N + 8 < 2 ^ 64" using Suc.prems(4) by (intro le_less_trans [OF _ assms(5)]) simp
  note t = turn_step [OF Suc.prems(1,2) N e]
  have ps: "pool_step (OpTurn idx True) p = Some (turn_obs w, q)" using e by (simp add: turn_obs_def)
  have nz: "w \<noteq> WIdle" using t Suc.prems(3) by auto
  then obtain obs q' where r: "run_pool (replicate n (OpTurn idx True)) q = Some (obs, q')" "pool_nodes q' = []" "mset (ran obs) = pending q"
    using Suc.IH [of "N + 8" q] t Suc.prems by auto
  have "accepted [turn_obs w] = []" "cancelled [turn_obs w] = []" by (cases w; simp add: turn_obs_def obs_Cons)+
  then have "pending p = mset (ran [turn_obs w]) + pending q" using t by (simp add: accounts_def)
  then have "mset (ran (turn_obs w # obs)) = pending p" unfolding obs_split(2) [of "turn_obs w" obs] using r(3) by simp
  then show ?case using ps r(1,2) by simp
qed

text \<open>
  C27.  Work is always found.  After any such run, as many turns of one worker as there are
  nodes in the pool (the worker winning the race for each one it takes) leave no node in lanes, ring
  or deques, and the tasks that ran in these turns are exactly those that were pending: whatever
  place a task was put in - a lane, the ring, another worker's deque - every worker can reach it.
\<close>

theorem pool_drains:
  assumes "loom_pool_create env config = Some (Inr (tp, s))" "pl_ring (tp_pool tp) \<noteq> None" "pl_deques (tp_pool tp) \<noteq> None"
    and "run_ok ops (tp_pool tp)" "length ops < 2 ^ 60" and idx: "idx < pl_worker_count (tp_pool tp)"
  shows "\<exists>obs q obs' q'. run_pool ops (tp_pool tp) = Some (obs, q) \<and>
    run_pool (replicate (length (pool_nodes q)) (OpTurn idx True)) q = Some (obs', q') \<and>
    pool_nodes q' = [] \<and> mset (ran obs') = pending q"
proof -
  obtain obs q where r: "run_pool ops (tp_pool tp) = Some (obs, q)" "holds (8 * length ops) q"
      "pl_worker_count q = pl_worker_count (tp_pool tp)" "length (pool_nodes q) \<le> length ops"
    using created_run [OF assms(1-5)] by blast
  have "8 * length ops + 8 * length (pool_nodes q) \<le> 2 ^ 63 + 2 ^ 63 - 1" using assms(5) r(4) by simp
  then have "\<exists>obs' q'. run_pool (replicate (length (pool_nodes q)) (OpTurn idx True)) q = Some (obs', q') \<and>
      pool_nodes q' = [] \<and> mset (ran obs') = pending q"
    using idx unfolding r(3) [symmetric] by (intro drain_turns [OF r(2) _ refl, where A = "2 ^ 63 + 2 ^ 63 - 1"]) simp_all
  then show ?thesis using r(1) by blast
qed

definition env_all_ok :: init_env where
  "env_all_ok = \<lparr>ie_ok = \<lambda>r. True, ie_nproc = 1, ie_now = 0, ie_numa = (LOOMWORKS_OK, None),
     ie_store = \<lambda>a. \<lparr>tk_fn = 0, tk_user_data = 0, tk_cancelled = False, tk_task_id = 0, tk_priority = 0, tk_next = None,
       tk_free_data = False, tk_is_future = False, tk_is_coro = False, tk_coro_fn = 0, tk_stack_size = 0, tk_completion = None\<rparr>,
     ie_ctx = \<lambda>c. 0, ie_fut = \<lambda>a. future_new\<rparr>"

definition cfg_small :: loom_pool_config where
  "cfg_small = \<lparr>cfg_worker_count = 1, cfg_stack_size = 0, cfg_queue_capacity = 1, cfg_numa_mode = LOOM_NUMA_DISABLED, cfg_virtual_domains = 0\<rparr>"

definition tp_small :: thread_pool where
  "tp_small = (pool_built env_all_ok cfg_small (Some (2, 512)) 4096 True)\<lparr>tp_thread_alive := [True]\<rparr>"

lemma tp_small_created: "\<exists>s. loom_pool_create env_all_ok (Some cfg_small) = Some (Inr (tp_small, s))"
proof -
  have n: "init_worker_count 1 1 = 1" "init_capacity 1 = 1" "init_ring_size 1 = 2" "grow_cap 258 1 = Some 512" by code_simp+
  have pb: "pl_worker_count (tp_pool (pool_built env_all_ok cfg_small r k d)) = 1" "tp_max_worker_count (pool_built env_all_ok cfg_small r k d) = 1"
    "tp_thread_alive (pool_built env_all_ok cfg_small r k d) = [False]" for r k d
    by (simp_all add: pool_built_def pool_fresh_def Let_def env_all_ok_def cfg_small_def n)
  have f: "ie_ok env_all_ok r" "ie_nproc env_all_ok = 1" "cfg_worker_count cfg_small = 1" "cfg_queue_capacity cfg_small = 1"
    "cfg_numa_mode cfg_small = LOOM_NUMA_DISABLED" for r
    by (simp_all add: env_all_ok_def cfg_small_def)
  show ?thesis
    by (simp add: loom_pool_create_def pool_init_def init_locks_def init_ring_def init_nodes_def init_deques_def init_coro_def
        init_threads_def init_numa_def attempt_def bind_res_def Let_def f n pb LOOMWORKS_DEQUE_CAPACITY_def tp_small_def)
qed

lemma tp_small_parts: "pl_ring (tp_pool tp_small) \<noteq> None" "pl_deques (tp_pool tp_small) \<noteq> None"
  by (simp_all add: tp_small_def pool_built_def pool_fresh_def Let_def)

lemma tp_small_workers: "pl_worker_count (tp_pool tp_small) = 1"
  by (simp add: tp_small_def pool_built_def pool_fresh_def Let_def init_worker_count_def cfg_small_def)

definition ops_small :: "pool_op list" where
  "ops_small = [OpSubmit 0 (Some 100) 7 1 5, OpCancel 2 True, OpTurn 0 True, OpSubmit 0 (Some 100) 7 2 0]"

lemma ops_small_ok: "run_ok ops_small (tp_pool tp_small)"
  by code_simp

theorem pool_exactly_once_witness:
  "\<exists>obs q. run_pool ops_small (tp_pool tp_small) = Some (obs, q) \<and>
    mset (accepted obs) = mset (ran obs) + mset (cancelled obs) + pending q \<and> sorted_wrt (<) (accepted obs) \<and>
    pl_queue_len q = of_nat (size (pending q)) \<and> distinct (pool_nodes q) \<and> in_use q = set (pool_nodes q)"
proof -
  obtain s where "loom_pool_create env_all_ok (Some cfg_small) = Some (Inr (tp_small, s))" using tp_small_created by blast
  then show ?thesis by (rule pool_exactly_once [OF _ tp_small_parts ops_small_ok]) (simp add: ops_small_def)
qed

theorem pool_drains_witness:
  "\<exists>obs q obs' q'. run_pool ops_small (tp_pool tp_small) = Some (obs, q) \<and>
    run_pool (replicate (length (pool_nodes q)) (OpTurn 0 True)) q = Some (obs', q') \<and>
    pool_nodes q' = [] \<and> mset (ran obs') = pending q"
proof -
  obtain s where "loom_pool_create env_all_ok (Some cfg_small) = Some (Inr (tp_small, s))" using tp_small_created by blast
  then show ?thesis by (rule pool_drains [OF _ tp_small_parts ops_small_ok]) (simp_all add: ops_small_def tp_small_workers)
qed

end
