(* ===== verification/Spec2Isabelle.thy ===== *)
theory Spec2Isabelle
  imports Timer_Thread Work_Deque Cancel_Index Vyukov_Ring Ring_Concurrent Lane_Queue Node_Cache Future Dag_Run Pool_Exact
begin

text \<open>
  Loomworks: a verification development for the C thread-pool and coroutine library.
  The timer side of the pool is modelled in \<open>Timer_Heap\<close> and \<open>Timer_Thread\<close>.
\<close>

end
